(* ===== verification/Boron_Prelude.thy ===== *)
theory Boron_Prelude
  imports Main "HOL-Library.Word" "HOL-Library.Mapping"
begin

text \<open>
  Shared vocabulary of the BoronDNS development: the machine integers of the Rust code
  (\<open>u8\<close>, \<open>u16\<close>, \<open>u32\<close>, \<open>u64\<close>, \<open>u128\<close> as words; \<open>usize\<close> offsets and lengths
  as \<open>nat\<close>, since no packet comes near the word size, so the \<open>checked_add\<close> and
  \<open>saturating_add\<close> calls on offsets are plain additions), the big-endian accessors
  \<open>from_be_bytes\<close> and \<open>to_be_bytes\<close>, checked slice access, ASCII case folding, and the
  generic lemmas on lists, options and words that the component theories share.
  A Rust \<open>Result\<close> is a sum with the error on the left; a Rust \<open>String\<close> is the list of
  its bytes.
\<close>

unbundle bit_operations_syntax

type_synonym u8 = "8 word"
type_synonym u16 = "16 word"
type_synonym u32 = "32 word"
type_synonym u64 = "64 word"
type_synonym u128 = "128 word"
type_synonym bytes = "u8 list"

named_theorems wire_len \<open>lengths of encoded fields\<close>
named_theorems wire_simps \<open>decoders applied to encoded fields\<close>

section \<open>Big-endian integers\<close>

definition be16 :: "u8 \<Rightarrow> u8 \<Rightarrow> u16" where
  "be16 a b = ucast a * 256 + ucast b"

definition be32 :: "u8 \<Rightarrow> u8 \<Rightarrow> u8 \<Rightarrow> u8 \<Rightarrow> u32" where
  "be32 a b c d = ((ucast a * 256 + ucast b) * 256 + ucast c) * 256 + ucast d"

definition u16_bytes :: "u16 \<Rightarrow> bytes" where
  "u16_bytes w = [ucast (drop_bit 8 w), ucast w]"

definition u32_bytes :: "u32 \<Rightarrow> bytes" where
  "u32_bytes w = [ucast (drop_bit 24 w), ucast (drop_bit 16 w), ucast (drop_bit 8 w), ucast w]"

lemma length_u16_bytes [simp, wire_len]: "length (u16_bytes w) = 2"
  by (simp add: u16_bytes_def)

lemma length_u32_bytes [simp, wire_len]: "length (u32_bytes w) = 4"
  by (simp add: u32_bytes_def)

lemma unat_u8_less: "unat (a :: u8) < 256"
  using unsigned_less [of a, where ?'a = nat] by simp

lemma unat_u16_less: "unat (a :: u16) < 65536"
  using unsigned_less [of a, where ?'a = nat] by simp

lemma unat_be16: "unat (be16 a b) = unat a * 256 + unat b"
  using unat_u8_less [of a] unat_u8_less [of b]
  by (simp add: be16_def unat_word_ariths unsigned_ucast_eq take_bit_nat_eq_self)

lemma unat_be32:
  "unat (be32 a b c d) = ((unat a * 256 + unat b) * 256 + unat c) * 256 + unat d"
  using unat_u8_less [of a] unat_u8_less [of b] unat_u8_less [of c] unat_u8_less [of d]
  by (simp add: be32_def unat_word_ariths unsigned_ucast_eq take_bit_nat_eq_self)

lemma unat_ucast_u16_u8: "unat (ucast (w :: u16) :: u8) = unat w mod 256"
  by (simp add: unsigned_ucast_eq take_bit_eq_mod)

lemma unat_ucast_u32_u8: "unat (ucast (w :: u32) :: u8) = unat w mod 256"
  by (simp add: unsigned_ucast_eq take_bit_eq_mod)

lemma word_unat_eqI: "unat a = unat b \<Longrightarrow> a = b"
  by (simp add: word_eq_iff_unsigned [where ?'a = nat])

lemma be16_u16_bytes [simp]: "be16 (ucast (drop_bit 8 w)) (ucast w) = w"
proof (rule word_unat_eqI)
  have "unat w div 256 < 256" using unat_u16_less [of w] by simp
  then show "unat (be16 (ucast (drop_bit 8 w)) (ucast w)) = unat w"
    by (simp only: unat_be16 unat_ucast_u16_u8 unat_drop_bit_eq) (simp add: drop_bit_eq_div)
qed

lemma nat_base256:
  "((n div 16777216 * 256 + n div 65536 mod 256) * 256 + n div 256 mod 256) * 256
    + n mod 256 = (n :: nat)"
proof -
  have "n div 16777216 = n div 256 div 256 div 256" and "n div 65536 = n div 256 div 256"
    by (simp_all flip: div_mult2_eq)
  then show ?thesis by (simp only: div_mult_mod_eq)
qed

lemma ucast_drop_be16: "ucast (drop_bit 8 (be16 a b)) = a"
proof (rule word_unat_eqI)
  have "unat (drop_bit 8 (be16 a b)) = unat a"
    using unat_u8_less [of b] by (simp only: unat_drop_bit_eq unat_be16) (simp add: drop_bit_eq_div)
  then show "unat (ucast (drop_bit 8 (be16 a b)) :: u8) = unat a"
    using unat_u8_less [of a] by (simp only: unat_ucast_u16_u8) simp
qed

lemma ucast_be16: "ucast (be16 a b) = b"
  by (rule word_unat_eqI) (use unat_u8_less [of b] in \<open>simp add: unat_ucast_u16_u8 unat_be16\<close>)

lemma u16_bytes_be16 [simp]: "u16_bytes (be16 a b) = [a, b]"
  by (simp add: u16_bytes_def ucast_drop_be16 ucast_be16)

lemma be32_u32_bytes [simp]:
  "be32 (ucast (drop_bit 24 w)) (ucast (drop_bit 16 w)) (ucast (drop_bit 8 w)) (ucast w) = w"
proof (rule word_unat_eqI)
  have "unat w < 4294967296" using unsigned_less [of w, where ?'a = nat] by simp
  then have "unat w div 16777216 < 256" by simp
  with nat_base256 [of "unat w"]
  show "unat (be32 (ucast (drop_bit 24 w)) (ucast (drop_bit 16 w)) (ucast (drop_bit 8 w)) (ucast w))
      = unat w"
    by (simp only: unat_be32 unat_ucast_u32_u8 unat_drop_bit_eq) (simp add: drop_bit_eq_div)
qed

lemma u32_bytes_be32 [simp]: "u32_bytes (be32 a b c d) = [a, b, c, d]"
proof -
  note less = unat_u8_less [of a] unat_u8_less [of b] unat_u8_less [of c] unat_u8_less [of d]
  have "unat (drop_bit 24 (be32 a b c d)) = unat a"
    "unat (drop_bit 16 (be32 a b c d)) = unat a * 256 + unat b"
    "unat (drop_bit 8 (be32 a b c d)) = (unat a * 256 + unat b) * 256 + unat c"
    using less by (simp_all only: unat_drop_bit_eq unat_be32) (simp_all add: drop_bit_eq_div)
  then have "unat (ucast (drop_bit 24 (be32 a b c d)) :: u8) = unat a"
    "unat (ucast (drop_bit 16 (be32 a b c d)) :: u8) = unat b"
    "unat (ucast (drop_bit 8 (be32 a b c d)) :: u8) = unat c"
    "unat (ucast (be32 a b c d) :: u8) = unat d"
    using less by (simp_all only: unat_ucast_u32_u8 unat_be32 mod_mult_self3 mod_less)
  then show ?thesis by (simp add: u32_bytes_def word_eq_iff_unsigned [where ?'a = nat])
qed

text \<open>A property of all bytes may be checked by running through the 256 values.\<close>

lemma byte_cases: "list_all (\<lambda>n. P (word_of_nat n :: u8)) [0..<256] \<Longrightarrow> P b"
  using unat_u8_less [of b] by (auto simp: list_all_iff dest: bspec [where x = "unat b"])

lemma unat_of_nat_u8: "n < 256 \<Longrightarrow> unat (of_nat n :: u8) = n"
  by (simp add: unat_of_nat)

lemma unat_of_nat_u16: "n < 65536 \<Longrightarrow> unat (of_nat n :: u16) = n"
  by (simp add: unat_of_nat)

section \<open>Results\<close>

text \<open>The \<open>?\<close> operator, and \<open>map_err\<close>.\<close>

definition and_then :: "'e + 'a \<Rightarrow> ('a \<Rightarrow> 'e + 'b) \<Rightarrow> 'e + 'b" where
  "and_then r f = (case r of Inl e \<Rightarrow> Inl e | Inr x \<Rightarrow> f x)"

definition map_err :: "('e \<Rightarrow> 'f) \<Rightarrow> 'e + 'a \<Rightarrow> 'f + 'a" where
  "map_err g r = (case r of Inl e \<Rightarrow> Inl (g e) | Inr x \<Rightarrow> Inr x)"

definition ensure :: "bool \<Rightarrow> 'e \<Rightarrow> 'e + unit" where
  "ensure b e = (if b then Inr () else Inl e)"

lemma and_then_simps [simp]: "and_then (Inl e) f = Inl e" "and_then (Inr x) f = f x"
  by (simp_all add: and_then_def)

lemma and_then_eq_Inr: "and_then r f = Inr y \<longleftrightarrow> (\<exists>x. r = Inr x \<and> f x = Inr y)"
  by (cases r) simp_all

lemma map_err_simps [simp]: "map_err g (Inl e) = Inl (g e)" "map_err g (Inr x) = Inr x"
  by (simp_all add: map_err_def)

lemma map_err_eq_Inr [simp]: "map_err g r = Inr y \<longleftrightarrow> r = Inr y"
  by (cases r) simp_all

lemma ensure_eq_Inr [simp]: "ensure b e = Inr u \<longleftrightarrow> b"
  by (simp add: ensure_def)

lemma ensure_simps [simp]: "ensure True e = Inr ()" "ensure False e = Inl e"
  by (simp_all add: ensure_def)

section \<open>Checked access to byte slices\<close>

text \<open>\<open>slice.get(i)\<close>, \<open>slice[a..b]\<close> (after its bounds check) and \<open>slice.get(a..b)\<close>.\<close>

definition get_at :: "'a list \<Rightarrow> nat \<Rightarrow> 'a option" where
  "get_at xs i = (if i < length xs then Some (xs ! i) else None)"

definition sub_slice :: "'a list \<Rightarrow> nat \<Rightarrow> nat \<Rightarrow> 'a list" where
  "sub_slice xs a b = take (b - a) (drop a xs)"

definition get_slice :: "'a list \<Rightarrow> nat \<Rightarrow> nat \<Rightarrow> 'a list option" where
  "get_slice xs a b = (if a \<le> b \<and> b \<le> length xs then Some (sub_slice xs a b) else None)"

definition be16_at :: "bytes \<Rightarrow> nat \<Rightarrow> u16" where
  "be16_at xs i = be16 (xs ! i) (xs ! (i + 1))"

definition be32_at :: "bytes \<Rightarrow> nat \<Rightarrow> u32" where
  "be32_at xs i = be32 (xs ! i) (xs ! (i + 1)) (xs ! (i + 2)) (xs ! (i + 3))"

lemma get_at_Some_iff: "get_at xs i = Some x \<longleftrightarrow> i < length xs \<and> xs ! i = x"
  by (auto simp: get_at_def)

lemma get_at_None_iff: "get_at xs i = None \<longleftrightarrow> length xs \<le> i"
  by (auto simp: get_at_def)

lemma get_at_append_right [simp]: "get_at (xs @ ys) (length xs + i) = get_at ys i"
  by (simp add: get_at_def nth_append)

lemma get_at_append_right0 [simp]: "get_at (xs @ ys) (length xs) = get_at ys 0"
  using get_at_append_right [of xs ys 0] by simp

lemma get_at_append_left: "i < length xs \<Longrightarrow> get_at (xs @ ys) i = get_at xs i"
  by (simp add: get_at_def nth_append)

lemma get_at_extend: "get_at xs i = Some x \<Longrightarrow> get_at (xs @ ys) i = Some x"
  by (simp add: get_at_Some_iff nth_append)

lemma get_at_Cons_0 [simp]: "get_at (x # xs) 0 = Some x"
  by (simp add: get_at_def)

lemma get_at_Nil [simp]: "get_at [] i = None"
  by (simp add: get_at_def)

lemma length_sub_slice: "a \<le> b \<Longrightarrow> b \<le> length xs \<Longrightarrow> length (sub_slice xs a b) = b - a"
  by (simp add: sub_slice_def)

lemma sub_slice_append_mid: "length pre = a \<Longrightarrow> b = a + length ys \<Longrightarrow> sub_slice (pre @ ys @ post) a b = ys"
  by (simp add: sub_slice_def)

lemma sub_slice_append_end: "length pre = a \<Longrightarrow> b = a + length ys \<Longrightarrow> sub_slice (pre @ ys) a b = ys"
  by (simp add: sub_slice_def)

lemma sub_slice_extend: "b \<le> length xs \<Longrightarrow> sub_slice (xs @ ys) a b = sub_slice xs a b"
  by (cases "a \<le> b") (simp_all add: sub_slice_def)

lemma sub_slice_full [simp]: "sub_slice xs 0 (length xs) = xs"
  by (simp add: sub_slice_def)

lemma sub_slice_split: "a \<le> b \<Longrightarrow> b \<le> c \<Longrightarrow> sub_slice xs a c = sub_slice xs a b @ sub_slice xs b c"
proof -
  assume "a \<le> b" "b \<le> c"
  then have "c - a = (b - a) + (c - b)" and "drop b xs = drop (b - a) (drop a xs)" by simp_all
  then show ?thesis by (simp only: sub_slice_def take_add)
qed

lemma be16_at_append:
  "length pre = i \<Longrightarrow> be16_at (pre @ u16_bytes w @ post) i = w"
  by (simp add: be16_at_def u16_bytes_def nth_append)

lemma be32_at_append:
  "length pre = i \<Longrightarrow> be32_at (pre @ u32_bytes w @ post) i = w"
  by (simp add: be32_at_def u32_bytes_def nth_append)

section \<open>ASCII case folding\<close>

definition is_ascii_uppercase :: "u8 \<Rightarrow> bool" where
  "is_ascii_uppercase b \<longleftrightarrow> 0x41 \<le> b \<and> b \<le> 0x5a"

definition to_ascii_lowercase :: "u8 \<Rightarrow> u8" where
  "to_ascii_lowercase b = (if is_ascii_uppercase b then b + 0x20 else b)"

definition lower_bytes :: "bytes \<Rightarrow> bytes" where
  "lower_bytes bs = map to_ascii_lowercase bs"

definition eq_ignore_ascii_case :: "bytes \<Rightarrow> bytes \<Rightarrow> bool" where
  "eq_ignore_ascii_case a b \<longleftrightarrow>
     length a = length b \<and> list_all2 (\<lambda>x y. to_ascii_lowercase x = to_ascii_lowercase y) a b"

lemma to_ascii_lowercase_idem [simp]:
  "to_ascii_lowercase (to_ascii_lowercase b) = to_ascii_lowercase b"
proof -
  have "is_ascii_uppercase b \<Longrightarrow> \<not> is_ascii_uppercase (b + 0x20)"
    by (simp add: is_ascii_uppercase_def word_le_nat_alt unat_word_ariths)
  then show ?thesis by (simp add: to_ascii_lowercase_def)
qed

lemma length_lower_bytes [simp]: "length (lower_bytes bs) = length bs"
  by (simp add: lower_bytes_def)

lemma lower_bytes_idem [simp]: "lower_bytes (lower_bytes bs) = lower_bytes bs"
  by (simp add: lower_bytes_def)

lemma lower_bytes_Nil_iff [simp]: "lower_bytes bs = [] \<longleftrightarrow> bs = []"
  by (simp add: lower_bytes_def)

lemma eq_ignore_ascii_case_iff: "eq_ignore_ascii_case a b \<longleftrightarrow> lower_bytes a = lower_bytes b"
proof
  assume "eq_ignore_ascii_case a b"
  then show "lower_bytes a = lower_bytes b"
    by (simp add: eq_ignore_ascii_case_def lower_bytes_def list_all2_conv_all_nth list_eq_iff_nth_eq)
next
  assume eq: "lower_bytes a = lower_bytes b"
  then have "length a = length b" by (metis length_lower_bytes)
  moreover from this have "\<forall>i < length a. to_ascii_lowercase (a ! i) = to_ascii_lowercase (b ! i)"
    using eq by (simp add: lower_bytes_def list_eq_iff_nth_eq)
  ultimately show "eq_ignore_ascii_case a b"
    by (simp add: eq_ignore_ascii_case_def list_all2_conv_all_nth)
qed

section \<open>Hash maps\<close>

lemma lookup_delete_if: "Mapping.lookup (Mapping.delete a t) b = (if b = a then None else Mapping.lookup t b)"
  by (simp add: lookup_delete lookup_delete_neq)

end
