(* ===== verification/Dns_Name.thy ===== *)
theory Dns_Name
  imports Boron_Prelude
begin

text \<open>
  Domain names, from \<open>crates/borondns-core/src/dns.rs\<close>: the \<open>DomainName\<close> type, its wire
  and text forms, the compressed-name decoder \<open>parse_with_reusable_labels\<close> and the
  allocation-free scanner \<open>scan_compressed_name\<close>, subdomain tests and DNAME suffix
  replacement.  The decoder is specified by the inductive relation \<open>name_at\<close>, which says
  what a possibly compressed name at a packet offset stands for; both decoders are proved
  to implement it exactly, within the limits of 255 octets and 128 pointers.
\<close>

section \<open>Types and constants\<close>

datatype dns_parse_error = ShortHeader | FormErr

datatype domain_name = DomainName (labels: "bytes list")

definition MAX_COMPRESSED_NAME_POINTERS :: nat where
  "MAX_COMPRESSED_NAME_POINTERS = 128"

definition root :: domain_name where
  "root = DomainName []"

section \<open>Text form\<close>

text \<open>\<open>str::split('.')\<close>: the pieces between dots, at least one.\<close>

fun split_dot :: "bytes \<Rightarrow> bytes list" where
  "split_dot [] = [[]]"
| "split_dot (c # cs) =
     (if c = 0x2e then [] # split_dot cs
      else (case split_dot cs of [] \<Rightarrow> [[c]] | p # ps \<Rightarrow> (c # p) # ps))"

fun absolute_labels :: "bytes list \<Rightarrow> nat \<Rightarrow> bytes list \<Rightarrow> dns_parse_error + domain_name" where
  "absolute_labels acc total_len [] = Inr (DomainName acc)"
| "absolute_labels acc total_len (l # ls) =
     (if l = [] \<or> length l > 63 then Inl FormErr
      else if total_len + 1 + length l > 255 then Inl FormErr
      else absolute_labels (acc @ [l]) (total_len + 1 + length l) ls)"

definition from_absolute_str :: "bytes \<Rightarrow> dns_parse_error + domain_name" where
  "from_absolute_str name =
     (if name = [0x2e] then Inr root
      else if name = [] \<or> last name \<noteq> 0x2e then Inl FormErr
      else absolute_labels [] 1 (split_dot (butlast name)))"

text \<open>The decimal escape \<open>\ddd\<close> of \<open>canonical_key\<close> and \<open>Display\<close>.\<close>

definition escaped_byte :: "u8 \<Rightarrow> bytes" where
  "escaped_byte b =
     [0x5c, 0x30 + b div 100, 0x30 + b div 10 mod 10, 0x30 + b mod 10]"

definition key_byte :: "u8 \<Rightarrow> bytes" where
  "key_byte b =
     (if b = 0x5c \<or> b = 0x2e \<or> b \<le> 0x20 \<or> 0x7f \<le> b then escaped_byte b else [b])"

definition canonical_name_key_from_labels :: "bytes list \<Rightarrow> bytes" where
  "canonical_name_key_from_labels ls =
     (let key = concat (map (\<lambda>l. concat (map (\<lambda>b. key_byte (to_ascii_lowercase b)) l) @ [0x2e]) ls)
      in if key = [] then [0x2e] else key)"

definition canonical_key :: "domain_name \<Rightarrow> bytes" where
  "canonical_key n = canonical_name_key_from_labels (labels n)"

definition to_string :: "domain_name \<Rightarrow> bytes" where
  "to_string n =
     (if labels n = [] then [0x2e]
      else concat (map (\<lambda>l. concat (map key_byte l) @ [0x2e]) (labels n)))"

section \<open>Wire form\<close>

definition name_wire_len :: "bytes list \<Rightarrow> nat" where
  "name_wire_len ls = sum_list (map (\<lambda>l. 1 + length l) ls) + 1"

definition wire_len :: "domain_name \<Rightarrow> nat" where
  "wire_len n = name_wire_len (labels n)"

definition encode_label :: "bytes \<Rightarrow> bytes" where
  "encode_label l = of_nat (length l) # l"

definition encode_name_labels :: "bytes list \<Rightarrow> bytes" where
  "encode_name_labels ls = concat (map encode_label ls) @ [0]"

definition to_wire :: "domain_name \<Rightarrow> bytes" where
  "to_wire n = encode_name_labels (labels n)"

definition to_ascii_lowercased :: "domain_name \<Rightarrow> domain_name" where
  "to_ascii_lowercased n = DomainName (map lower_bytes (labels n))"

section \<open>The compressed-name decoder\<close>

definition pointer_of :: "u8 \<Rightarrow> u8 \<Rightarrow> nat" where
  "pointer_of len nxt = push_bit 8 (unat (len AND 0x3f)) OR unat nxt"

text \<open>
  The loop of \<open>parse_with_reusable_labels\<close>.  \<open>reuse\<close> is its const parameter \<open>REUSE\<close>;
  \<open>ls\<close> is the label vector, which on the reusing path starts as a recycled buffer whose
  first entries are overwritten.
\<close>

definition store_label :: "bool \<Rightarrow> bytes list \<Rightarrow> nat \<Rightarrow> bytes \<Rightarrow> bytes list" where
  "store_label reuse ls label_count l =
     (if reuse \<and> label_count < length ls then ls[label_count := l] else ls @ [l])"

function parse_loop ::
  "bool \<Rightarrow> bytes \<Rightarrow> nat \<Rightarrow> bytes list \<Rightarrow> nat \<Rightarrow> nat \<Rightarrow> nat option \<Rightarrow> nat \<Rightarrow> nat \<Rightarrow> bool
     \<Rightarrow> dns_parse_error + (domain_name \<times> nat \<times> bool)" where
  "parse_loop reuse packet offset ls label_count pos consumed followed total_len lowercase =
     (case get_at packet pos of
        None \<Rightarrow> Inl FormErr
      | Some len \<Rightarrow>
          if len AND 0xc0 = 0xc0 then
            (case get_at packet (pos + 1) of
               None \<Rightarrow> Inl FormErr
             | Some nxt \<Rightarrow>
                 if pos \<le> pointer_of len nxt then Inl FormErr
                 else if MAX_COMPRESSED_NAME_POINTERS \<le> followed then Inl FormErr
                 else parse_loop reuse packet offset ls label_count (pointer_of len nxt)
                        (Some (case consumed of None \<Rightarrow> pos + 2 - offset | Some c \<Rightarrow> c))
                        (followed + 1) total_len lowercase)
          else if len AND 0xc0 = 0 then
            (if len = 0 then
               Inr (DomainName (if reuse then take label_count ls else ls),
                    (case consumed of None \<Rightarrow> pos + 1 - offset | Some c \<Rightarrow> c), lowercase)
             else if 63 < unat len \<or> length packet < pos + 1 + unat len then Inl FormErr
             else if 255 < total_len + (1 + unat len) then Inl FormErr
             else parse_loop reuse packet offset
                    (store_label reuse ls label_count (sub_slice packet (pos + 1) (pos + 1 + unat len)))
                    (label_count + 1) (pos + 1 + unat len) consumed followed
                    (total_len + (1 + unat len))
                    (lowercase \<and> list_all (\<lambda>b. to_ascii_lowercase b = b)
                                    (sub_slice packet (pos + 1) (pos + 1 + unat len))))
          else Inl FormErr)"
  by pat_completeness auto
termination
  by (relation "measure (\<lambda>(reuse, packet, offset, ls, label_count, pos, consumed, followed,
        total_len, lowercase). (255 - total_len) + (MAX_COMPRESSED_NAME_POINTERS - followed))")
     (auto simp: MAX_COMPRESSED_NAME_POINTERS_def word_neq_0_conv)

declare parse_loop.simps [simp del]

definition parse_with_reusable_labels ::
  "bool \<Rightarrow> bytes \<Rightarrow> nat \<Rightarrow> bytes list \<Rightarrow> dns_parse_error + (domain_name \<times> nat \<times> bool)" where
  "parse_with_reusable_labels reuse packet offset ls =
     parse_loop reuse packet offset ls 0 offset None 0 1 True"

definition parse_with_ascii_lowercase ::
  "bytes \<Rightarrow> nat \<Rightarrow> dns_parse_error + (domain_name \<times> nat \<times> bool)" where
  "parse_with_ascii_lowercase packet offset = parse_with_reusable_labels False packet offset []"

definition parse_name :: "bytes \<Rightarrow> nat \<Rightarrow> dns_parse_error + (domain_name \<times> nat)" where
  "parse_name packet offset =
     (case parse_with_ascii_lowercase packet offset of
        Inl e \<Rightarrow> Inl e
      | Inr (n, consumed, _) \<Rightarrow> Inr (n, consumed))"


text \<open>\<open>from_uncompressed_wire\<close>: the same label rules, no pointers, and no trailing bytes.\<close>

function uncompressed_loop ::
  "bytes \<Rightarrow> bytes list \<Rightarrow> nat \<Rightarrow> nat \<Rightarrow> dns_parse_error + domain_name" where
  "uncompressed_loop wire ls pos total_len =
     (case get_at wire pos of
        None \<Rightarrow> Inl FormErr
      | Some len \<Rightarrow>
          if len = 0 then (if pos + 1 = length wire then Inr (DomainName ls) else Inl FormErr)
          else if len AND 0xc0 \<noteq> 0 then Inl FormErr
          else if 63 < unat len \<or> length wire < pos + 1 + unat len then Inl FormErr
          else if 255 < total_len + (1 + unat len) then Inl FormErr
          else uncompressed_loop wire (ls @ [sub_slice wire (pos + 1) (pos + 1 + unat len)])
                 (pos + 1 + unat len) (total_len + (1 + unat len)))"
  by pat_completeness auto
termination
  by (relation "measure (\<lambda>(wire, ls, pos, total_len). length wire - pos)")
     (auto simp: get_at_Some_iff)

declare uncompressed_loop.simps [simp del]

definition from_uncompressed_wire :: "bytes \<Rightarrow> dns_parse_error + domain_name" where
  "from_uncompressed_wire wire = uncompressed_loop wire [] 0 1"

section \<open>The allocation-free scanner\<close>

record compressed_name_scan =
  scan_consumed :: nat
  scan_label_count :: nat
  matches_expected :: bool

function scan_loop ::
  "bytes \<Rightarrow> nat \<Rightarrow> domain_name option \<Rightarrow> nat \<Rightarrow> nat option \<Rightarrow> nat \<Rightarrow> nat \<Rightarrow> nat \<Rightarrow> bool
     \<Rightarrow> dns_parse_error + compressed_name_scan" where
  "scan_loop packet offset expected pos consumed followed total_len label_count matches =
     (case get_at packet pos of
        None \<Rightarrow> Inl FormErr
      | Some len \<Rightarrow>
          if len AND 0xc0 = 0xc0 then
            (case get_at packet (pos + 1) of
               None \<Rightarrow> Inl FormErr
             | Some nxt \<Rightarrow>
                 if pos \<le> pointer_of len nxt then Inl FormErr
                 else if MAX_COMPRESSED_NAME_POINTERS \<le> followed then Inl FormErr
                 else scan_loop packet offset expected (pointer_of len nxt)
                        (Some (case consumed of None \<Rightarrow> pos + 2 - offset | Some c \<Rightarrow> c))
                        (followed + 1) total_len label_count matches)
          else if len AND 0xc0 = 0 then
            (if len = 0 then
               Inr \<lparr> scan_consumed = (case consumed of None \<Rightarrow> pos + 1 - offset | Some c \<Rightarrow> c),
                     scan_label_count = label_count,
                     matches_expected =
                       (case expected of None \<Rightarrow> matches
                        | Some e \<Rightarrow> matches \<and> label_count = length (labels e)) \<rparr>
             else if 63 < unat len \<or> length packet < pos + 1 + unat len then Inl FormErr
             else if 255 < total_len + (1 + unat len) then Inl FormErr
             else scan_loop packet offset expected (pos + 1 + unat len) consumed followed
                    (total_len + (1 + unat len)) (label_count + 1)
                    (case expected of None \<Rightarrow> matches
                     | Some e \<Rightarrow> matches \<and>
                         (case get_at (labels e) label_count of
                            None \<Rightarrow> False
                          | Some l \<Rightarrow> eq_ignore_ascii_case l
                              (sub_slice packet (pos + 1) (pos + 1 + unat len)))))
          else Inl FormErr)"
  by pat_completeness auto
termination
  by (relation "measure (\<lambda>(packet, offset, expected, pos, consumed, followed, total_len,
        label_count, matches). (255 - total_len) + (MAX_COMPRESSED_NAME_POINTERS - followed))")
     (auto simp: MAX_COMPRESSED_NAME_POINTERS_def word_neq_0_conv)

declare scan_loop.simps [simp del]

definition scan_compressed_name ::
  "bytes \<Rightarrow> nat \<Rightarrow> domain_name option \<Rightarrow> dns_parse_error + compressed_name_scan" where
  "scan_compressed_name packet offset expected =
     scan_loop packet offset expected offset None 0 1 0 True"

definition skip_compressed_name :: "bytes \<Rightarrow> nat \<Rightarrow> dns_parse_error + nat" where
  "skip_compressed_name packet offset =
     (case scan_compressed_name packet offset None of
        Inl e \<Rightarrow> Inl e | Inr scan \<Rightarrow> Inr (scan_consumed scan))"

section \<open>Relations between names, suffix replacement\<close>

definition label_count :: "domain_name \<Rightarrow> nat" where
  "label_count n = length (labels n)"

definition labels_match :: "bytes list \<Rightarrow> bytes list \<Rightarrow> bool" where
  "labels_match xs ys = list_all (\<lambda>(l, r). eq_ignore_ascii_case l r) (zip xs ys)"

definition is_equal_or_subdomain_of :: "domain_name \<Rightarrow> domain_name \<Rightarrow> bool" where
  "is_equal_or_subdomain_of n zone =
     (if length (labels n) < length (labels zone) then False
      else labels_match (drop (length (labels n) - length (labels zone)) (labels n)) (labels zone))"

definition matches_ascii_labels_ignore_case :: "domain_name \<Rightarrow> bytes list \<Rightarrow> bool" where
  "matches_ascii_labels_ignore_case n ls \<longleftrightarrow>
     length (labels n) = length ls \<and> labels_match (labels n) ls"

definition parent :: "domain_name \<Rightarrow> domain_name option" where
  "parent n = (if labels n = [] then None else Some (DomainName (tl (labels n))))"

definition wildcard_child :: "domain_name \<Rightarrow> domain_name" where
  "wildcard_child n = DomainName ([0x2a] # labels n)"

definition with_replaced_suffix ::
  "domain_name \<Rightarrow> domain_name \<Rightarrow> domain_name \<Rightarrow> domain_name option" where
  "with_replaced_suffix n suffix replacement =
     (if \<not> is_equal_or_subdomain_of n suffix then None
      else
        let prefix_len = length (labels n) - length (labels suffix);
            ls = take prefix_len (labels n) @ labels replacement
        in if 255 < name_wire_len ls then None else Some (DomainName ls))"

text \<open>The wire-level variant: the suffix and the replacement are given as stored wire names.\<close>

fun wire_labels_match :: "bytes \<Rightarrow> bytes list \<Rightarrow> nat \<Rightarrow> bool option" where
  "wire_labels_match wire [] total_len = Some (wire = [0])"
| "wire_labels_match wire (l # ls) total_len =
     (case wire of
        [] \<Rightarrow> None
      | len # rest \<Rightarrow>
          if len AND 0xc0 \<noteq> 0 \<or> unat len \<noteq> length l then Some False
          else if 63 < unat len \<or> length rest < unat len then None
          else if 255 < total_len + (1 + unat len) then None
          else if \<not> eq_ignore_ascii_case l (take (unat len) rest) then Some False
          else wire_labels_match (drop (unat len) rest) ls (total_len + (1 + unat len)))"

definition wire_labels_match_name_suffix :: "bytes \<Rightarrow> bytes list \<Rightarrow> bool option" where
  "wire_labels_match_name_suffix wire ls = wire_labels_match wire ls 1"

definition with_replaced_wire_suffix_wire_counted ::
  "domain_name \<Rightarrow> bytes \<Rightarrow> nat \<Rightarrow> bytes \<Rightarrow> (bytes \<times> nat) option" where
  "with_replaced_wire_suffix_wire_counted n suffix_wire suffix_label_count replacement_wire =
     (if length (labels n) < suffix_label_count then None
      else
        let prefix_len = length (labels n) - suffix_label_count in
        (case wire_labels_match_name_suffix suffix_wire (drop prefix_len (labels n)) of
           None \<Rightarrow> None
         | Some m \<Rightarrow>
             if \<not> m then None
             else
               let wire = concat (map encode_label (take prefix_len (labels n))) @ replacement_wire
               in if 255 < length wire then None else Some (wire, prefix_len)))"

definition with_replaced_wire_suffix_and_stored_wire_parts_counted ::
  "domain_name \<Rightarrow> bytes \<Rightarrow> nat \<Rightarrow> domain_name \<Rightarrow> bytes \<Rightarrow> (domain_name \<times> bytes \<times> nat) option" where
  "with_replaced_wire_suffix_and_stored_wire_parts_counted n suffix_wire suffix_label_count
       replacement replacement_wire =
     (case with_replaced_wire_suffix_wire_counted n suffix_wire suffix_label_count replacement_wire of
        None \<Rightarrow> None
      | Some (wire, prefix_len) \<Rightarrow>
          Some (DomainName (take prefix_len (labels n) @ labels replacement), wire, prefix_len))"

section \<open>What a compressed name means\<close>

text \<open>Reading the length octet: two top bits clear is a label, both set is a pointer.\<close>

lemma len_label_iff: "(len :: u8) AND 0xc0 = 0 \<longleftrightarrow> unat len \<le> 63"
  by (rule byte_cases) code_simp

lemma len_pointer_iff: "(len :: u8) AND 0xc0 = 0xc0 \<longleftrightarrow> 192 \<le> unat len"
  by (rule byte_cases) code_simp

lemma pointer_of_eq: "pointer_of len nxt = unat (len AND 0x3f) * 256 + unat nxt"
proof -
  have "push_bit 8 (unat (len AND 0x3f)) AND unat nxt = 0"
    by (rule bit_eqI) (auto simp: bit_simps bit_unsigned_iff dest: bit_imp_le_length)
  then have "push_bit 8 (unat (len AND 0x3f)) OR unat nxt = push_bit 8 (unat (len AND 0x3f)) + unat nxt"
    by (rule disjunctive_add_eq_or [symmetric])
  then show ?thesis by (simp add: pointer_of_def push_bit_eq_mult)
qed

text \<open>
  Well-formed names: every label has 1 to 63 octets and the wire form at most 255.
\<close>

definition valid_label :: "bytes \<Rightarrow> bool" where
  "valid_label l \<longleftrightarrow> l \<noteq> [] \<and> length l \<le> 63"

definition valid_name :: "domain_name \<Rightarrow> bool" where
  "valid_name n \<longleftrightarrow> list_all valid_label (labels n) \<and> wire_len n \<le> 255"

text \<open>
  \<open>name_at packet pos ls hops span\<close>: the octets of \<open>packet\<close> from \<open>pos\<close> on denote the labels
  \<open>ls\<close>, following \<open>hops\<close> compression pointers, and the name itself occupies \<open>span\<close> octets
  there.  A pointer must lead strictly backwards.
\<close>

inductive name_at :: "bytes \<Rightarrow> nat \<Rightarrow> bytes list \<Rightarrow> nat \<Rightarrow> nat \<Rightarrow> bool" for packet where
  end_of_name: "get_at packet pos = Some 0 \<Longrightarrow> name_at packet pos [] 0 1"
| label: "get_at packet pos = Some len \<Longrightarrow> 0 < unat len \<Longrightarrow> unat len \<le> 63 \<Longrightarrow>
    pos + 1 + unat len \<le> length packet \<Longrightarrow>
    name_at packet (pos + 1 + unat len) ls hops span \<Longrightarrow>
    name_at packet pos (sub_slice packet (pos + 1) (pos + 1 + unat len) # ls) hops
      (1 + unat len + span)"
| pointer: "get_at packet pos = Some len \<Longrightarrow> 192 \<le> unat len \<Longrightarrow>
    get_at packet (pos + 1) = Some nxt \<Longrightarrow> pointer_of len nxt < pos \<Longrightarrow>
    name_at packet (pointer_of len nxt) ls hops span \<Longrightarrow>
    name_at packet pos ls (Suc hops) 2"

section \<open>The decoders implement the relation\<close>

lemma parse_loop_complete:
  assumes "name_at packet pos ls hops span"
    and "followed + hops \<le> 128" and "total_len + (name_wire_len ls - 1) \<le> 255"
    and "consumed \<noteq> None \<or> offset \<le> pos"
  shows "parse_loop False packet offset acc cnt pos consumed followed total_len lc =
    Inr (DomainName (acc @ ls), (case consumed of None \<Rightarrow> pos + span - offset | Some c \<Rightarrow> c),
      lc \<and> list_all (list_all (\<lambda>b. to_ascii_lowercase b = b)) ls)"
  using assms
proof (induction arbitrary: acc cnt consumed followed total_len lc rule: name_at.induct)
  case (end_of_name pos)
  then show ?case by (subst parse_loop.simps) simp
next
  case (label pos len ls hops span)
  have "parse_loop False packet offset acc' cnt' (pos + 1 + unat len) consumed followed
      (total_len + (1 + unat len)) lc' = Inr (DomainName (acc' @ ls),
        case consumed of None \<Rightarrow> pos + 1 + unat len + span - offset | Some c \<Rightarrow> c,
        lc' \<and> list_all (list_all (\<lambda>b. to_ascii_lowercase b = b)) ls)" for acc' cnt' lc'
    by (rule label.IH) (use label.prems label.hyps in \<open>auto simp: name_wire_len_def length_sub_slice\<close>)
  with label show ?case
    by (subst parse_loop.simps)
      (auto simp: len_label_iff len_pointer_iff store_label_def name_wire_len_def length_sub_slice
        ac_simps split: option.splits)
next
  case (pointer pos len nxt ls hops span)
  then show ?case
    by (subst parse_loop.simps)
      (auto simp: len_label_iff len_pointer_iff MAX_COMPRESSED_NAME_POINTERS_def split: option.splits)
qed

lemma parse_loop_sound:
  assumes "parse_loop False packet offset acc cnt pos consumed followed total_len lc = Inr (n, c, lc')"
    and "total_len \<le> 255" "followed \<le> 128"
    and "consumed \<noteq> None \<or> offset \<le> pos"
  shows "\<exists>ls hops span. name_at packet pos ls hops span \<and> n = DomainName (acc @ ls) \<and>
    followed + hops \<le> 128 \<and> total_len + (name_wire_len ls - 1) \<le> 255 \<and>
    c = (case consumed of None \<Rightarrow> pos + span - offset | Some c \<Rightarrow> c)"
  using assms
proof (induction False packet offset acc cnt pos consumed followed total_len lc
    rule: parse_loop.induct)
  case (1 packet offset acc cnt pos consumed followed total_len lc)
  from "1.prems"(1) obtain len where len: "get_at packet pos = Some len"
    by (subst (asm) parse_loop.simps) (auto split: option.splits)
  consider (ptr) "192 \<le> unat len" | (zero) "len = 0" | (lab) "0 < unat len" "unat len \<le> 63"
    | (bad) "63 < unat len" "unat len < 192" by (metis not_le unat_gt_0 word_neq_0_conv)
  then show ?case
  proof cases
    case ptr
    with "1.prems"(1) len obtain nxt where nxt: "get_at packet (pos + 1) = Some nxt"
      and earlier: "pointer_of len nxt < pos" and few: "followed < 128"
      and rest: "parse_loop False packet offset acc cnt (pointer_of len nxt)
        (Some (case consumed of None \<Rightarrow> pos + 2 - offset | Some c \<Rightarrow> c)) (followed + 1) total_len lc
        = Inr (n, c, lc')"
      by (subst (asm) parse_loop.simps)
        (auto simp: len_pointer_iff MAX_COMPRESSED_NAME_POINTERS_def not_le split: option.splits if_splits)
    have "\<exists>ls hops span. name_at packet (pointer_of len nxt) ls hops span \<and> n = DomainName (acc @ ls) \<and>
      followed + 1 + hops \<le> 128 \<and> total_len + (name_wire_len ls - 1) \<le> 255 \<and>
      c = (case consumed of None \<Rightarrow> pos + 2 - offset | Some c \<Rightarrow> c)"
      using "1.hyps"(1) [OF len _ nxt _ _ rest] ptr earlier few "1.prems"
      by (simp add: len_pointer_iff MAX_COMPRESSED_NAME_POINTERS_def)
    then obtain ls hops span where IH: "name_at packet (pointer_of len nxt) ls hops span"
        "n = DomainName (acc @ ls)" "followed + 1 + hops \<le> 128"
        "total_len + (name_wire_len ls - 1) \<le> 255"
        "c = (case consumed of None \<Rightarrow> pos + 2 - offset | Some c \<Rightarrow> c)" by auto
    with name_at.pointer [OF len ptr nxt earlier IH(1)] show ?thesis
      by (intro exI conjI) (assumption | simp split: option.splits)+
  next
    case zero
    with "1.prems" len show ?thesis
      by (subst (asm) parse_loop.simps)
        (fastforce simp: name_wire_len_def intro: name_at.end_of_name split: option.splits)
  next
    case lab
    let ?l = "sub_slice packet (pos + 1) (pos + 1 + unat len)"
    from lab have mask: "len AND 0xc0 = 0" "len AND 0xc0 \<noteq> 0xc0" "len \<noteq> 0"
      by (auto simp: len_label_iff len_pointer_iff)
    with "1.prems"(1) len lab have fits: "pos + 1 + unat len \<le> length packet"
        "total_len + (1 + unat len) \<le> 255"
      and rest: "parse_loop False packet offset (acc @ [?l]) (cnt + 1) (pos + 1 + unat len)
        consumed followed (total_len + (1 + unat len))
        (lc \<and> list_all (\<lambda>b. to_ascii_lowercase b = b) ?l) = Inr (n, c, lc')"
      by (subst (asm) parse_loop.simps, auto simp: store_label_def not_less split: option.splits if_splits)+
    have start: "consumed \<noteq> None \<or> offset \<le> pos + 1 + unat len" using "1.prems"(4) by auto
    have "\<exists>ls hops span. name_at packet (pos + 1 + unat len) ls hops span \<and>
      n = DomainName ((acc @ [?l]) @ ls) \<and> followed + hops \<le> 128 \<and>
      total_len + (1 + unat len) + (name_wire_len ls - 1) \<le> 255 \<and>
      c = (case consumed of None \<Rightarrow> pos + 1 + unat len + span - offset | Some c \<Rightarrow> c)"
      using "1.hyps"(2) [OF len mask(2,1,3)] lab fits rest "1.prems"(3) start
      by (simp add: store_label_def not_less)
    then obtain ls hops span where IH: "name_at packet (pos + 1 + unat len) ls hops span"
        "n = DomainName (acc @ ?l # ls)" "followed + hops \<le> 128"
        "total_len + (1 + unat len) + (name_wire_len ls - 1) \<le> 255"
        "c = (case consumed of None \<Rightarrow> pos + 1 + unat len + span - offset | Some c \<Rightarrow> c)" by auto
    have "name_wire_len (?l # ls) = 1 + unat len + name_wire_len ls"
      using fits(1) by (simp add: name_wire_len_def length_sub_slice)
    moreover have "0 < name_wire_len ls" by (simp add: name_wire_len_def)
    ultimately have "total_len + (name_wire_len (?l # ls) - 1) \<le> 255" using IH(4) by simp
    with name_at.label [OF len lab fits(1) IH(1)] IH show ?thesis
      by (intro exI conjI) (assumption | simp split: option.splits)+
  next
    case bad
    with "1.prems"(1) len show ?thesis
      by (subst (asm) parse_loop.simps) (auto simp: len_label_iff len_pointer_iff)
  qed
qed

lemma name_at_span_pos: "name_at packet pos ls hops span \<Longrightarrow> 0 < span"
  by (induction rule: name_at.induct) auto

lemma name_at_bound: "name_at packet pos ls hops span \<Longrightarrow> pos + span \<le> length packet"
  by (induction rule: name_at.induct) (auto simp: get_at_Some_iff)

lemma name_at_valid_labels: "name_at packet pos ls hops span \<Longrightarrow> list_all valid_label ls"
  proof (induction rule: name_at.induct)
  case (label pos len ls hops span)
  then have "length (sub_slice packet (pos + 1) (pos + 1 + unat len)) = unat len"
    by (simp add: length_sub_slice)
  with label show ?case by (auto simp: valid_label_def)
qed simp_all

lemma name_at_deterministic:
  "name_at packet pos ls hops span \<Longrightarrow> name_at packet pos ls' hops' span' \<Longrightarrow>
     ls = ls' \<and> hops = hops' \<and> span = span'"
proof (induction arbitrary: ls' hops' span' rule: name_at.induct)
  case (end_of_name pos)
  from end_of_name(2,1) show ?case by cases auto
next
  case (label pos len ls hops span)
  from label.prems label.hyps show ?case by cases (auto dest: label.IH [simplified])
next
  case (pointer pos len nxt ls hops span)
  from pointer.prems pointer.hyps show ?case by cases (auto dest: pointer.IH [simplified])
qed

lemma parse_name_iff:
  "parse_name packet offset = Inr (n, consumed) \<longleftrightarrow>
     (\<exists>hops. name_at packet offset (labels n) hops consumed \<and> hops \<le> 128 \<and> wire_len n \<le> 255)"
proof
  assume "parse_name packet offset = Inr (n, consumed)"
  then obtain lc where
    "parse_loop False packet offset [] 0 offset None 0 1 True = Inr (n, consumed, lc)"
    by (auto simp: parse_name_def parse_with_ascii_lowercase_def parse_with_reusable_labels_def
        split: sum.splits)
  from parse_loop_sound [OF this]
  show "\<exists>hops. name_at packet offset (labels n) hops consumed \<and> hops \<le> 128 \<and> wire_len n \<le> 255"
    by (auto simp: wire_len_def name_wire_len_def)
next
  assume "\<exists>hops. name_at packet offset (labels n) hops consumed \<and> hops \<le> 128 \<and> wire_len n \<le> 255"
  then obtain hops where "name_at packet offset (labels n) hops consumed" "hops \<le> 128" "wire_len n \<le> 255"
    by blast
  with parse_loop_complete [of packet offset "labels n" hops consumed 0 1 None offset "[]" 0 True]
  show "parse_name packet offset = Inr (n, consumed)"
    by (simp add: parse_name_def parse_with_ascii_lowercase_def parse_with_reusable_labels_def
        wire_len_def name_wire_len_def)
qed

lemma parse_loop_reuse:
  assumes "cnt = length acc" "cnt \<le> length ls" "take cnt ls = acc"
  shows "parse_loop True packet offset ls cnt pos consumed followed total_len lc =
    parse_loop False packet offset acc cnt pos consumed followed total_len lc"
  using assms
proof (induction True packet offset ls cnt pos consumed followed total_len lc
    arbitrary: acc rule: parse_loop.induct)
  case (1 packet offset ls cnt pos consumed followed total_len lc)
  note unf = parse_loop.simps [of True packet offset ls cnt pos consumed followed total_len lc]
    parse_loop.simps [of False packet offset acc cnt pos consumed followed total_len lc]
  have store: "cnt + 1 = length (store_label False acc cnt l)"
      "cnt + 1 \<le> length (store_label True ls cnt l)"
      "take (cnt + 1) (store_label True ls cnt l) = store_label False acc cnt l" for l
    using "1.prems" by (auto simp: store_label_def take_Suc_conv_app_nth)
  show ?case
  proof (cases "get_at packet pos")
    case None
    then show ?thesis unfolding unf by simp
  next
    case (Some len)
    note step = "1.hyps" [OF Some]
    show ?thesis
    proof (cases "len AND 0xc0 = 0xc0")
      case True
      then show ?thesis
        unfolding unf using Some step(1) "1.prems" by (simp add: not_le split: option.split)
    next
      case False
      then show ?thesis
        unfolding unf using Some step(2) [OF False _ _ _ _ store] "1.prems"
        by (simp add: not_le not_less)
    qed
  qed
qed

lemma lower_match_step:
  "map lower_bytes (acc @ [l]) = take (length (acc @ [l])) (map lower_bytes es) \<longleftrightarrow>
     map lower_bytes acc = take (length acc) (map lower_bytes es) \<and>
     (case get_at es (length acc) of None \<Rightarrow> False | Some e \<Rightarrow> eq_ignore_ascii_case e l)"
proof (cases "length acc < length es")
  case True
  then show ?thesis
    by (auto simp: get_at_def take_Suc_conv_app_nth eq_ignore_ascii_case_iff)
next
  case False
  then have "map lower_bytes (acc @ [l]) \<noteq> take (length (acc @ [l])) (map lower_bytes es)"
    by (auto dest: arg_cong [where f = length])
  with False show ?thesis by (simp add: get_at_def)
qed

lemma lower_match_end:
  "map lower_bytes acc = take (length acc) (map lower_bytes es) \<and> length acc = length es \<longleftrightarrow>
     map lower_bytes acc = map lower_bytes es"
  by (metis length_map order_refl take_all)

lemma scan_loop_parse_loop:
  assumes "cnt = length acc"
    and "matches \<longleftrightarrow> (case expected of None \<Rightarrow> True
        | Some e \<Rightarrow> map lower_bytes acc = take (length acc) (map lower_bytes (labels e)))"
  shows "scan_loop packet offset expected pos consumed followed total_len cnt matches =
    (case parse_loop False packet offset acc cnt pos consumed followed total_len lc of
       Inl e \<Rightarrow> Inl e
     | Inr (n, c, _) \<Rightarrow> Inr \<lparr> scan_consumed = c, scan_label_count = length (labels n),
         matches_expected = (case expected of None \<Rightarrow> True
            | Some e \<Rightarrow> to_ascii_lowercased n = to_ascii_lowercased e) \<rparr>)"
  using assms
proof (induction packet offset expected pos consumed followed total_len cnt matches
    arbitrary: acc lc rule: scan_loop.induct)
  case (1 packet offset expected pos consumed followed total_len cnt matches)
  note unf = scan_loop.simps [of packet offset expected pos consumed followed total_len cnt matches]
    parse_loop.simps [of False packet offset acc cnt pos consumed followed total_len lc]
  show ?case
  proof (cases "get_at packet pos")
    case None
    then show ?thesis unfolding unf by simp
  next
    case (Some len)
    note step = "1.IH" [OF Some]
    let ?l = "sub_slice packet (pos + 1) (pos + 1 + unat len)"
    let ?m = "case expected of None \<Rightarrow> matches | Some e \<Rightarrow> matches \<and>
      (case get_at (labels e) cnt of None \<Rightarrow> False | Some l \<Rightarrow> eq_ignore_ascii_case l ?l)"
    have m: "?m \<longleftrightarrow> (case expected of None \<Rightarrow> True
        | Some e \<Rightarrow> map lower_bytes (acc @ [?l]) = take (length (acc @ [?l])) (map lower_bytes (labels e)))"
    proof (cases expected)
      case None
      with "1.prems" show ?thesis by simp
    next
      case (Some e)
      with "1.prems" show ?thesis using lower_match_step [of acc ?l "labels e"]
        by (simp only: option.case)
    qed
    show ?thesis
    proof (cases "len AND 0xc0 = 0xc0")
      case True
      then show ?thesis
        unfolding unf using Some step(1) "1.prems" by (simp add: not_le split: option.split)
    next
      case False
      then show ?thesis
        unfolding unf using Some step(2) [OF False _ _ _ _ _ m] "1.prems"
        by (simp add: not_le not_less store_label_def to_ascii_lowercased_def lower_match_end
            cong: conj_cong split: option.split)
    qed
  qed
qed

section \<open>Encoding\<close>

lemma name_wire_len_Nil [simp]: "name_wire_len [] = 1"
  by (simp add: name_wire_len_def)

lemma name_wire_len_Cons [simp]: "name_wire_len (l # ls) = 1 + length l + name_wire_len ls"
  by (simp add: name_wire_len_def)

lemma name_wire_len_append: "name_wire_len (xs @ ys) = name_wire_len xs + name_wire_len ys - 1"
  by (simp add: name_wire_len_def)

lemma name_wire_len_pos [simp]: "0 < name_wire_len ls"
  by (simp add: name_wire_len_def)

lemma name_wire_len_lower [simp]: "name_wire_len (map lower_bytes ls) = name_wire_len ls"
  by (simp add: name_wire_len_def comp_def)

lemma encode_name_labels_Nil [simp]: "encode_name_labels [] = [0]"
  by (simp add: encode_name_labels_def)

lemma encode_name_labels_Cons [simp]:
  "encode_name_labels (l # ls) = of_nat (length l) # l @ encode_name_labels ls"
  by (simp add: encode_name_labels_def encode_label_def)

lemma length_encode_name_labels [simp, wire_len]: "length (encode_name_labels ls) = name_wire_len ls"
  by (induction ls) simp_all

lemma length_to_wire [simp, wire_len]: "length (to_wire n) = wire_len n"
  by (simp add: to_wire_def wire_len_def)

lemma valid_label_lower [simp]: "valid_label (lower_bytes l) = valid_label l"
  by (simp add: valid_label_def)

lemma name_at_extend: "name_at packet pos ls hops span \<Longrightarrow> name_at (packet @ ext) pos ls hops span"
proof (induction rule: name_at.induct)
  case (end_of_name pos)
  then show ?case by (intro name_at.end_of_name get_at_extend)
next
  case (pointer pos len nxt ls hops span)
  then show ?case by (intro name_at.pointer get_at_extend)
next
  case (label pos len ls hops span)
  then have "name_at (packet @ ext) pos
      (sub_slice (packet @ ext) (pos + 1) (pos + 1 + unat len) # ls) hops (1 + unat len + span)"
    by (intro name_at.label) (auto intro: get_at_extend)
  with label show ?case by (simp add: sub_slice_extend)
qed

lemma name_at_encode:
  "list_all valid_label ls \<Longrightarrow>
     name_at (pre @ encode_name_labels ls @ post) (length pre) ls 0 (name_wire_len ls)"
proof (induction ls arbitrary: pre)
  case Nil
  have "name_at (pre @ encode_name_labels [] @ post) (length pre) [] 0 1"
    by (rule name_at.end_of_name) simp
  then show ?case by simp
next
  case (Cons l ls)
  let ?len = "of_nat (length l) :: u8"
  let ?packet = "pre @ encode_name_labels (l # ls) @ post"
  from Cons.prems have l: "0 < length l" "length l \<le> 63" and ls: "list_all valid_label ls"
    by (simp_all add: valid_label_def [of l])
  then have len: "unat ?len = length l" by (simp add: unat_of_nat_u8)
  have at: "get_at ?packet (length pre) = Some ?len" by simp
  have rest: "name_at ?packet (length pre + 1 + unat ?len) ls 0 (name_wire_len ls)"
    using Cons.IH [OF ls, of "pre @ ?len # l"] len by simp
  have "sub_slice ?packet (length pre + 1) (length pre + 1 + unat ?len) = l"
    using sub_slice_append_mid [of "pre @ [?len]" "length pre + 1" _ l "encode_name_labels ls @ post"] len
    by simp
  with name_at.label [OF at _ _ _ rest] l len show ?case by simp
qed

lemma parse_to_wire:
  assumes "valid_name n"
  shows "parse_name (pre @ to_wire n @ post) (length pre) = Inr (n, wire_len n)"
  using assms name_at_encode [of "labels n" pre post]
  by (auto simp: parse_name_iff valid_name_def to_wire_def wire_len_def)

lemma parse_name_valid:
  "parse_name packet offset = Inr (n, c) \<Longrightarrow> valid_name n \<and> 0 < c \<and> offset + c \<le> length packet"
  by (auto simp: parse_name_iff valid_name_def dest: name_at_valid_labels name_at_span_pos name_at_bound)

lemma parse_reuse_eq:
  "parse_with_reusable_labels True packet offset recycled = parse_with_ascii_lowercase packet offset"
  by (simp add: parse_with_reusable_labels_def parse_with_ascii_lowercase_def parse_loop_reuse)

lemma scan_eq_parse:
  "scan_compressed_name packet offset expected =
    (case parse_name packet offset of
       Inl e \<Rightarrow> Inl e
     | Inr (n, c) \<Rightarrow> Inr \<lparr> scan_consumed = c, scan_label_count = label_count n,
         matches_expected = (case expected of None \<Rightarrow> True
            | Some e \<Rightarrow> to_ascii_lowercased n = to_ascii_lowercased e) \<rparr>)"
  unfolding scan_compressed_name_def parse_name_def parse_with_ascii_lowercase_def
    parse_with_reusable_labels_def
  by (subst scan_loop_parse_loop [where acc = "[]" and lc = True])
    (auto simp: label_count_def split: option.splits sum.splits)

section \<open>Uncompressed wire names\<close>

lemma uncompressed_loop_encode:
  "list_all valid_label ls \<Longrightarrow> total_len + (name_wire_len ls - 1) \<le> 255 \<Longrightarrow>
     uncompressed_loop (pre @ encode_name_labels ls) acc (length pre) total_len = Inr (DomainName (acc @ ls))"
proof (induction ls arbitrary: pre acc total_len)
  case Nil
  then show ?case by (subst uncompressed_loop.simps) simp
next
  case (Cons l ls)
  let ?len = "of_nat (length l) :: u8"
  from Cons.prems have l: "0 < length l" "length l \<le> 63" and ls: "list_all valid_label ls"
    by (simp_all add: valid_label_def [of l])
  then have len: "unat ?len = length l" by (simp add: unat_of_nat_u8)
  from l len have nz: "?len \<noteq> 0" "?len AND 0xc0 = 0" 
    by (auto simp: len_label_iff simp flip: unat_gt_0)
  have "sub_slice (pre @ ?len # l @ encode_name_labels ls) (Suc (length pre)) (Suc (length pre + length l)) = l"
    using sub_slice_append_mid [of "pre @ [?len]" "Suc (length pre)" _ l "encode_name_labels ls"]
    by simp
  moreover have "\<not> 254 < total_len + length l" "total_len + length l + (name_wire_len ls - Suc 0) \<le> 254"
    using Cons.prems(2) gr0_implies_Suc [OF name_wire_len_pos [of ls]] by auto
  ultimately
  show ?case using Cons.IH [OF ls, of "total_len + (1 + length l)" "pre @ ?len # l" "acc @ [l]"] l len nz
    by (subst uncompressed_loop.simps) simp
qed

lemma uncompressed_loop_sound:
  "uncompressed_loop wire acc pos total_len = Inr n \<Longrightarrow> total_len \<le> 255 \<Longrightarrow>
     \<exists>ls. n = DomainName (acc @ ls) \<and> drop pos wire = encode_name_labels ls \<and>
       list_all valid_label ls \<and> total_len + (name_wire_len ls - 1) \<le> 255"
proof (induction wire acc pos total_len rule: uncompressed_loop.induct)
  case (1 wire acc pos total_len)
  from "1.prems"(1) obtain len where len: "get_at wire pos = Some len"
    by (subst (asm) uncompressed_loop.simps) (auto split: option.splits)
  then have hd: "drop pos wire = len # drop (pos + 1) wire"
    by (auto simp: get_at_Some_iff Cons_nth_drop_Suc)
  show ?case
  proof (cases "len = 0")
    case True
    with "1.prems" len hd show ?thesis
      by (subst (asm) uncompressed_loop.simps) (auto split: if_splits intro!: exI [of _ "[]"])
  next
    case False
    let ?l = "sub_slice wire (pos + 1) (pos + 1 + unat len)"
    from False "1.prems"(1) len have fits: "len AND 0xc0 = 0" "unat len \<le> 63"
        "pos + 1 + unat len \<le> length wire" "total_len + (1 + unat len) \<le> 255"
      and rest: "uncompressed_loop wire (acc @ [?l]) (pos + 1 + unat len) (total_len + (1 + unat len)) = Inr n"
      by (subst (asm) uncompressed_loop.simps, auto simp: not_less split: if_splits)+
    have "\<exists>ls. n = DomainName ((acc @ [?l]) @ ls) \<and> drop (pos + 1 + unat len) wire = encode_name_labels ls \<and>
       list_all valid_label ls \<and> total_len + (1 + unat len) + (name_wire_len ls - 1) \<le> 255"
      using "1.IH" [OF len False _ _ _ rest] fits by simp
    then obtain ls where ls: "n = DomainName (acc @ ?l # ls)"
      "drop (pos + 1 + unat len) wire = encode_name_labels ls" "list_all valid_label ls"
      "total_len + (1 + unat len) + (name_wire_len ls - 1) \<le> 255" by auto
    have l: "length ?l = unat len" using fits by (simp add: length_sub_slice)
    have "drop (pos + 1) wire = ?l @ drop (pos + 1 + unat len) wire"
      by (simp add: sub_slice_def) (metis add.commute add_Suc_right append_take_drop_id drop_drop)
    with hd ls(2) l have "drop pos wire = encode_name_labels (?l # ls)" by simp
    moreover have "valid_label ?l" using False l fits(2)
      by (auto simp: valid_label_def simp flip: length_greater_0_conv unat_gt_0)
    moreover have "total_len + (name_wire_len (?l # ls) - 1) \<le> 255"
      using ls(4) l name_wire_len_pos [of ls] by simp
    ultimately show ?thesis using ls by (intro exI [of _ "?l # ls"]) simp
  qed
qed

lemma from_uncompressed_wire_iff:
  "from_uncompressed_wire wire = Inr n \<longleftrightarrow> valid_name n \<and> wire = to_wire n"
proof
  assume "from_uncompressed_wire wire = Inr n"
  from uncompressed_loop_sound [OF this [unfolded from_uncompressed_wire_def]]
  show "valid_name n \<and> wire = to_wire n"
    by (auto simp: valid_name_def to_wire_def wire_len_def)
next
  assume "valid_name n \<and> wire = to_wire n"
  then show "from_uncompressed_wire wire = Inr n"
    using uncompressed_loop_encode [of "labels n" 1 "[]" "[]"]
    by (auto simp: from_uncompressed_wire_def valid_name_def to_wire_def wire_len_def)
qed


section \<open>Canonical keys\<close>

lemma decimal_digits: "(n :: nat) = 100 * (n div 100) + 10 * (n div 10 mod 10) + n mod 10"
proof -
  have "n div 100 = n div 10 div 10" by (simp flip: div_mult2_eq)
  then have "n div 10 = 10 * (n div 100) + n div 10 mod 10" by simp
  moreover have "n = 10 * (n div 10) + n mod 10" by simp
  ultimately show ?thesis by linarith
qed

lemma escaped_byte_inj:
  assumes "escaped_byte a = escaped_byte b"
  shows "a = b"
proof -
  from assms have "a div 100 = b div 100" "a div 10 mod 10 = b div 10 mod 10" "a mod 10 = b mod 10"
    by (simp_all only: escaped_byte_def list.inject add_left_cancel)
  then have "unat (a div 100) = unat (b div 100)" "unat (a div 10 mod 10) = unat (b div 10 mod 10)"
    "unat (a mod 10) = unat (b mod 10)" by simp_all
  then have "unat a div 100 = unat b div 100" "unat a div 10 mod 10 = unat b div 10 mod 10"
    "unat a mod 10 = unat b mod 10" by (simp_all add: unat_div_distrib unat_mod_distrib)
  then have "unat a = unat b" using decimal_digits [of "unat a"] decimal_digits [of "unat b"] by metis
  then show ?thesis by (rule word_unat_eqI)
qed

lemma key_byte_prefix_free: "key_byte a @ xs = key_byte b @ ys \<Longrightarrow> a = b \<and> xs = ys"
  using escaped_byte_inj [of a b]
  by (auto simp: key_byte_def escaped_byte_def split: if_splits)

lemma key_byte_not_dot: "key_byte a @ xs \<noteq> 0x2e # ys"
  by (auto simp: key_byte_def escaped_byte_def)

lemma label_text_inj:
  "concat (map (\<lambda>b. key_byte (to_ascii_lowercase b)) l) @ 0x2e # r =
     concat (map (\<lambda>b. key_byte (to_ascii_lowercase b)) m) @ 0x2e # r' \<Longrightarrow>
   lower_bytes l = lower_bytes m \<and> r = r'"
proof (induction l arbitrary: m)
  case Nil
  then show ?case
    by (cases m) (simp_all add: key_byte_not_dot [THEN not_sym])
next
  case (Cons b l)
  show ?case
  proof (cases m)
    case Nil
    with Cons.prems show ?thesis by (simp add: key_byte_not_dot)
  next
    case (Cons c m')
    with Cons.prems have "to_ascii_lowercase b = to_ascii_lowercase c \<and>
       concat (map (\<lambda>b. key_byte (to_ascii_lowercase b)) l) @ 0x2e # r =
       concat (map (\<lambda>b. key_byte (to_ascii_lowercase b)) m') @ 0x2e # r'"
      by (intro key_byte_prefix_free) simp
    with Cons.IH [of m'] Cons show ?thesis by (simp add: lower_bytes_def)
  qed
qed

definition labels_text :: "bytes list \<Rightarrow> bytes" where
  "labels_text ls =
     concat (map (\<lambda>l. concat (map (\<lambda>b. key_byte (to_ascii_lowercase b)) l) @ [0x2e]) ls)"

lemma labels_text_inj: "labels_text xs = labels_text ys \<Longrightarrow> map lower_bytes xs = map lower_bytes ys"
proof (induction xs arbitrary: ys)
  case Nil
  then show ?case by (cases ys) (auto simp: labels_text_def)
next
  case (Cons x xs)
  then obtain y ys' where ys: "ys = y # ys'" by (cases ys) (auto simp: labels_text_def)
  with Cons.prems have "lower_bytes x = lower_bytes y \<and> labels_text xs = labels_text ys'"
    by (intro label_text_inj) (simp add: labels_text_def)
  with Cons.IH ys show ?case by simp
qed

lemma labels_text_dot:
  assumes "list_all valid_label ls"
  shows "labels_text ls \<noteq> [0x2e]"
proof (cases ls)
  case Nil
  then show ?thesis by (simp add: labels_text_def)
next
  case (Cons l ls')
  with assms obtain b l' where "l = b # l'" by (cases l) (auto simp: valid_label_def)
  with Cons show ?thesis by (simp add: labels_text_def key_byte_not_dot)
qed

lemma labels_text_lower: "labels_text (map lower_bytes ls) = labels_text ls"
  by (simp add: labels_text_def lower_bytes_def comp_def)

lemma canonical_key_labels_text:
  "canonical_key n = (if labels_text (labels n) = [] then [0x2e] else labels_text (labels n))"
  by (simp add: canonical_key_def canonical_name_key_from_labels_def labels_text_def Let_def)

lemma canonical_key_eq_iff:
  assumes "valid_name a" "valid_name b"
  shows "canonical_key a = canonical_key b \<longleftrightarrow> to_ascii_lowercased a = to_ascii_lowercased b"
proof
  assume "canonical_key a = canonical_key b"
  moreover from assms have "labels_text (labels a) \<noteq> [0x2e]" "labels_text (labels b) \<noteq> [0x2e]"
    by (simp_all add: valid_name_def labels_text_dot)
  ultimately have "labels_text (labels a) = labels_text (labels b)"
    unfolding canonical_key_labels_text by (metis (full_types))
  then show "to_ascii_lowercased a = to_ascii_lowercased b"
    unfolding to_ascii_lowercased_def by (intro arg_cong [of _ _ DomainName] labels_text_inj)
next
  assume "to_ascii_lowercased a = to_ascii_lowercased b"
  then have "labels_text (map lower_bytes (labels a)) = labels_text (map lower_bytes (labels b))"
    by (simp add: to_ascii_lowercased_def)
  then have "labels_text (labels a) = labels_text (labels b)" by (simp only: labels_text_lower)
  then show "canonical_key a = canonical_key b" by (simp add: canonical_key_labels_text)
qed

section \<open>Subdomains and suffix replacement\<close>

lemma labels_match_iff:
  "length xs = length ys \<Longrightarrow> labels_match xs ys \<longleftrightarrow> map lower_bytes xs = map lower_bytes ys"
  by (induction xs ys rule: list_induct2) (auto simp: labels_match_def eq_ignore_ascii_case_iff)

lemma matches_ascii_labels_iff:
  "matches_ascii_labels_ignore_case n ls \<longleftrightarrow> map lower_bytes (labels n) = map lower_bytes ls"
  using labels_match_iff [of "labels n" ls] map_eq_imp_length_eq [of lower_bytes "labels n" lower_bytes ls]
  by (auto simp: matches_ascii_labels_ignore_case_def)

lemma is_equal_or_subdomain_of_iff:
  "is_equal_or_subdomain_of n zone \<longleftrightarrow>
     (\<exists>p s. labels n = p @ s \<and> map lower_bytes s = map lower_bytes (labels zone))"
proof
  assume "is_equal_or_subdomain_of n zone"
  then show "\<exists>p s. labels n = p @ s \<and> map lower_bytes s = map lower_bytes (labels zone)"
    by (intro exI [of _ "take (length (labels n) - length (labels zone)) (labels n)"]
        exI [of _ "drop (length (labels n) - length (labels zone)) (labels n)"])
      (auto simp: is_equal_or_subdomain_of_def labels_match_iff split: if_splits)
next
  assume "\<exists>p s. labels n = p @ s \<and> map lower_bytes s = map lower_bytes (labels zone)"
  then obtain p s where "labels n = p @ s" "map lower_bytes s = map lower_bytes (labels zone)"
    by blast
  moreover from this have "length s = length (labels zone)" by (auto dest: map_eq_imp_length_eq)
  ultimately show "is_equal_or_subdomain_of n zone"
    by (simp add: is_equal_or_subdomain_of_def labels_match_iff)
qed

lemma is_equal_or_subdomain_of_refl: "is_equal_or_subdomain_of n n"
  by (auto simp: is_equal_or_subdomain_of_iff)

lemma is_equal_or_subdomain_of_trans:
  assumes "is_equal_or_subdomain_of a b" "is_equal_or_subdomain_of b c"
  shows "is_equal_or_subdomain_of a c"
proof -
  from assms obtain p s q t where *: "labels a = p @ s" "map lower_bytes s = map lower_bytes (labels b)"
    "labels b = q @ t" "map lower_bytes t = map lower_bytes (labels c)"
    by (auto simp: is_equal_or_subdomain_of_iff)
  then have "map lower_bytes s = map lower_bytes q @ map lower_bytes t" by simp
  then obtain q' t' where "s = q' @ t'" "map lower_bytes t' = map lower_bytes t"
    by (auto simp: map_eq_append_conv)
  with * have "labels a = (p @ q') @ t'" "map lower_bytes t' = map lower_bytes (labels c)" by simp_all
  then show ?thesis unfolding is_equal_or_subdomain_of_iff by blast
qed

lemma is_equal_or_subdomain_of_antisym:
  assumes "is_equal_or_subdomain_of a b" "is_equal_or_subdomain_of b a"
  shows "to_ascii_lowercased a = to_ascii_lowercased b"
proof -
  from assms obtain p s q t where *: "labels a = p @ s" "map lower_bytes s = map lower_bytes (labels b)"
    "labels b = q @ t" "map lower_bytes t = map lower_bytes (labels a)"
    by (auto simp: is_equal_or_subdomain_of_iff)
  then have "length s = length (labels b)" "length t = length (labels a)"
    by (auto dest: map_eq_imp_length_eq)
  with * have "p = []" by auto
  with * show ?thesis by (simp add: to_ascii_lowercased_def)
qed

lemma with_replaced_suffix_iff:
  "with_replaced_suffix n suffix replacement = Some m \<longleftrightarrow>
     (\<exists>p s. labels n = p @ s \<and> map lower_bytes s = map lower_bytes (labels suffix) \<and>
        m = DomainName (p @ labels replacement) \<and> wire_len m \<le> 255)"
proof (cases "is_equal_or_subdomain_of n suffix")
  case True
  then obtain p s where ps: "labels n = p @ s" "map lower_bytes s = map lower_bytes (labels suffix)"
    by (auto simp: is_equal_or_subdomain_of_iff)
  have unique: "p' = p" if "labels n = p' @ s'" "map lower_bytes s' = map lower_bytes (labels suffix)"
    for p' s' using that ps by (metis append_eq_append_conv map_eq_imp_length_eq)
  have "length (labels n) - length (labels suffix) = length p"
    using ps by (auto dest: map_eq_imp_length_eq)
  then have "with_replaced_suffix n suffix replacement =
      (if 255 < name_wire_len (p @ labels replacement) then None
       else Some (DomainName (p @ labels replacement)))"
    using True ps by (simp add: with_replaced_suffix_def Let_def)
  with ps unique show ?thesis by (fastforce simp: wire_len_def split: if_splits)
next
  case False
  then show ?thesis by (auto simp: with_replaced_suffix_def is_equal_or_subdomain_of_iff)
qed

lemma wire_labels_match_encode:
  "length ls = length ss \<Longrightarrow> list_all valid_label ss \<Longrightarrow> total_len + (name_wire_len ss - 1) \<le> 255 \<Longrightarrow>
     wire_labels_match (encode_name_labels ss) ls total_len = Some (map lower_bytes ls = map lower_bytes ss)"
proof (induction ls ss arbitrary: total_len rule: list_induct2)
  case Nil
  then show ?case by simp
next
  case (Cons l ls s ss)
  let ?len = "of_nat (length s) :: u8"
  from Cons.prems have s: "0 < length s" "length s \<le> 63" and ss: "list_all valid_label ss"
    by (simp_all add: valid_label_def [of s])
  then have len: "unat ?len = length s" by (simp add: unat_of_nat_u8)
  with s have "?len AND 0xc0 = 0" by (simp add: len_label_iff)
  moreover have "\<not> 254 < total_len + length s" "total_len + length s + (name_wire_len ss - Suc 0) \<le> 254"
    using Cons.prems(2) gr0_implies_Suc [OF name_wire_len_pos [of ss]] by auto
  ultimately have step: "length l = length s \<Longrightarrow> ?case"
    using Cons.IH [OF ss, of "total_len + (1 + length s)"] s len
    by (simp add: eq_ignore_ascii_case_iff)
  have "lower_bytes l \<noteq> lower_bytes s" if "length l \<noteq> length s"
    using that by (metis length_lower_bytes)
  then show ?case using step len by (cases "length l = length s") auto
qed

lemma with_replaced_wire_suffix_eq:
  assumes "valid_name suffix"
  shows "with_replaced_wire_suffix_and_stored_wire_parts_counted n (to_wire suffix)
           (label_count suffix) replacement (to_wire replacement) =
         map_option (\<lambda>m. (m, to_wire m, label_count n - label_count suffix))
           (with_replaced_suffix n suffix replacement)"
proof (cases "length (labels n) < length (labels suffix)")
  case True
  then show ?thesis
    by (simp add: with_replaced_wire_suffix_and_stored_wire_parts_counted_def
        with_replaced_wire_suffix_wire_counted_def with_replaced_suffix_def
        is_equal_or_subdomain_of_def label_count_def)
next
  case False
  let ?k = "length (labels n) - length (labels suffix)"
  have wire: "concat (map encode_label (take ?k (labels n))) @ to_wire replacement =
      encode_name_labels (take ?k (labels n) @ labels replacement)"
    by (simp add: to_wire_def encode_name_labels_def)
  have "wire_labels_match_name_suffix (to_wire suffix) (drop ?k (labels n)) =
      Some (is_equal_or_subdomain_of n suffix)"
    using assms False wire_labels_match_encode [of "drop ?k (labels n)" "labels suffix" 1]
    by (simp add: wire_labels_match_name_suffix_def to_wire_def is_equal_or_subdomain_of_def
        valid_name_def wire_len_def labels_match_iff)
  with False wire show ?thesis
    by (simp add: with_replaced_wire_suffix_and_stored_wire_parts_counted_def
        with_replaced_wire_suffix_wire_counted_def with_replaced_suffix_def label_count_def Let_def)
      (simp add: to_wire_def)
qed

section \<open>Properties\<close>

text \<open>
  C1: the name decoder is exact.  It accepts at an offset precisely the names that the wire
  relation \<open>name_at\<close> gives there with at most 128 backward pointers and at most 255 octets
  of uncompressed wire form, returns their labels and the number of octets the name occupies
  at that offset.  In particular it never loops on hostile pointer chains.
\<close>

theorem name_decoder_correct:
  "parse_name packet offset = Inr (n, consumed) \<longleftrightarrow>
     (\<exists>hops. name_at packet offset (labels n) hops consumed \<and> hops \<le> 128 \<and> wire_len n \<le> 255)"
  by (rule parse_name_iff)

text \<open>
  C2: encode then decode.  The wire form of a valid name, anywhere inside a packet, decodes
  to that name, and decoding consumes exactly its wire length.
\<close>

theorem name_wire_round_trip:
  assumes "valid_name n"
  shows "parse_name (pre @ to_wire n @ post) (length pre) = Inr (n, wire_len n)"
  using assms by (rule parse_to_wire)

theorem name_wire_round_trip_witness:
  "valid_name (DomainName [[0x77, 0x57], [0x61]]) \<and>
   parse_name ([7, 7] @ to_wire (DomainName [[0x77, 0x57], [0x61]]) @ [9]) (length [7, 7 :: u8]) =
     Inr (DomainName [[0x77, 0x57], [0x61]], 6)"
  using name_wire_round_trip [of "DomainName [[0x77, 0x57], [0x61]]" "[7, 7]" "[9]"]
  by (simp add: valid_name_def valid_label_def wire_len_def)

text \<open>
  C3: the allocation-free scanner agrees with the decoder on every packet and offset: the
  same error, the same consumed octets and label count, and its verdict on the expected
  name is equality up to ASCII case.
\<close>

theorem name_scan_refines_decoder:
  "scan_compressed_name packet offset expected =
    (case parse_name packet offset of
       Inl e \<Rightarrow> Inl e
     | Inr (n, c) \<Rightarrow> Inr \<lparr> scan_consumed = c, scan_label_count = label_count n,
         matches_expected = (case expected of None \<Rightarrow> True
            | Some e \<Rightarrow> to_ascii_lowercased n = to_ascii_lowercased e) \<rparr>)"
  by (rule scan_eq_parse)

text \<open>
  C4: decoding into a recycled label vector gives the same result as decoding into a fresh
  one, whatever the recycled vector held: no label of an earlier query leaks into a name.
\<close>

theorem name_reuse_no_leak:
  "parse_with_reusable_labels True packet offset recycled = parse_with_ascii_lowercase packet offset"
  by (rule parse_reuse_eq)

text \<open>
  C5: the uncompressed-wire reader accepts exactly the encodings of valid names, and returns
  the encoded name.
\<close>

theorem uncompressed_wire_exact:
  "from_uncompressed_wire wire = Inr n \<longleftrightarrow> valid_name n \<and> wire = to_wire n"
  by (rule from_uncompressed_wire_iff)

text \<open>
  C6: canonical keys identify valid names up to ASCII case and nothing else: the escaping of
  dots, backslashes and unprintable octets loses no information.
\<close>

theorem canonical_key_faithful:
  assumes "valid_name a" "valid_name b"
  shows "canonical_key a = canonical_key b \<longleftrightarrow> to_ascii_lowercased a = to_ascii_lowercased b"
  using assms by (rule canonical_key_eq_iff)

theorem canonical_key_faithful_witness:
  "canonical_key (DomainName [[0x41, 0x2e]]) = canonical_key (DomainName [[0x61, 0x2e]]) \<and>
   canonical_key (DomainName [[0x61, 0x2e]]) \<noteq> canonical_key (DomainName [[0x61], [0x2e]])"
  using canonical_key_faithful [of "DomainName [[0x41, 0x2e]]" "DomainName [[0x61, 0x2e]]"]
    canonical_key_faithful [of "DomainName [[0x61, 0x2e]]" "DomainName [[0x61], [0x2e]]"]
  by (simp add: valid_name_def valid_label_def wire_len_def to_ascii_lowercased_def lower_bytes_def
      to_ascii_lowercase_def is_ascii_uppercase_def)

text \<open>
  C7: DNAME substitution on stored wire names (the serving path) is DNAME substitution on
  decoded names: same refusals (owner not below the suffix, result over 255 octets), same
  result name, and the returned wire form is that name's encoding.
\<close>

theorem dname_wire_substitution_refines:
  assumes "valid_name suffix"
  shows "with_replaced_wire_suffix_and_stored_wire_parts_counted n (to_wire suffix)
           (label_count suffix) replacement (to_wire replacement) =
         map_option (\<lambda>m. (m, to_wire m, label_count n - label_count suffix))
           (with_replaced_suffix n suffix replacement)"
  using assms by (rule with_replaced_wire_suffix_eq)

theorem dname_wire_substitution_refines_witness:
  "with_replaced_wire_suffix_and_stored_wire_parts_counted (DomainName [[0x78], [0x41]])
     (to_wire (DomainName [[0x61]])) 1 (DomainName [[0x62]]) (to_wire (DomainName [[0x62]])) =
   Some (DomainName [[0x78], [0x62]], [1, 0x78, 1, 0x62, 0], 1)"
  using dname_wire_substitution_refines [of "DomainName [[0x61]]" "DomainName [[0x78], [0x41]]"
      "DomainName [[0x62]]"]
  by (simp add: valid_name_def valid_label_def wire_len_def label_count_def with_replaced_suffix_def
      is_equal_or_subdomain_of_def labels_match_def eq_ignore_ascii_case_def to_ascii_lowercase_def
      is_ascii_uppercase_def to_wire_def)

end
