(* ===== verification/Dns_Message.thy ===== *)
theory Dns_Message
  imports Dns_Name
begin

text \<open>
  Message-level parsing of \<open>crates/borondns-core/src/dns.rs\<close>: the header, the question, the
  record views, the EDNS options and the request metadata (\<open>RequestMetadata::parse\<close>) that
  every answer path starts from.  The metadata parser is specified against a record-by-record
  reading of the packet: where OPT may stand, how many there may be, and that nothing is left
  over behind the last record.
\<close>

section \<open>Constants and codes\<close>

definition DNS_HEADER_LEN :: nat where "DNS_HEADER_LEN = 12"
definition DEFAULT_MAX_UDP_PAYLOAD :: u16 where "DEFAULT_MAX_UDP_PAYLOAD = 1232"
definition DNS_CLASS_IN :: u16 where "DNS_CLASS_IN = 1"
definition DNS_CLASS_CH :: u16 where "DNS_CLASS_CH = 3"
definition DNS_CLASS_ANY :: u16 where "DNS_CLASS_ANY = 255"
definition EDNS_NSID_OPTION :: u16 where "EDNS_NSID_OPTION = 3"
definition EDNS_COOKIE_OPTION :: u16 where "EDNS_COOKIE_OPTION = 10"
definition EDNS_TCP_KEEPALIVE_OPTION :: u16 where "EDNS_TCP_KEEPALIVE_OPTION = 11"
definition EDNS_PADDING_OPTION :: u16 where "EDNS_PADDING_OPTION = 12"
definition EDNS_EXTENDED_DNS_ERROR_OPTION :: u16 where "EDNS_EXTENDED_DNS_ERROR_OPTION = 15"
definition EDE_NOT_READY :: u16 where "EDE_NOT_READY = 14"
definition EDE_UNSUPPORTED_NSEC3_ITERATIONS :: u16 where "EDE_UNSUPPORTED_NSEC3_ITERATIONS = 27"
definition DNS_COOKIE_CLIENT_LEN :: nat where "DNS_COOKIE_CLIENT_LEN = 8"
definition DNS_COOKIE_SERVER_V1_LEN :: nat where "DNS_COOKIE_SERVER_V1_LEN = 16"
definition DNS_COOKIE_VERSION_1 :: u8 where "DNS_COOKIE_VERSION_1 = 1"

lemmas dns_const_defs = DNS_HEADER_LEN_def DNS_CLASS_IN_def DNS_CLASS_CH_def DNS_CLASS_ANY_def
  EDNS_NSID_OPTION_def EDNS_COOKIE_OPTION_def EDNS_TCP_KEEPALIVE_OPTION_def
  EDNS_PADDING_OPTION_def EDNS_EXTENDED_DNS_ERROR_OPTION_def EDE_NOT_READY_def
  EDE_UNSUPPORTED_NSEC3_ITERATIONS_def DNS_COOKIE_CLIENT_LEN_def DNS_COOKIE_SERVER_V1_LEN_def
  DNS_COOKIE_VERSION_1_def

datatype opcode = Query | Notify

definition opcode_from_u8 :: "u8 \<Rightarrow> opcode option" where
  "opcode_from_u8 value =
     (if value = 0 then Some Query else if value = 4 then Some Notify else None)"

datatype record_type = RT_A | RT_Ns | RT_Cname | RT_Soa | RT_Ptr | RT_Hinfo | RT_Mx | RT_Txt
  | RT_Aaaa | RT_Srv | RT_Naptr | RT_Dname | RT_Ds | RT_Rrsig | RT_Nsec | RT_Dnskey | RT_Nsec3
  | RT_Nsec3Param | RT_Tlsa | RT_Svcb | RT_Https | RT_Uri | RT_Tkey | RT_Tsig | RT_Ixfr | RT_Axfr
  | RT_Opt

fun type_code :: "record_type \<Rightarrow> u16" where
  "type_code RT_A = 1" | "type_code RT_Ns = 2" | "type_code RT_Cname = 5" | "type_code RT_Soa = 6"
| "type_code RT_Ptr = 12" | "type_code RT_Hinfo = 13" | "type_code RT_Mx = 15"
| "type_code RT_Txt = 16" | "type_code RT_Aaaa = 28" | "type_code RT_Srv = 33"
| "type_code RT_Naptr = 35" | "type_code RT_Dname = 39" | "type_code RT_Ds = 43"
| "type_code RT_Rrsig = 46" | "type_code RT_Nsec = 47" | "type_code RT_Dnskey = 48"
| "type_code RT_Nsec3 = 50" | "type_code RT_Nsec3Param = 51" | "type_code RT_Tlsa = 52"
| "type_code RT_Svcb = 64" | "type_code RT_Https = 65" | "type_code RT_Uri = 256"
| "type_code RT_Tkey = 249" | "type_code RT_Tsig = 250" | "type_code RT_Ixfr = 251"
| "type_code RT_Axfr = 252" | "type_code RT_Opt = 41"

datatype rcode = RC_NoError | RC_FormErr | RC_ServFail | RC_NxDomain | RC_NotImp | RC_Refused
  | RC_YxDomain | RC_NotAuth | RC_BadCookie

fun rcode_code :: "rcode \<Rightarrow> u16" where
  "rcode_code RC_NoError = 0" | "rcode_code RC_FormErr = 1" | "rcode_code RC_ServFail = 2"
| "rcode_code RC_NxDomain = 3" | "rcode_code RC_NotImp = 4" | "rcode_code RC_Refused = 5"
| "rcode_code RC_YxDomain = 6" | "rcode_code RC_NotAuth = 9" | "rcode_code RC_BadCookie = 23"

definition rcode_bits :: "rcode \<Rightarrow> u16" where
  "rcode_bits rc = rcode_code rc AND 0x000f"

definition response_flag_bits :: "rcode \<Rightarrow> bool \<Rightarrow> u16" where
  "response_flag_bits rc authoritative = (if authoritative then 0x0400 else 0) OR rcode_bits rc"

section \<open>Header\<close>

record header =
  header_id :: u16
  flags :: u16
  qdcount :: u16
  ancount :: u16
  nscount :: u16
  arcount :: u16

definition parse_header :: "bytes \<Rightarrow> dns_parse_error + header" where
  "parse_header packet =
     (if length packet < DNS_HEADER_LEN then Inl ShortHeader
      else Inr \<lparr> header_id = be16 (packet ! 0) (packet ! 1), flags = be16 (packet ! 2) (packet ! 3),
                 qdcount = be16 (packet ! 4) (packet ! 5), ancount = be16 (packet ! 6) (packet ! 7),
                 nscount = be16 (packet ! 8) (packet ! 9),
                 arcount = be16 (packet ! 10) (packet ! 11) \<rparr>)"

definition is_response :: "header \<Rightarrow> bool" where
  "is_response h \<longleftrightarrow> flags h AND 0x8000 \<noteq> 0"

definition opcode_value :: "header \<Rightarrow> u8" where
  "opcode_value h = ucast (drop_bit 11 (flags h) AND 0x0f)"

definition header_opcode :: "header \<Rightarrow> opcode option" where
  "header_opcode h = opcode_from_u8 (opcode_value h)"

definition response_flags_from_plan_bits :: "header \<Rightarrow> u16 \<Rightarrow> bool \<Rightarrow> u16" where
  "response_flags_from_plan_bits h plan_response_flag_bits truncated =
     0x8000 OR (flags h AND 0x7800) OR (if truncated then 0x0200 else 0) OR (flags h AND 0x0100)
       OR plan_response_flag_bits"

definition response_flags :: "header \<Rightarrow> rcode \<Rightarrow> bool \<Rightarrow> bool \<Rightarrow> u16" where
  "response_flags h rc authoritative truncated =
     response_flags_from_plan_bits h (response_flag_bits rc authoritative) truncated"

section \<open>Question\<close>

record question =
  qname :: domain_name
  qtype :: u16
  qclass :: u16
  qname_wire_len :: nat
  qtype_qclass_wire :: bytes
  qname_ascii_lowercase :: bool

definition parse_question_reusing ::
  "bool \<Rightarrow> bytes \<Rightarrow> bytes list \<Rightarrow> dns_parse_error + question" where
  "parse_question_reusing reuse packet ls =
     (case parse_with_reusable_labels reuse packet DNS_HEADER_LEN ls of
        Inl e \<Rightarrow> Inl e
      | Inr (name, qname_len, lowercase) \<Rightarrow>
          let qtype_offset = DNS_HEADER_LEN + qname_len in
          if length packet < qtype_offset + 4 then Inl FormErr
          else Inr \<lparr> qname = name,
             qtype = be16 (packet ! qtype_offset) (packet ! (qtype_offset + 1)),
             qclass = be16 (packet ! (qtype_offset + 2)) (packet ! (qtype_offset + 3)),
             qname_wire_len = qname_len,
             qtype_qclass_wire = sub_slice packet qtype_offset (qtype_offset + 4),
             qname_ascii_lowercase = lowercase \<rparr>)"

definition parse_question :: "bytes \<Rightarrow> dns_parse_error + question" where
  "parse_question packet = parse_question_reusing False packet []"

definition question_wire_len :: "question \<Rightarrow> nat" where
  "question_wire_len q = qname_wire_len q + length (qtype_qclass_wire q)"

definition rejected_qtype :: "u16 \<Rightarrow> rcode option" where
  "rejected_qtype qt =
     (if qt \<in> {0, 41, 249, 250, 65535} then Some RC_FormErr
      else if qt \<in> {251, 252} then Some RC_Refused
      else if qt \<in> {253, 254} then Some RC_NotImp
      else None)"

section \<open>Request metadata\<close>

datatype extended_dns_error = NotReady | UnsupportedNsec3Iterations

fun info_code :: "extended_dns_error \<Rightarrow> u16" where
  "info_code NotReady = EDE_NOT_READY"
| "info_code UnsupportedNsec3Iterations = EDE_UNSUPPORTED_NSEC3_ITERATIONS"

record edns_server_cookie =
  server_len :: u8
  server_bytes :: bytes

record edns_cookie =
  client :: bytes
  server :: "edns_server_cookie option"

record edns_metadata =
  payload_size :: u16
  version :: u8
  do_bit :: bool
  tcp_keepalive_requested :: bool
  malformed_tcp_keepalive :: bool
  nsid_requested :: bool
  cookie :: "edns_cookie option"
  padding_requested :: bool

record request_metadata =
  edns :: "edns_metadata option"
  extended_rcode :: u16
  extended_dns_error :: "extended_dns_error option"

datatype edns_error = EdnsFormErr | EdnsFormErrWithMetadata request_metadata | BadVers request_metadata

definition empty_metadata :: request_metadata where
  "empty_metadata = \<lparr> edns = None, extended_rcode = 0, extended_dns_error = None \<rparr>"

definition with_extended_rcode :: "request_metadata \<Rightarrow> u16 \<Rightarrow> request_metadata" where
  "with_extended_rcode m rc = m \<lparr> extended_rcode := rc \<rparr>"

definition with_extended_dns_error :: "request_metadata \<Rightarrow> extended_dns_error \<Rightarrow> request_metadata" where
  "with_extended_dns_error m e = m \<lparr> extended_dns_error := Some e \<rparr>"

definition without_extended_dns_error :: "request_metadata \<Rightarrow> request_metadata" where
  "without_extended_dns_error m = m \<lparr> extended_dns_error := None \<rparr>"

definition dnssec_requested :: "request_metadata \<Rightarrow> bool" where
  "dnssec_requested m = (case edns m of None \<Rightarrow> False | Some e \<Rightarrow> do_bit e)"

section \<open>Record views\<close>

record parsed_record_view =
  owner_is_root :: bool
  rr_type :: u16
  rr_class :: u16
  ttl :: u32
  rdata_offset :: nat
  rdata :: bytes

definition parse_record_header :: "bytes \<Rightarrow> nat \<Rightarrow> edns_error + (u16 \<times> nat)" where
  "parse_record_header packet start =
     (case skip_compressed_name packet start of
        Inl _ \<Rightarrow> Inl EdnsFormErr
      | Inr consumed \<Rightarrow>
          let offset = start + consumed in
          if length packet < offset + 10 then Inl EdnsFormErr
          else
            let rt = be16 (packet ! offset) (packet ! (offset + 1));
                rdlength = unat (be16 (packet ! (offset + 8)) (packet ! (offset + 9)));
                end = offset + 10 + rdlength
            in if length packet < end then Inl EdnsFormErr else Inr (rt, end - start))"

definition parse_record_view_inner ::
  "bytes \<Rightarrow> nat \<Rightarrow> domain_name option \<Rightarrow> edns_error + (parsed_record_view \<times> bool \<times> nat)" where
  "parse_record_view_inner packet start expected_owner =
     (case scan_compressed_name packet start expected_owner of
        Inl _ \<Rightarrow> Inl EdnsFormErr
      | Inr owner_scan \<Rightarrow>
          let offset = start + scan_consumed owner_scan in
          if length packet < offset + 10 then Inl EdnsFormErr
          else
            let rt = be16 (packet ! offset) (packet ! (offset + 1));
                cl = be16 (packet ! (offset + 2)) (packet ! (offset + 3));
                tl = be32 (packet ! (offset + 4)) (packet ! (offset + 5))
                       (packet ! (offset + 6)) (packet ! (offset + 7));
                rdlength = unat (be16 (packet ! (offset + 8)) (packet ! (offset + 9)));
                offset = offset + 10
            in if length packet < offset + rdlength then Inl EdnsFormErr
               else Inr (\<lparr> owner_is_root = (scan_label_count owner_scan = 0), rr_type = rt,
                           rr_class = cl, ttl = tl, rdata_offset = offset,
                           rdata = sub_slice packet offset (offset + rdlength) \<rparr>,
                         matches_expected owner_scan, offset + rdlength - start))"

definition parse_record_view :: "bytes \<Rightarrow> nat \<Rightarrow> edns_error + (parsed_record_view \<times> nat)" where
  "parse_record_view packet offset =
     (case parse_record_view_inner packet offset None of
        Inl e \<Rightarrow> Inl e | Inr (r, _, consumed) \<Rightarrow> Inr (r, consumed))"

definition parse_record_view_with_owner_match ::
  "bytes \<Rightarrow> nat \<Rightarrow> domain_name \<Rightarrow> edns_error + ((parsed_record_view \<times> bool) \<times> nat)" where
  "parse_record_view_with_owner_match packet offset expected_owner =
     (case parse_record_view_inner packet offset (Some expected_owner) of
        Inl e \<Rightarrow> Inl e
      | Inr (r, owner_matches_expected, consumed) \<Rightarrow> Inr ((r, owner_matches_expected), consumed))"

section \<open>EDNS options\<close>

record edns_options =
  opt_tcp_keepalive_requested :: bool
  opt_malformed_tcp_keepalive :: bool
  opt_nsid_requested :: bool
  opt_cookie :: "edns_cookie option"
  opt_padding_requested :: bool

definition edns_options_default :: edns_options where
  "edns_options_default = \<lparr> opt_tcp_keepalive_requested = False, opt_malformed_tcp_keepalive = False,
     opt_nsid_requested = False, opt_cookie = None, opt_padding_requested = False \<rparr>"

definition parse_edns_cookie_option :: "bytes \<Rightarrow> edns_error + edns_cookie" where
  "parse_edns_cookie_option data =
     (if length data \<noteq> DNS_COOKIE_CLIENT_LEN \<and>
         \<not> (DNS_COOKIE_CLIENT_LEN + 8 \<le> length data \<and> length data \<le> DNS_COOKIE_CLIENT_LEN + 32)
      then Inl EdnsFormErr
      else Inr \<lparr> client = take DNS_COOKIE_CLIENT_LEN data,
         server = (if DNS_COOKIE_CLIENT_LEN < length data then
             let server_data = drop DNS_COOKIE_CLIENT_LEN data in
             Some \<lparr> server_len = of_nat (length server_data),
                    server_bytes = server_data @ replicate (32 - length server_data) 0 \<rparr>
           else None) \<rparr>)"

definition apply_edns_option :: "edns_options \<Rightarrow> u16 \<Rightarrow> bytes \<Rightarrow> edns_error + edns_options" where
  "apply_edns_option options option_code data =
     (if option_code = EDNS_NSID_OPTION then Inr (options \<lparr> opt_nsid_requested := True \<rparr>)
      else if option_code = EDNS_COOKIE_OPTION then
        (if opt_cookie options = None then
           (case parse_edns_cookie_option data of
              Inl e \<Rightarrow> Inl e
            | Inr c \<Rightarrow> Inr (options \<lparr> opt_cookie := Some c \<rparr>))
         else Inr options)
      else if option_code = EDNS_TCP_KEEPALIVE_OPTION then
        (if length data = 0 then Inr (options \<lparr> opt_tcp_keepalive_requested := True \<rparr>)
         else Inr (options \<lparr> opt_malformed_tcp_keepalive := True \<rparr>))
      else if option_code = EDNS_PADDING_OPTION then
        (if opt_padding_requested options then Inl EdnsFormErr
         else Inr (options \<lparr> opt_padding_requested := True \<rparr>))
      else Inr options)"

function parse_edns_options_loop :: "bytes \<Rightarrow> nat \<Rightarrow> edns_options \<Rightarrow> edns_error + edns_options" where
  "parse_edns_options_loop data offset options =
     (if length data \<le> offset then Inr options
      else if length data < offset + 4 then Inl EdnsFormErr
      else
        let option_code = be16 (data ! offset) (data ! (offset + 1));
            option_len = unat (be16 (data ! (offset + 2)) (data ! (offset + 3)));
            offset' = offset + 4
        in if length data < offset' + option_len then Inl EdnsFormErr
           else (case apply_edns_option options option_code
                        (sub_slice data offset' (offset' + option_len)) of
                   Inl e \<Rightarrow> Inl e
                 | Inr options' \<Rightarrow> parse_edns_options_loop data (offset' + option_len) options'))"
  by pat_completeness auto
termination
  by (relation "measure (\<lambda>(data, offset, options). length data - offset)") auto

declare parse_edns_options_loop.simps [simp del]

definition parse_edns_options :: "bytes \<Rightarrow> edns_error + edns_options" where
  "parse_edns_options data = parse_edns_options_loop data 0 edns_options_default"

section \<open>The metadata parser\<close>

definition metadata_with :: "edns_metadata option \<Rightarrow> request_metadata" where
  "metadata_with e = \<lparr> edns = e, extended_rcode = 0, extended_dns_error = None \<rparr>"

text \<open>The answer and authority loops: records are skipped, an OPT there is an error.\<close>

fun skip_records :: "nat \<Rightarrow> bytes \<Rightarrow> nat \<Rightarrow> edns_error + nat" where
  "skip_records 0 packet offset = Inr offset"
| "skip_records (Suc n) packet offset =
     (case parse_record_header packet offset of
        Inl e \<Rightarrow> Inl e
      | Inr (rt, consumed) \<Rightarrow>
          if rt = type_code RT_Opt then Inl EdnsFormErr
          else skip_records n packet (offset + consumed))"

definition fixed_metadata :: "parsed_record_view \<Rightarrow> edns_metadata" where
  "fixed_metadata r = \<lparr> payload_size = max (rr_class r) 512,
     version = ucast (drop_bit 16 (ttl r) AND 0xff), do_bit = (ttl r AND 0x8000 \<noteq> 0),
     tcp_keepalive_requested = False, malformed_tcp_keepalive = False, nsid_requested = False,
     cookie = None, padding_requested = False \<rparr>"

definition metadata_of_options :: "parsed_record_view \<Rightarrow> edns_options \<Rightarrow> edns_metadata" where
  "metadata_of_options r opts = \<lparr> payload_size = payload_size (fixed_metadata r),
     version = version (fixed_metadata r), do_bit = do_bit (fixed_metadata r),
     tcp_keepalive_requested = opt_tcp_keepalive_requested opts,
     malformed_tcp_keepalive = opt_malformed_tcp_keepalive opts,
     nsid_requested = opt_nsid_requested opts, cookie = opt_cookie opts,
     padding_requested = opt_padding_requested opts \<rparr>"

fun parse_additional ::
  "nat \<Rightarrow> bytes \<Rightarrow> nat \<Rightarrow> edns_metadata option \<Rightarrow> edns_error + (nat \<times> edns_metadata option)" where
  "parse_additional 0 packet offset ed = Inr (offset, ed)"
| "parse_additional (Suc n) packet offset ed =
     (case parse_record_view packet offset of
        Inl EdnsFormErr \<Rightarrow>
          (if ed \<noteq> None then Inl (EdnsFormErrWithMetadata (metadata_with ed)) else Inl EdnsFormErr)
      | Inl error \<Rightarrow> Inl error
      | Inr (r, consumed) \<Rightarrow>
          if rr_type r = type_code RT_Opt then
            (if ed \<noteq> None \<or> \<not> owner_is_root r then
               Inl (EdnsFormErrWithMetadata (metadata_with
                 (case ed of None \<Rightarrow> Some (fixed_metadata r) | Some e \<Rightarrow> Some e)))
             else
               (case parse_edns_options (rdata r) of
                  Inl EdnsFormErr \<Rightarrow>
                    Inl (EdnsFormErrWithMetadata (metadata_with (Some (fixed_metadata r))))
                | Inl other \<Rightarrow> Inl other
                | Inr opts \<Rightarrow>
                    parse_additional n packet (offset + consumed) (Some (metadata_of_options r opts))))
          else parse_additional n packet (offset + consumed) ed)"

definition parse_from_offset :: "header \<Rightarrow> bytes \<Rightarrow> nat \<Rightarrow> edns_error + request_metadata" where
  "parse_from_offset h packet offset =
     (if header_opcode h = Some Query \<and> (ancount h \<noteq> 0 \<or> nscount h \<noteq> 0) then Inl EdnsFormErr
      else
        (case skip_records (unat (ancount h)) packet offset of
           Inl e \<Rightarrow> Inl e
         | Inr offset1 \<Rightarrow>
        (case skip_records (unat (nscount h)) packet offset1 of
           Inl e \<Rightarrow> Inl e
         | Inr offset2 \<Rightarrow>
        (case parse_additional (unat (arcount h)) packet offset2 None of
           Inl e \<Rightarrow> Inl e
         | Inr (offset3, ed) \<Rightarrow>
             if offset3 \<noteq> length packet then
               (case ed of
                  Some e \<Rightarrow> Inl (EdnsFormErrWithMetadata (metadata_with (Some e)))
                | None \<Rightarrow> Inl EdnsFormErr)
             else if (case ed of None \<Rightarrow> False | Some e \<Rightarrow> 0 < version e) then
               Inl (BadVers (metadata_with ed))
             else Inr (metadata_with ed)))))"

definition parse_metadata :: "header \<Rightarrow> bytes \<Rightarrow> question \<Rightarrow> edns_error + request_metadata" where
  "parse_metadata h packet q = parse_from_offset h packet (DNS_HEADER_LEN + question_wire_len q)"

definition parse_without_question :: "header \<Rightarrow> bytes \<Rightarrow> edns_error + request_metadata" where
  "parse_without_question h packet = parse_from_offset h packet DNS_HEADER_LEN"

section \<open>Header flags\<close>

lemma and_or_distrib_u16: "((a :: u16) OR b) AND c = (a AND c) OR (b AND c)"
  by (simp add: bit.conj_disj_distrib2)

lemma and_and_u16: "((a :: u16) AND b) AND c = a AND (b AND c)"
  by (simp add: and.assoc)

lemma rcode_bits_masks:
  "rcode_bits rc AND 0x8000 = 0" "rcode_bits rc AND 0x7800 = 0" "rcode_bits rc AND 0x0100 = 0"
  "rcode_bits rc AND 0x0200 = 0" "rcode_bits rc AND 0x0400 = 0" "rcode_bits rc AND 0x00f0 = 0"
  "rcode_bits rc AND 0x000f = rcode_bits rc"
  by (cases rc; simp add: rcode_bits_def)+

lemmas flag_simps = response_flags_def response_flags_from_plan_bits_def response_flag_bits_def
  and_or_distrib_u16 and_and_u16 rcode_bits_masks

lemma response_flags_masks:
  "response_flags h rc aa tc AND 0x8000 = 0x8000"
  "response_flags h rc aa tc AND 0x7800 = flags h AND 0x7800"
  "response_flags h rc aa tc AND 0x0100 = flags h AND 0x0100"
  "response_flags h rc aa tc AND 0x0200 = (if tc then 0x0200 else 0)"
  "response_flags h rc aa tc AND 0x0400 = (if aa then 0x0400 else 0)"
  "response_flags h rc aa tc AND 0x00f0 = 0"
  "response_flags h rc aa tc AND 0x000f = rcode_bits rc"
  by (simp_all add: flag_simps)

lemma is_response_mask: "is_response h \<longleftrightarrow> flags h AND 0x8000 \<noteq> 0"
  by (simp add: is_response_def)

section \<open>Layout of headers, questions and records\<close>

definition header_wire :: "header \<Rightarrow> bytes" where
  "header_wire h = u16_bytes (header_id h) @ u16_bytes (flags h) @ u16_bytes (qdcount h) @
     u16_bytes (ancount h) @ u16_bytes (nscount h) @ u16_bytes (arcount h)"

lemma length_header_wire [simp, wire_len]: "length (header_wire h) = 12"
  by (simp add: header_wire_def)

lemma parse_header_wire [simp]: "parse_header (header_wire h @ rest) = Inr h"
  by (cases h) (simp add: parse_header_def header_wire_def u16_bytes_def dns_const_defs)

lemma parse_header_Inr_iff:
  "parse_header packet = Inr h \<longleftrightarrow> (\<exists>rest. packet = header_wire h @ rest)"
proof
  assume parse: "parse_header packet = Inr h"
  then have "12 \<le> length packet" by (auto simp: parse_header_def dns_const_defs split: if_splits)
  then have "\<exists>a b c d e f g i j k l m rest. packet = a # b # c # d # e # f # g # i # j # k # l # m # rest"
    by (auto simp: numeral_eq_Suc Suc_le_length_iff)
  then obtain a b c d e f g i j k l m rest where
    "packet = a # b # c # d # e # f # g # i # j # k # l # m # rest" by blast
  with parse have "packet = header_wire h @ rest"
    by (auto simp: parse_header_def header_wire_def dns_const_defs)
  then show "\<exists>rest. packet = header_wire h @ rest" ..
qed auto

lemma parse_with_ascii_lowercase_iff:
  "parse_with_ascii_lowercase packet offset = Inr (n, c, lc) \<longleftrightarrow>
     parse_name packet offset = Inr (n, c) \<and>
     lc = list_all (list_all (\<lambda>b. to_ascii_lowercase b = b)) (labels n)"
proof -
  have "lc = list_all (list_all (\<lambda>b. to_ascii_lowercase b = b)) (labels n)"
    if *: "parse_with_ascii_lowercase packet offset = Inr (n, c, lc)" for lc
  proof -
    from * have "parse_name packet offset = Inr (n, c)" by (simp add: parse_name_def)
    then obtain hops where "name_at packet offset (labels n) hops c" "hops \<le> 128" "wire_len n \<le> 255"
      by (auto simp: parse_name_iff)
    then show ?thesis
      using * parse_loop_complete [of packet offset "labels n" hops c 0 1 None offset "[]" 0 True]
      by (simp add: parse_with_ascii_lowercase_def parse_with_reusable_labels_def wire_len_def)
  qed
  moreover have "\<exists>lc. parse_with_ascii_lowercase packet offset = Inr (n, c, lc)"
    if "parse_name packet offset = Inr (n, c)"
    using that by (auto simp: parse_name_def split: sum.splits)
  moreover have "parse_name packet offset = Inr (n, c)"
    if "parse_with_ascii_lowercase packet offset = Inr (n, c, lc)"
    using that by (simp add: parse_name_def)
  ultimately show ?thesis by blast
qed

lemma skip_compressed_name_eq:
  "skip_compressed_name packet offset =
     (case parse_name packet offset of Inl e \<Rightarrow> Inl e | Inr (_, c) \<Rightarrow> Inr c)"
  by (simp add: skip_compressed_name_def scan_eq_parse split: sum.splits)

text \<open>A question as it stands behind the header of a query.\<close>

definition question_wire :: "domain_name \<Rightarrow> u16 \<Rightarrow> u16 \<Rightarrow> bytes" where
  "question_wire n qt qc = to_wire n @ u16_bytes qt @ u16_bytes qc"

lemma length_question_wire [simp, wire_len]: "length (question_wire n qt qc) = wire_len n + 4"
  by (simp add: question_wire_def)

lemma parse_question_wire:
  assumes "valid_name n" "length hdr = 12"
  shows "parse_question (hdr @ question_wire n qt qc @ rest) =
    Inr \<lparr> qname = n, qtype = qt, qclass = qc, qname_wire_len = wire_len n,
          qtype_qclass_wire = u16_bytes qt @ u16_bytes qc,
          qname_ascii_lowercase = list_all (list_all (\<lambda>b. to_ascii_lowercase b = b)) (labels n) \<rparr>"
proof -
  let ?p = "hdr @ to_wire n @ u16_bytes qt @ u16_bytes qc @ rest"
  have "parse_with_ascii_lowercase ?p 12 =
      Inr (n, wire_len n, list_all (list_all (\<lambda>b. to_ascii_lowercase b = b)) (labels n))"
    using parse_to_wire [OF assms(1), of hdr "u16_bytes qt @ u16_bytes qc @ rest"] assms(2)
    by (simp add: parse_with_ascii_lowercase_iff)
  moreover have "sub_slice ?p (12 + wire_len n) (12 + wire_len n + 4) = u16_bytes qt @ u16_bytes qc"
    using sub_slice_append_mid [of "hdr @ to_wire n" "12 + wire_len n" _ "u16_bytes qt @ u16_bytes qc" rest]
      assms(2) by simp
  ultimately show ?thesis using assms(2)
    by (simp add: parse_question_def parse_question_reusing_def parse_with_ascii_lowercase_def
        question_wire_def Let_def dns_const_defs nth_append u16_bytes_def)
qed

definition record_fixed :: "u16 \<Rightarrow> u16 \<Rightarrow> u32 \<Rightarrow> u16 \<Rightarrow> bytes" where
  "record_fixed rt cl tt rdlength = u16_bytes rt @ u16_bytes cl @ u32_bytes tt @ u16_bytes rdlength"

lemma length_record_fixed [simp, wire_len]: "length (record_fixed rt cl tt rdlength) = 10"
  by (simp add: record_fixed_def)

lemma parse_record_view_inner_at:
  assumes "parse_name packet (length pre) = Inr (n, c)" "length pre + c = length pre'"
    and "packet = pre' @ record_fixed rt cl tt (of_nat (length rd)) @ rd @ post" "length rd < 65536"
  shows "parse_record_view_inner packet (length pre) expected =
    Inr (\<lparr> owner_is_root = (labels n = []), rr_type = rt, rr_class = cl, ttl = tt,
           rdata_offset = length pre' + 10, rdata = rd \<rparr>,
         (case expected of None \<Rightarrow> True | Some e \<Rightarrow> to_ascii_lowercased n = to_ascii_lowercased e),
         c + 10 + length rd)"
proof -
  have "sub_slice packet (length pre' + 10) (length pre' + 10 + length rd) = rd"
    using sub_slice_append_mid [of "pre' @ record_fixed rt cl tt (of_nat (length rd))" "length pre' + 10" _ rd post]
      assms(3) by simp
  moreover have "length packet = length pre' + 10 + length rd + length post" using assms(3) by simp
  moreover have "be16 (packet ! (length pre')) (packet ! (length pre' + 1)) = rt"
    "be16 (packet ! (length pre' + 2)) (packet ! (length pre' + 3)) = cl"
    "be32 (packet ! (length pre' + 4)) (packet ! (length pre' + 5)) (packet ! (length pre' + 6))
       (packet ! (length pre' + 7)) = tt"
    "unat (be16 (packet ! (length pre' + 8)) (packet ! (length pre' + 9))) = length rd"
    using assms(3,4)
    by (simp_all add: nth_append record_fixed_def u16_bytes_def u32_bytes_def unat_of_nat_u16)
  ultimately show ?thesis using assms(1,2) unfolding parse_record_view_inner_def scan_eq_parse
    by (simp add: Let_def label_count_def) (simp add: ac_simps)?
qed

lemma parse_record_header_view:
  "parse_record_header packet offset =
     (case parse_record_view packet offset of Inl e \<Rightarrow> Inl e | Inr (r, c) \<Rightarrow> Inr (rr_type r, c))"
  unfolding parse_record_header_def parse_record_view_def parse_record_view_inner_def
    skip_compressed_name_eq scan_eq_parse
  by (simp add: Let_def split: sum.splits)

lemma parse_record_view_bound:
  "parse_record_view packet offset = Inr (r, c) \<Longrightarrow> 10 < c \<and> offset + c \<le> length packet"
  unfolding parse_record_view_def parse_record_view_inner_def scan_eq_parse
  by (auto simp: Let_def split: sum.splits if_splits dest: parse_name_valid)

section \<open>EDNS options as a list of code and data\<close>

definition encode_edns_option :: "u16 \<times> bytes \<Rightarrow> bytes" where
  "encode_edns_option opt = u16_bytes (fst opt) @ u16_bytes (of_nat (length (snd opt))) @ snd opt"

definition encode_edns_options :: "(u16 \<times> bytes) list \<Rightarrow> bytes" where
  "encode_edns_options os = concat (map encode_edns_option os)"

fun apply_edns_options :: "(u16 \<times> bytes) list \<Rightarrow> edns_options \<Rightarrow> edns_error + edns_options" where
  "apply_edns_options [] options = Inr options"
| "apply_edns_options ((code, data) # os) options =
     (case apply_edns_option options code data of
        Inl e \<Rightarrow> Inl e | Inr options' \<Rightarrow> apply_edns_options os options')"

abbreviation option_fits :: "u16 \<times> bytes \<Rightarrow> bool" where
  "option_fits opt \<equiv> length (snd opt) < 65536"

lemma parse_edns_options_loop_encode:
  "list_all option_fits os \<Longrightarrow>
     parse_edns_options_loop (pre @ encode_edns_options os) (length pre) options =
     apply_edns_options os options"
proof (induction os arbitrary: pre options)
  case Nil
  then show ?case by (subst parse_edns_options_loop.simps) (simp add: encode_edns_options_def)
next
  case (Cons o' os)
  obtain code data where o': "o' = (code, data)" by (cases o')
  let ?hd = "u16_bytes code @ u16_bytes (of_nat (length data))"
  let ?p = "pre @ ?hd @ data @ encode_edns_options os"
  have p: "pre @ encode_edns_options (o' # os) = ?p"
    by (simp add: o' encode_edns_options_def encode_edns_option_def)
  have "be16 (?p ! length pre) (?p ! (length pre + 1)) = code"
    "unat (be16 (?p ! (length pre + 2)) (?p ! (length pre + 3))) = length data"
    using Cons.prems by (simp_all add: nth_append u16_bytes_def unat_of_nat_u16 o')
  moreover have "sub_slice ?p (length pre + 4) (length pre + 4 + length data) = data"
    using sub_slice_append_mid [of "pre @ ?hd" "length pre + 4" _ data "encode_edns_options os"] by simp
  moreover have len: "length (pre @ ?hd @ data) = length pre + 4 + length data" by simp
  moreover have "parse_edns_options_loop ?p (length pre + 4 + length data) options' =
      apply_edns_options os options'" for options'
    using Cons.IH [of "pre @ ?hd @ data" options', unfolded len] Cons.prems by simp
  moreover have "length pre + 4 + length data \<le> length ?p" by simp
  ultimately show ?case
    unfolding p by (subst parse_edns_options_loop.simps) (simp add: Let_def o' cong: sum.case_cong)
qed

lemma parse_edns_options_loop_sound:
  "parse_edns_options_loop data offset options = Inr result \<Longrightarrow> offset \<le> length data \<Longrightarrow>
     \<exists>os. drop offset data = encode_edns_options os \<and> list_all option_fits os"
proof (induction data offset options rule: parse_edns_options_loop.induct)
  case (1 data offset options)
  show ?case
  proof (cases "length data \<le> offset")
    case True
    then show ?thesis by (intro exI [of _ "[]"]) (simp add: encode_edns_options_def)
  next
    case False
    let ?code = "be16 (data ! offset) (data ! (offset + 1))"
    let ?word = "be16 (data ! (offset + 2)) (data ! (offset + 3))"
    let ?len = "unat ?word"
    let ?body = "sub_slice data (offset + 4) (offset + 4 + ?len)"
    from "1.prems"(1) False obtain options' where
      fits: "offset + 4 \<le> length data" "offset + 4 + ?len \<le> length data"
      and step: "apply_edns_option options ?code ?body = Inr options'"
      and rest: "parse_edns_options_loop data (offset + 4 + ?len) options' = Inr result"
      by (subst (asm) parse_edns_options_loop.simps) (auto simp: Let_def split: if_splits sum.splits)
    have "\<exists>os. drop (offset + 4 + ?len) data = encode_edns_options os \<and> list_all option_fits os"
      using "1.IH" [OF False _ refl refl refl _ step rest] fits by simp
    then obtain os where os: "drop (offset + 4 + ?len) data = encode_edns_options os"
      "list_all option_fits os" by blast
    have "drop offset data = data ! offset # data ! (offset + 1) # data ! (offset + 2) #
        data ! (offset + 3) # drop (offset + 4) data"
      using fits(1) by (simp add: Cons_nth_drop_Suc numeral_eq_Suc)
    moreover have "drop (offset + 4) data = ?body @ drop (offset + 4 + ?len) data"
      using append_take_drop_id [of ?len "drop (offset + 4) data"]
      by (simp add: sub_slice_def ac_simps)
    moreover have "length ?body = ?len" using fits(2) by (simp add: length_sub_slice)
    ultimately have "drop offset data = encode_edns_options ((?code, ?body) # os)"
      using os(1) by (simp add: encode_edns_options_def encode_edns_option_def)
    moreover have "list_all option_fits ((?code, ?body) # os)"
      using os(2) unat_u16_less [of ?word] \<open>length ?body = ?len\<close> by simp
    ultimately show ?thesis by blast
  qed
qed

lemma parse_edns_options_iff:
  "parse_edns_options data = Inr result \<longleftrightarrow>
     (\<exists>os. data = encode_edns_options os \<and> list_all option_fits os \<and>
        apply_edns_options os edns_options_default = Inr result)"
proof
  assume *: "parse_edns_options data = Inr result"
  then obtain os where os: "data = encode_edns_options os" "list_all option_fits os"
    using parse_edns_options_loop_sound [of data 0 edns_options_default result]
    by (auto simp: parse_edns_options_def)
  with * parse_edns_options_loop_encode [of os "[]" edns_options_default]
  show "\<exists>os. data = encode_edns_options os \<and> list_all option_fits os \<and>
        apply_edns_options os edns_options_default = Inr result"
    by (auto simp: parse_edns_options_def)
next
  assume "\<exists>os. data = encode_edns_options os \<and> list_all option_fits os \<and>
        apply_edns_options os edns_options_default = Inr result"
  with parse_edns_options_loop_encode [of _ "[]" edns_options_default]
  show "parse_edns_options data = Inr result" by (auto simp: parse_edns_options_def)
qed

text \<open>The data of the options with one code, in order.\<close>

definition options_with :: "u16 \<Rightarrow> (u16 \<times> bytes) list \<Rightarrow> bytes list" where
  "options_with code os = map snd (filter (\<lambda>opt. fst opt = code) os)"

text \<open>The cookie an option's data spells: 8 octets of the client, or those and 8 to 32 of the server.\<close>

definition cookie_of :: "bytes \<Rightarrow> edns_cookie option" where
  "cookie_of data =
     (if length data = 8 then Some \<lparr> client = data, server = None \<rparr>
      else if length data \<in> {16..40}
      then Some \<lparr> client = take 8 data,
        server = Some \<lparr> server_len = of_nat (length data - 8), server_bytes = drop 8 data @ replicate (40 - length data) 0 \<rparr> \<rparr>
      else None)"

lemma options_with_simps [simp]:
  "options_with code [] = []"
  "options_with code ((c, d) # os) = (if c = code then d # options_with code os else options_with code os)"
  by (simp_all add: options_with_def)

lemma parse_edns_cookie_option_eq:
  "parse_edns_cookie_option data = (case cookie_of data of None \<Rightarrow> Inl EdnsFormErr | Some c \<Rightarrow> Inr c)"
  by (auto simp: parse_edns_cookie_option_def cookie_of_def DNS_COOKIE_CLIENT_LEN_def Let_def)

text \<open>What a list of options asks for, on top of options already read.\<close>

definition options_read :: "(u16 \<times> bytes) list \<Rightarrow> edns_options \<Rightarrow> edns_options \<Rightarrow> bool" where
  "options_read os before result \<longleftrightarrow>
     length (options_with 12 os) + (if opt_padding_requested before then 1 else 0) \<le> 1 \<and>
     (case opt_cookie before of
        Some c \<Rightarrow> opt_cookie result = Some c
      | None \<Rightarrow> (case options_with 10 os of
                   [] \<Rightarrow> opt_cookie result = None
                 | data # _ \<Rightarrow> cookie_of data \<noteq> None \<and> opt_cookie result = cookie_of data)) \<and>
     (opt_nsid_requested result \<longleftrightarrow> opt_nsid_requested before \<or> options_with 3 os \<noteq> []) \<and>
     (opt_tcp_keepalive_requested result \<longleftrightarrow> opt_tcp_keepalive_requested before \<or> [] \<in> set (options_with 11 os)) \<and>
     (opt_malformed_tcp_keepalive result \<longleftrightarrow> opt_malformed_tcp_keepalive before \<or> list_ex (\<lambda>data. data \<noteq> []) (options_with 11 os)) \<and>
     (opt_padding_requested result \<longleftrightarrow> opt_padding_requested before \<or> options_with 12 os \<noteq> [])"

lemma apply_edns_option_read:
  "(\<exists>mid. apply_edns_option before code data = Inr mid \<and> options_read os mid result) \<longleftrightarrow>
     options_read ((code, data) # os) before result"
proof -
  have codes: "EDNS_NSID_OPTION = 3" "EDNS_COOKIE_OPTION = 10" "EDNS_TCP_KEEPALIVE_OPTION = 11" "EDNS_PADDING_OPTION = 12"
    by (simp_all add: EDNS_NSID_OPTION_def EDNS_COOKIE_OPTION_def EDNS_TCP_KEEPALIVE_OPTION_def EDNS_PADDING_OPTION_def)
  consider "code = 3" | "code = 10" | "code = 11" | "code = 12" | "code \<notin> {3, 10, 11, 12}" by blast
  then show ?thesis
  proof cases
    case 1
    then show ?thesis
      by (cases "opt_cookie before") (simp_all add: apply_edns_option_def codes options_read_def)
  next
    case 2
    then show ?thesis
      by (cases "opt_cookie before"; cases "cookie_of data")
        (simp_all add: apply_edns_option_def codes options_read_def parse_edns_cookie_option_eq)
  next
    case 3
    then show ?thesis
      by (cases "data = []"; cases "opt_cookie before") (simp_all add: apply_edns_option_def codes options_read_def)
  next
    case 4
    then show ?thesis
      by (cases "opt_padding_requested before"; cases "opt_cookie before") (simp_all add: apply_edns_option_def codes options_read_def)
  next
    case 5
    then show ?thesis
      by (cases "opt_cookie before") (simp_all add: apply_edns_option_def codes options_read_def)
  qed
qed

lemma apply_edns_options_read: "apply_edns_options os before = Inr result \<longleftrightarrow> options_read os before result"
proof (induction os arbitrary: before)
  case Nil
  show ?case by (cases before; cases result) (auto simp: options_read_def split: option.splits)
next
  case (Cons opt os)
  obtain code data where opt: "opt = (code, data)" by fastforce
  have "apply_edns_options (opt # os) before = Inr result \<longleftrightarrow>
      (\<exists>mid. apply_edns_option before code data = Inr mid \<and> apply_edns_options os mid = Inr result)"
    by (cases "apply_edns_option before code data") (simp_all add: opt)
  then show ?case using Cons.IH apply_edns_option_read [of before code data os result] by (simp add: opt)
qed

section \<open>What the metadata parser accepts\<close>

text \<open>The views of \<open>n\<close> consecutive records and the offset behind them.\<close>

fun record_views :: "nat \<Rightarrow> bytes \<Rightarrow> nat \<Rightarrow> (parsed_record_view list \<times> nat) option" where
  "record_views 0 packet offset = Some ([], offset)"
| "record_views (Suc n) packet offset =
     (case parse_record_view packet offset of
        Inl _ \<Rightarrow> None
      | Inr (r, consumed) \<Rightarrow>
          (case record_views n packet (offset + consumed) of
             None \<Rightarrow> None | Some (rs, end) \<Rightarrow> Some (r # rs, end)))"

abbreviation is_opt :: "parsed_record_view \<Rightarrow> bool" where
  "is_opt r \<equiv> rr_type r = type_code RT_Opt"

text \<open>
  The EDNS metadata a list of additional records stands for: none without an OPT, the OPT's
  when there is exactly one, owned by the root and with well-formed options; undefined otherwise.
\<close>

definition sole_opt :: "parsed_record_view list \<Rightarrow> edns_metadata option option" where
  "sole_opt rs =
     (case filter is_opt rs of
        [] \<Rightarrow> Some None
      | [r] \<Rightarrow> (if owner_is_root r then
                (case parse_edns_options (rdata r) of
                   Inl _ \<Rightarrow> None | Inr opts \<Rightarrow> Some (Some (metadata_of_options r opts)))
              else None)
      | _ \<Rightarrow> None)"

lemma skip_records_iff:
  "skip_records n packet offset = Inr end \<longleftrightarrow>
     (\<exists>rs. record_views n packet offset = Some (rs, end) \<and> list_all (\<lambda>r. \<not> is_opt r) rs)"
  by (induction n arbitrary: offset)
    (auto simp: parse_record_header_view split: sum.splits option.splits)

lemma parse_additional_after_opt:
  "parse_additional n packet offset (Some m) = Inr (end, ed) \<longleftrightarrow>
     (\<exists>rs. record_views n packet offset = Some (rs, end) \<and> filter is_opt rs = []) \<and> ed = Some m"
  by (induction n arbitrary: offset)
    (auto split: sum.splits option.splits edns_error.splits if_splits)

lemma parse_additional_iff:
  "parse_additional n packet offset None = Inr (end, ed) \<longleftrightarrow>
     (\<exists>rs. record_views n packet offset = Some (rs, end) \<and> sole_opt rs = Some ed)"
proof (induction n arbitrary: offset)
  case 0
  then show ?case by (auto simp: sole_opt_def)
next
  case (Suc n)
  show ?case
  proof (cases "parse_record_view packet offset")
    case (Inl e)
    then show ?thesis by (cases e) simp_all
  next
    case (Inr rc)
    obtain r c where rc: "rc = (r, c)" by (cases rc)
    show ?thesis
    proof (cases "is_opt r")
      case False
      then have "sole_opt (r # rs) = sole_opt rs" for rs by (simp add: sole_opt_def)
      with False Inr rc Suc show ?thesis by (simp split: option.splits)
    next
      case True
      then show ?thesis using Inr rc
        by (cases "parse_edns_options (rdata r)"; cases "owner_is_root r")
          (auto simp: parse_additional_after_opt sole_opt_def split: edns_error.splits option.splits list.splits)
    qed
  qed
qed

lemma parse_from_offset_iff:
  "parse_from_offset h packet offset = Inr m \<longleftrightarrow>
     (if header_opcode h = Some Query then ancount h = 0 \<and> nscount h = 0 else True) \<and>
     (\<exists>ans auth add end1 end2 ed.
        record_views (unat (ancount h)) packet offset = Some (ans, end1) \<and>
        record_views (unat (nscount h)) packet end1 = Some (auth, end2) \<and>
        record_views (unat (arcount h)) packet end2 = Some (add, length packet) \<and>
        list_all (\<lambda>r. \<not> is_opt r) (ans @ auth) \<and>
        sole_opt add = Some ed \<and> (case ed of None \<Rightarrow> True | Some e \<Rightarrow> version e = 0) \<and>
        m = metadata_with ed)"
proof (cases "header_opcode h = Some Query \<and> (ancount h \<noteq> 0 \<or> nscount h \<noteq> 0)")
  case True
  then show ?thesis by (auto simp: parse_from_offset_def)
next
  case False
  then have "parse_from_offset h packet offset = Inr m \<longleftrightarrow>
      (\<exists>end1 end2 ed. skip_records (unat (ancount h)) packet offset = Inr end1 \<and>
         skip_records (unat (nscount h)) packet end1 = Inr end2 \<and>
         parse_additional (unat (arcount h)) packet end2 None = Inr (length packet, ed) \<and>
         (case ed of None \<Rightarrow> True | Some e \<Rightarrow> version e = 0) \<and> m = metadata_with ed)"
    by (auto simp: parse_from_offset_def word_neq_0_conv [symmetric] split: sum.splits option.splits if_splits)
  with False show ?thesis unfolding skip_records_iff parse_additional_iff list_all_append if_bool_eq_conj by blast
qed

section \<open>Properties\<close>

text \<open>
  C8: the flags of every response keep the request's opcode and RD bit, set QR, set AA and TC
  exactly when asked, carry the low four bits of the response code, and leave RA, Z, AD and CD
  clear.
\<close>

theorem response_flags_layout:
  "response_flags h rc aa tc AND 0x8000 = 0x8000 \<and>
   response_flags h rc aa tc AND 0x7800 = flags h AND 0x7800 \<and>
   response_flags h rc aa tc AND 0x0100 = flags h AND 0x0100 \<and>
   response_flags h rc aa tc AND 0x0200 = (if tc then 0x0200 else 0) \<and>
   response_flags h rc aa tc AND 0x0400 = (if aa then 0x0400 else 0) \<and>
   response_flags h rc aa tc AND 0x00f0 = 0 \<and>
   response_flags h rc aa tc AND 0x000f = rcode_bits rc"
  by (intro conjI response_flags_masks)

text \<open>
  C9: the question parser reads back the question a client encodes behind any 12-octet header,
  with the exact wire lengths later stages slice the packet by, and flags the name as lowercase
  exactly when it is.
\<close>

theorem question_round_trip:
  assumes "valid_name n" "length hdr = 12"
  shows "parse_question (hdr @ question_wire n qt qc @ rest) =
    Inr \<lparr> qname = n, qtype = qt, qclass = qc, qname_wire_len = wire_len n,
          qtype_qclass_wire = u16_bytes qt @ u16_bytes qc,
          qname_ascii_lowercase = list_all (list_all (\<lambda>b. to_ascii_lowercase b = b)) (labels n) \<rparr>"
  using assms by (rule parse_question_wire)

theorem question_round_trip_witness:
  "parse_question (replicate 12 0 @ question_wire (DomainName [[0x61]]) 1 1 @ []) =
    Inr \<lparr> qname = DomainName [[0x61]], qtype = 1, qclass = 1, qname_wire_len = 3,
          qtype_qclass_wire = [0, 1, 0, 1], qname_ascii_lowercase = True \<rparr>"
  using question_round_trip [of "DomainName [[0x61]]" "replicate 12 0" 1 1 "[]"]
  by (simp add: valid_name_def valid_label_def wire_len_def u16_bytes_def to_ascii_lowercase_def
      is_ascii_uppercase_def)

text \<open>
  C10: the EDNS option parser accepts exactly the encodings of option lists with at most one padding
  option (code 12) whose first cookie option (code 10), if any, has 8 octets or 16 to 40.  Its
  result holds that first cookie, split into the client's 8 octets and the server's rest; NSID
  (code 3) is requested when such an option is there, TCP keepalive (code 11) when an empty one is,
  a keepalive with data is noted as malformed, and padding is requested when the padding option is
  there.  Options of other codes and later cookies change nothing.
\<close>

theorem edns_options_exact:
  "parse_edns_options data = Inr result \<longleftrightarrow>
     (\<exists>os. data = encode_edns_options os \<and> list_all option_fits os \<and>
        length (options_with 12 os) \<le> 1 \<and>
        (case options_with 10 os of
           [] \<Rightarrow> opt_cookie result = None
         | first # _ \<Rightarrow> cookie_of first \<noteq> None \<and> opt_cookie result = cookie_of first) \<and>
        (opt_nsid_requested result \<longleftrightarrow> options_with 3 os \<noteq> []) \<and>
        (opt_tcp_keepalive_requested result \<longleftrightarrow> [] \<in> set (options_with 11 os)) \<and>
        (opt_malformed_tcp_keepalive result \<longleftrightarrow> list_ex (\<lambda>d. d \<noteq> []) (options_with 11 os)) \<and>
        (opt_padding_requested result \<longleftrightarrow> options_with 12 os \<noteq> []))"
  unfolding parse_edns_options_iff apply_edns_options_read
  by (simp add: options_read_def edns_options_default_def)

text \<open>
  C11: the request metadata parser accepts a packet exactly when its records fill it to the
  last octet, a query carries no answer or authority records, no OPT stands outside the
  additional section, and that section holds no OPT or a single well-formed one, owned by the
  root, of EDNS version 0, whose contents are the returned metadata.
\<close>

theorem request_metadata_exact:
  "parse_from_offset h packet offset = Inr m \<longleftrightarrow>
     (if header_opcode h = Some Query then ancount h = 0 \<and> nscount h = 0 else True) \<and>
     (\<exists>ans auth add end1 end2 ed.
        record_views (unat (ancount h)) packet offset = Some (ans, end1) \<and>
        record_views (unat (nscount h)) packet end1 = Some (auth, end2) \<and>
        record_views (unat (arcount h)) packet end2 = Some (add, length packet) \<and>
        list_all (\<lambda>r. \<not> is_opt r) (ans @ auth) \<and>
        sole_opt add = Some ed \<and> (case ed of None \<Rightarrow> True | Some e \<Rightarrow> version e = 0) \<and>
        m = metadata_with ed)"
  by (rule parse_from_offset_iff)

end
