(* ===== verification/Dns_Cookie.thy ===== *)
theory Dns_Cookie
  imports Dns_Message
begin

text \<open>
  DNS cookies (RFC 7873 and RFC 9018) as in \<open>crates/borondns-core/src/dns.rs\<close>: the answer
  options and the cookie context, minting a server cookie, checking one under the current and
  the previous secret, the wrapping timestamp window, and the strict policy.  SipHash-2-4 is
  third-party code: the keyed hash is the parameter \<open>sip\<close> of the definitions, a function of
  the two key halves and the octets written.
\<close>

section \<open>Addresses, transports and options\<close>

datatype ip_addr = V4 u32 | V6 u128

fun ip_octets :: "ip_addr \<Rightarrow> bytes" where
  "ip_octets (V4 a) = u32_bytes a"
| "ip_octets (V6 a) = map (\<lambda>i. ucast (drop_bit (8 * (15 - i)) a)) [0..<16]"

datatype any_response_mode = AnyMinimal | AnyFull

datatype transport = Udp | Tcp | Tls

datatype extended_dns_errors_mode = EdeOff | EdeMinimal

datatype dns_cookie_policy = Lenient | Strict

datatype dns_cookie_status =
  NoCookie | ClientCookieOnly | ValidServerCookie | InvalidServerCookie

record chaos_options =
  chaos_version :: bytes
  chaos_hostname :: bytes

record dns_cookie_context =
  client_ip :: ip_addr
  server_secret :: bytes
  previous_server_secret :: "bytes option"
  now_unix_secs :: u32
  past_window_secs :: u32
  future_window_secs :: u32
  policy :: dns_cookie_policy

definition cookie_context_new :: "ip_addr \<Rightarrow> bytes \<Rightarrow> u32 \<Rightarrow> dns_cookie_context" where
  "cookie_context_new ip secret now = \<lparr> client_ip = ip, server_secret = secret,
     previous_server_secret = None, now_unix_secs = now, past_window_secs = 3600,
     future_window_secs = 300, policy = Lenient \<rparr>"

record answer_options =
  transport :: transport
  max_udp_payload :: u16
  max_cname_chain :: nat
  nsec3_max_iterations :: u16
  tcp_keepalive_timeout_secs :: u64
  edns_padding_block_size :: u16
  extended_dns_errors :: extended_dns_errors_mode
  any_response :: any_response_mode
  nsid :: bytes
  chaos :: chaos_options
  dns_cookie :: "dns_cookie_context option"

definition answer_options_udp :: "u16 \<Rightarrow> answer_options" where
  "answer_options_udp max_payload = \<lparr> transport = Udp, max_udp_payload = max_payload,
     max_cname_chain = 8, nsec3_max_iterations = 100, tcp_keepalive_timeout_secs = 30,
     edns_padding_block_size = 0, extended_dns_errors = EdeOff, any_response = AnyMinimal,
     nsid = [], chaos = \<lparr> chaos_version = [], chaos_hostname = [] \<rparr>, dns_cookie = None \<rparr>"

definition answer_options_tcp :: answer_options where
  "answer_options_tcp = (answer_options_udp DEFAULT_MAX_UDP_PAYLOAD) \<lparr> transport := Tcp \<rparr>"

definition has_malformed_tcp_keepalive :: "request_metadata \<Rightarrow> transport \<Rightarrow> bool" where
  "has_malformed_tcp_keepalive m tr \<longleftrightarrow>
     tr \<noteq> Udp \<and> (case edns m of None \<Rightarrow> False | Some e \<Rightarrow> malformed_tcp_keepalive e)"

definition client_payload :: "request_metadata \<Rightarrow> u16" where
  "client_payload m = (case edns m of None \<Rightarrow> 512 | Some e \<Rightarrow> payload_size e)"

definition udp_ceiling :: "request_metadata \<Rightarrow> answer_options \<Rightarrow> nat" where
  "udp_ceiling m options = min (unat (client_payload m)) (unat (max_udp_payload options))"

section \<open>Minting and checking server cookies\<close>

definition le64 :: "bytes \<Rightarrow> u64" where
  "le64 bs = of_nat (foldr (\<lambda>b acc. unat b + 256 * acc) bs 0)"

definition u64_le_bytes :: "u64 \<Rightarrow> bytes" where
  "u64_le_bytes w = map (\<lambda>i. ucast (drop_bit (8 * i) w)) [0..<8]"

definition compute_dns_server_cookie_with_fields ::
  "(u64 \<Rightarrow> u64 \<Rightarrow> bytes \<Rightarrow> u64) \<Rightarrow> bytes \<Rightarrow> bytes \<Rightarrow> ip_addr \<Rightarrow> bytes \<Rightarrow> bytes" where
  "compute_dns_server_cookie_with_fields sip client_cookie server_cookie_prefix ip secret =
     u64_le_bytes (sip (le64 (take 8 secret)) (le64 (drop 8 secret))
       (client_cookie @ server_cookie_prefix @ ip_octets ip))"

definition compute_dns_server_cookie ::
  "(u64 \<Rightarrow> u64 \<Rightarrow> bytes \<Rightarrow> u64) \<Rightarrow> bytes \<Rightarrow> dns_cookie_context \<Rightarrow> bytes" where
  "compute_dns_server_cookie sip client_cookie context =
     (let prefix = [DNS_COOKIE_VERSION_1, 0, 0, 0] @ u32_bytes (now_unix_secs context)
      in prefix @ compute_dns_server_cookie_with_fields sip client_cookie prefix
           (client_ip context) (server_secret context))"

definition dns_cookie_timestamp_is_valid :: "u32 \<Rightarrow> dns_cookie_context \<Rightarrow> bool" where
  "dns_cookie_timestamp_is_valid timestamp context \<longleftrightarrow>
     now_unix_secs context - timestamp \<le> past_window_secs context \<or>
     timestamp - now_unix_secs context \<le> future_window_secs context"

definition dns_cookie_hash_matches_secret ::
  "(u64 \<Rightarrow> u64 \<Rightarrow> bytes \<Rightarrow> u64) \<Rightarrow> edns_cookie \<Rightarrow> bytes \<Rightarrow> bytes \<Rightarrow> dns_cookie_context \<Rightarrow> bool" where
  "dns_cookie_hash_matches_secret sip c server_cookie_bytes secret context \<longleftrightarrow>
     compute_dns_server_cookie_with_fields sip (client c) (take 8 server_cookie_bytes)
       (client_ip context) secret =
     sub_slice server_cookie_bytes 8 DNS_COOKIE_SERVER_V1_LEN"

definition dns_server_cookie_is_valid ::
  "(u64 \<Rightarrow> u64 \<Rightarrow> bytes \<Rightarrow> u64) \<Rightarrow> edns_cookie \<Rightarrow> dns_cookie_context \<Rightarrow> bool" where
  "dns_server_cookie_is_valid sip c context =
     (case server c of
        None \<Rightarrow> False
      | Some server_cookie \<Rightarrow>
          if unat (server_len server_cookie) \<noteq> DNS_COOKIE_SERVER_V1_LEN \<or>
             server_bytes server_cookie ! 0 \<noteq> DNS_COOKIE_VERSION_1 then False
          else
            let timestamp = be32 (server_bytes server_cookie ! 4) (server_bytes server_cookie ! 5)
                  (server_bytes server_cookie ! 6) (server_bytes server_cookie ! 7) in
            if \<not> dns_cookie_timestamp_is_valid timestamp context then False
            else dns_cookie_hash_matches_secret sip c (server_bytes server_cookie)
                   (server_secret context) context \<or>
                 (case previous_server_secret context of
                    None \<Rightarrow> False
                  | Some secret \<Rightarrow>
                      dns_cookie_hash_matches_secret sip c (server_bytes server_cookie) secret context))"

definition metadata_cookie :: "request_metadata \<Rightarrow> edns_cookie option" where
  "metadata_cookie m = (case edns m of None \<Rightarrow> None | Some e \<Rightarrow> cookie e)"

definition dns_cookie_requires_badcookie ::
  "(u64 \<Rightarrow> u64 \<Rightarrow> bytes \<Rightarrow> u64) \<Rightarrow> request_metadata \<Rightarrow> answer_options \<Rightarrow> bool" where
  "dns_cookie_requires_badcookie sip m options =
     (case dns_cookie options of
        None \<Rightarrow> False
      | Some context \<Rightarrow>
          if policy context \<noteq> Strict then False
          else (case metadata_cookie m of
                  None \<Rightarrow> False
                | Some c \<Rightarrow> \<not> dns_server_cookie_is_valid sip c context))"

definition dns_cookie_status_from_metadata ::
  "(u64 \<Rightarrow> u64 \<Rightarrow> bytes \<Rightarrow> u64) \<Rightarrow> request_metadata \<Rightarrow> dns_cookie_context option
     \<Rightarrow> dns_cookie_status option" where
  "dns_cookie_status_from_metadata sip m context =
     (case metadata_cookie m of
        None \<Rightarrow> Some NoCookie
      | Some c \<Rightarrow>
          if server c = None then Some ClientCookieOnly
          else (case context of
                  None \<Rightarrow> Some InvalidServerCookie
                | Some ctx \<Rightarrow>
                    if dns_server_cookie_is_valid sip c ctx then Some ValidServerCookie
                    else Some InvalidServerCookie))"

definition dns_cookie_request_status_from_parsed ::
  "(u64 \<Rightarrow> u64 \<Rightarrow> bytes \<Rightarrow> u64) \<Rightarrow> bytes \<Rightarrow> header \<Rightarrow> question option \<Rightarrow> dns_cookie_context option
     \<Rightarrow> dns_cookie_status option" where
  "dns_cookie_request_status_from_parsed sip packet h q context =
     (if is_response h \<or> header_opcode h \<noteq> Some Query \<or> 1 < qdcount h then None
      else if qdcount h = 0 then
        (case parse_without_question h packet of
           Inl _ \<Rightarrow> None | Inr m \<Rightarrow> dns_cookie_status_from_metadata sip m context)
      else
        (case q of
           None \<Rightarrow> None
         | Some question \<Rightarrow>
             (case parse_metadata h packet question of
                Inl _ \<Rightarrow> None | Inr m \<Rightarrow> dns_cookie_status_from_metadata sip m context)))"

definition dns_cookie_request_status ::
  "(u64 \<Rightarrow> u64 \<Rightarrow> bytes \<Rightarrow> u64) \<Rightarrow> bytes \<Rightarrow> dns_cookie_context option
     \<Rightarrow> dns_cookie_status option" where
  "dns_cookie_request_status sip packet context =
     (case parse_header packet of
        Inl _ \<Rightarrow> None
      | Inr h \<Rightarrow>
          if is_response h \<or> header_opcode h \<noteq> Some Query \<or> 1 < qdcount h then None
          else if qdcount h = 1 then
            (case parse_question packet of
               Inl _ \<Rightarrow> None
             | Inr q \<Rightarrow> dns_cookie_request_status_from_parsed sip packet h (Some q) context)
          else dns_cookie_request_status_from_parsed sip packet h None context)"

definition request_has_valid_dns_server_cookie ::
  "(u64 \<Rightarrow> u64 \<Rightarrow> bytes \<Rightarrow> u64) \<Rightarrow> bytes \<Rightarrow> dns_cookie_context \<Rightarrow> bool" where
  "request_has_valid_dns_server_cookie sip packet context \<longleftrightarrow>
     dns_cookie_request_status sip packet (Some context) = Some ValidServerCookie"

definition request_udp_payload_ceiling :: "bytes \<Rightarrow> u16 \<Rightarrow> nat option" where
  "request_udp_payload_ceiling packet max_payload =
     (case parse_header packet of
        Inl _ \<Rightarrow> None
      | Inr h \<Rightarrow>
          if is_response h \<or> 1 < qdcount h then None
          else
            (case (if qdcount h = 0 then parse_without_question h packet
                   else (case parse_question packet of
                           Inl _ \<Rightarrow> Inl EdnsFormErr
                         | Inr q \<Rightarrow> parse_metadata h packet q)) of
               Inl _ \<Rightarrow> None
             | Inr m \<Rightarrow> Some (min (unat (client_payload m)) (unat max_payload))))"

section \<open>The packet-bound request\<close>

text \<open>
  \<open>ParsedDnsRequest\<close>: the packet, its header parse, and question and metadata parsed on
  demand.  The memo cells hold functions of the packet, so the model evaluates them at each
  use; \<open>recycled\<close> is the label vector taken from the per-thread cache.
\<close>

record parsed_dns_request =
  request_packet :: bytes
  request_header :: "dns_parse_error + header"

definition request_new :: "bytes \<Rightarrow> parsed_dns_request" where
  "request_new packet = \<lparr> request_packet = packet, request_header = parse_header packet \<rparr>"

definition question_result :: "bytes list \<Rightarrow> parsed_dns_request \<Rightarrow> dns_parse_error + question" where
  "question_result recycled r = parse_question_reusing True (request_packet r) recycled"

definition request_question :: "bytes list \<Rightarrow> parsed_dns_request \<Rightarrow> question option" where
  "request_question recycled r =
     (case request_header r of
        Inl _ \<Rightarrow> None
      | Inr h \<Rightarrow>
          if qdcount h = 1 then
            (case question_result recycled r of Inl _ \<Rightarrow> None | Inr q \<Rightarrow> Some q)
          else None)"

definition request_metadata_of ::
  "bytes list \<Rightarrow> parsed_dns_request \<Rightarrow> edns_error + request_metadata" where
  "request_metadata_of recycled r =
     (case request_header r of
        Inl _ \<Rightarrow> Inl EdnsFormErr
      | Inr h \<Rightarrow>
          if qdcount h = 0 then parse_without_question h (request_packet r)
          else if qdcount h = 1 then
            (case question_result recycled r of
               Inl _ \<Rightarrow> Inl EdnsFormErr
             | Inr q \<Rightarrow> parse_metadata h (request_packet r) q)
          else Inl EdnsFormErr)"

definition udp_payload_ceiling :: "bytes list \<Rightarrow> parsed_dns_request \<Rightarrow> u16 \<Rightarrow> nat option" where
  "udp_payload_ceiling recycled r max_payload =
     (case request_header r of
        Inl _ \<Rightarrow> None
      | Inr h \<Rightarrow>
          if is_response h \<or> 1 < qdcount h then None
          else (case request_metadata_of recycled r of
                  Inl _ \<Rightarrow> None
                | Inr m \<Rightarrow> Some (unat (min (client_payload m) max_payload))))"

definition cookie_status ::
  "(u64 \<Rightarrow> u64 \<Rightarrow> bytes \<Rightarrow> u64) \<Rightarrow> bytes list \<Rightarrow> parsed_dns_request \<Rightarrow> dns_cookie_context option
     \<Rightarrow> dns_cookie_status option" where
  "cookie_status sip recycled r context =
     (case request_header r of
        Inl _ \<Rightarrow> None
      | Inr h \<Rightarrow>
          if is_response h \<or> header_opcode h \<noteq> Some Query \<or> 1 < qdcount h then None
          else (case request_metadata_of recycled r of
                  Inl _ \<Rightarrow> None
                | Inr m \<Rightarrow> dns_cookie_status_from_metadata sip m context))"

section \<open>Cookies the server accepts\<close>

lemma length_u64_le_bytes [simp, wire_len]: "length (u64_le_bytes w) = 8"
  by (simp add: u64_le_bytes_def)

lemma length_cookie_hash [simp, wire_len]:
  "length (compute_dns_server_cookie_with_fields sip c p ip secret) = 8"
  by (simp add: compute_dns_server_cookie_with_fields_def)

lemma length_compute_dns_server_cookie [simp, wire_len]:
  "length (compute_dns_server_cookie sip c ctx) = 16"
  by (simp add: compute_dns_server_cookie_def Let_def)

lemma timestamp_window_iff:
  "dns_cookie_timestamp_is_valid ts ctx \<longleftrightarrow>
     (\<exists>d. d \<le> past_window_secs ctx \<and> ts + d = now_unix_secs ctx) \<or>
     (\<exists>d. d \<le> future_window_secs ctx \<and> now_unix_secs ctx + d = ts)"
proof -
  have "(\<exists>d. d \<le> w \<and> a + d = b) \<longleftrightarrow> b - a \<le> w" for a b w :: u32
    by (metis add_diff_cancel_left' add.commute diff_add_cancel)
  then show ?thesis by (simp add: dns_cookie_timestamp_is_valid_def)
qed

definition accepts_cookie_option ::
  "(u64 \<Rightarrow> u64 \<Rightarrow> bytes \<Rightarrow> u64) \<Rightarrow> bytes \<Rightarrow> dns_cookie_context \<Rightarrow> bool" where
  "accepts_cookie_option sip data ctx =
     (case parse_edns_cookie_option data of
        Inl _ \<Rightarrow> False | Inr c \<Rightarrow> dns_server_cookie_is_valid sip c ctx)"

abbreviation usable_secret :: "dns_cookie_context \<Rightarrow> bytes \<Rightarrow> bool" where
  "usable_secret ctx secret \<equiv>
     secret = server_secret ctx \<or> previous_server_secret ctx = Some secret"

lemma accepts_cookie_split:
  assumes "length cl = 8" "length sv = 16"
  shows "accepts_cookie_option sip (cl @ sv) ctx \<longleftrightarrow>
    sv ! 0 = DNS_COOKIE_VERSION_1 \<and>
    dns_cookie_timestamp_is_valid (be32 (sv ! 4) (sv ! 5) (sv ! 6) (sv ! 7)) ctx \<and>
    (\<exists>secret. usable_secret ctx secret \<and>
       compute_dns_server_cookie_with_fields sip cl (take 8 sv) (client_ip ctx) secret = drop 8 sv)"
  using assms
  by (cases "previous_server_secret ctx")
    (auto simp: accepts_cookie_option_def parse_edns_cookie_option_def dns_server_cookie_is_valid_def
      dns_cookie_hash_matches_secret_def dns_const_defs nth_append sub_slice_def Let_def)

lemma accepts_cookie_length:
  assumes "accepts_cookie_option sip data ctx"
  shows "length data = 24"
proof -
  have "unat (of_nat (length data - 8) :: u8) = length data - 8" if "length data \<le> 40"
    using that by (intro unat_of_nat_u8) simp
  with assms show ?thesis
    by (auto simp: accepts_cookie_option_def parse_edns_cookie_option_def
        dns_server_cookie_is_valid_def dns_const_defs Let_def split: if_splits)
qed

lemma accepts_cookie_option_iff:
  "accepts_cookie_option sip data ctx \<longleftrightarrow>
     (\<exists>cl r ts secret. length cl = 8 \<and> length r = 3 \<and>
        data = cl @ ([DNS_COOKIE_VERSION_1] @ r @ u32_bytes ts) @
          compute_dns_server_cookie_with_fields sip cl ([DNS_COOKIE_VERSION_1] @ r @ u32_bytes ts)
            (client_ip ctx) secret \<and>
        dns_cookie_timestamp_is_valid ts ctx \<and> usable_secret ctx secret)"
  (is "_ = (\<exists>cl r ts secret. ?minted cl r ts secret)")
proof
  assume accepts: "accepts_cookie_option sip data ctx"
  define cl sv where "cl = take 8 data" and "sv = drop 8 data"
  have data: "data = cl @ sv" "length cl = 8" "length sv = 16"
    using accepts_cookie_length [OF accepts] by (simp_all add: cl_def sv_def)
  let ?ts = "be32 (sv ! 4) (sv ! 5) (sv ! 6) (sv ! 7)"
  from accepts data accepts_cookie_split [of cl sv] obtain secret where
    *: "sv ! 0 = DNS_COOKIE_VERSION_1" "dns_cookie_timestamp_is_valid ?ts ctx" "usable_secret ctx secret"
      "compute_dns_server_cookie_with_fields sip cl (take 8 sv) (client_ip ctx) secret = drop 8 sv"
    by auto
  have "take 8 sv = [DNS_COOKIE_VERSION_1] @ [sv ! 1, sv ! 2, sv ! 3] @ u32_bytes ?ts"
    using *(1) data(3) map_nth [of "take 8 sv", symmetric] by (simp add: upt_rec numeral_eq_Suc)
  then have "?minted cl [sv ! 1, sv ! 2, sv ! 3] ?ts secret"
    using * data by (metis append_take_drop_id length_Cons list.size(3) numeral_3_eq_3)
  then show "\<exists>cl r ts secret. ?minted cl r ts secret" by blast
next
  assume "\<exists>cl r ts secret. ?minted cl r ts secret"
  then obtain cl r ts secret where *: "?minted cl r ts secret" by blast
  then obtain r1 r2 r3 where "r = [r1, r2, r3]"
    by (auto simp: numeral_3_eq_3 length_Suc_conv)
  with * show "accepts_cookie_option sip data ctx"
    by (auto simp: accepts_cookie_split u32_bytes_def)
qed

lemma minted_cookie_accepted:
  assumes "length cl = 8" "client_ip later = client_ip ctx" "usable_secret later (server_secret ctx)"
    and "dns_cookie_timestamp_is_valid (now_unix_secs ctx) later"
  shows "accepts_cookie_option sip (cl @ compute_dns_server_cookie sip cl ctx) later"
proof -
  let ?prefix = "[DNS_COOKIE_VERSION_1] @ [0, 0, 0] @ u32_bytes (now_unix_secs ctx)"
  have "cl @ compute_dns_server_cookie sip cl ctx = cl @ ?prefix @
      compute_dns_server_cookie_with_fields sip cl ?prefix (client_ip later) (server_secret ctx)"
    using assms(2) by (simp add: compute_dns_server_cookie_def Let_def)
  with assms show ?thesis unfolding accepts_cookie_option_iff
    by (intro exI [of _ cl] exI [of _ "[0, 0, 0]"] exI [of _ "now_unix_secs ctx"]
        exI [of _ "server_secret ctx"]) simp
qed

section \<open>The packet-bound request\<close>

lemma parse_question_reusing_eq [simp]: "parse_question_reusing True packet recycled = parse_question packet"
  by (simp add: parse_question_reusing_def parse_question_def parse_reuse_eq
      parse_with_ascii_lowercase_def)

lemma question_result_eq [simp]: "question_result recycled (request_new packet) = parse_question packet"
  by (simp add: question_result_def request_new_def)

lemma request_new_simps [simp]:
  "request_packet (request_new packet) = packet" "request_header (request_new packet) = parse_header packet"
  by (simp_all add: request_new_def)

lemma qdcount_cases: "\<not> 1 < (n :: u16) \<Longrightarrow> n = 0 \<or> n = 1"
  using word_unat_eqI [of n 0] word_unat_eqI [of n 1] by (auto simp: not_less word_le_nat_alt le_Suc_eq)

lemma udp_payload_ceiling_eq:
  "udp_payload_ceiling recycled (request_new packet) max_payload =
     request_udp_payload_ceiling packet max_payload"
proof -
  have "unat (min a b) = min (unat a) (unat b)" for a b :: u16
    by (simp add: min_def word_le_nat_alt)
  then show ?thesis
    by (auto simp: udp_payload_ceiling_def request_udp_payload_ceiling_def request_metadata_of_def
        dest: qdcount_cases split: sum.splits)
qed

lemma cookie_status_eq:
  "cookie_status sip recycled (request_new packet) context =
     dns_cookie_request_status sip packet context"
  by (auto simp: cookie_status_def dns_cookie_request_status_def
      dns_cookie_request_status_from_parsed_def request_metadata_of_def
      dest: qdcount_cases split: sum.splits)


section \<open>Properties\<close>

text \<open>
  C12: the server accepts a COOKIE option exactly when it is a 24-octet option whose server part
  is version 1, carries a timestamp inside the window, and ends in the keyed hash of the client
  cookie, that prefix and the client address under the current or the previous secret.
\<close>

theorem cookie_acceptance_exact:
  "accepts_cookie_option sip data ctx \<longleftrightarrow>
     (\<exists>cl r ts secret. length cl = 8 \<and> length r = 3 \<and>
        data = cl @ ([DNS_COOKIE_VERSION_1] @ r @ u32_bytes ts) @
          compute_dns_server_cookie_with_fields sip cl ([DNS_COOKIE_VERSION_1] @ r @ u32_bytes ts)
            (client_ip ctx) secret \<and>
        dns_cookie_timestamp_is_valid ts ctx \<and> usable_secret ctx secret)"
  by (rule accepts_cookie_option_iff)

text \<open>
  C13: a cookie the server mints for a client address is accepted later from that address, also
  after one secret rotation, as long as the minting time is inside the window; a cookie of age
  at most the past window is, across the wrap of the 32-bit clock.
\<close>

theorem cookie_survives_rotation:
  assumes "length cl = 8" "client_ip later = client_ip ctx" "usable_secret later (server_secret ctx)"
    and "now_unix_secs later = now_unix_secs ctx + age" "age \<le> past_window_secs later"
  shows "accepts_cookie_option sip (cl @ compute_dns_server_cookie sip cl ctx) later"
  using assms by (intro minted_cookie_accepted) (auto simp: timestamp_window_iff)

theorem cookie_survives_rotation_witness:
  "let ctx = cookie_context_new (V4 1) (replicate 16 7) 0xffffffff;
       later = (cookie_context_new (V4 1) (replicate 16 9) 9)
                 \<lparr> previous_server_secret := Some (replicate 16 7) \<rparr>;
       sip = (\<lambda>k0 k1 bs. of_nat (length bs))
   in accepts_cookie_option sip (replicate 8 5 @ compute_dns_server_cookie sip (replicate 8 5) ctx) later"
  unfolding Let_def
  by (rule cookie_survives_rotation [where age = 10]) (simp_all add: cookie_context_new_def)

text \<open>
  C14: the packet-bound request that transports share between policy and answer generation gives
  the same UDP payload ceiling and cookie status as parsing the packet afresh, whatever label
  buffers the per-thread cache hands out.
\<close>

theorem request_cache_transparent:
  "udp_payload_ceiling recycled (request_new packet) max_payload =
     request_udp_payload_ceiling packet max_payload \<and>
   cookie_status sip recycled (request_new packet) context =
     dns_cookie_request_status sip packet context"
  by (simp add: udp_payload_ceiling_eq cookie_status_eq)

end
