(* ===== verification/Dns_Compress.thy ===== *)
theory Dns_Compress
  imports Dns_Message
begin

text \<open>
  Name compression and record encoding of \<open>crates/borondns-core/src/dns.rs\<close>: the reference
  \<open>NameCompressor\<close>, a map from case-folded suffixes to offsets, the \<open>WireNameCompressor\<close> of
  the zone-image path, a scanned list of wire-form suffix keys, and the two record encoders
  built on them.  Every name a compressor emits is shown to decode to that name up to ASCII
  case, and the two compressors to emit the same octets.
\<close>

section \<open>The reference compressor\<close>

type_synonym name_compressor = "bytes list \<Rightarrow> u16 option"

definition name_suffix_key :: "bytes list \<Rightarrow> bytes list" where
  "name_suffix_key ls = map lower_bytes ls"

text \<open>\<open>suffix_offsets.entry(key).or_insert(offset)\<close> under the 14-bit offset guard.\<close>

definition offer_suffix :: "name_compressor \<Rightarrow> bytes list \<Rightarrow> nat \<Rightarrow> name_compressor" where
  "offer_suffix nc ls offset =
     (if offset \<le> 0x3fff then
        (case nc (name_suffix_key ls) of
           None \<Rightarrow> nc(name_suffix_key ls \<mapsto> of_nat offset)
         | Some _ \<Rightarrow> nc)
      else nc)"

fun register_name_labels :: "name_compressor \<Rightarrow> bytes list \<Rightarrow> nat \<Rightarrow> name_compressor" where
  "register_name_labels nc [] offset = nc"
| "register_name_labels nc (l # ls) offset =
     register_name_labels (offer_suffix nc (l # ls) offset) ls (offset + (1 + length l))"

definition register_name_at_offset ::
  "name_compressor \<Rightarrow> domain_name \<Rightarrow> nat \<Rightarrow> name_compressor" where
  "register_name_at_offset nc n start_offset = register_name_labels nc (labels n) start_offset"

fun find_pointer_suffix :: "name_compressor \<Rightarrow> bytes list \<Rightarrow> nat \<Rightarrow> (nat \<times> u16) option" where
  "find_pointer_suffix nc [] index = None"
| "find_pointer_suffix nc (l # ls) index =
     (if name_wire_len (l # ls) \<le> 2 then find_pointer_suffix nc ls (index + 1)
      else (case nc (name_suffix_key (l # ls)) of
              Some offset \<Rightarrow> Some (index, offset)
            | None \<Rightarrow> find_pointer_suffix nc ls (index + 1)))"

fun write_labels ::
  "nat \<Rightarrow> bytes list \<Rightarrow> name_compressor \<Rightarrow> bytes \<Rightarrow> name_compressor \<times> bytes" where
  "write_labels 0 ls nc response = (nc, response)"
| "write_labels (Suc n) [] nc response = (nc, response)"
| "write_labels (Suc n) (l # ls) nc response =
     write_labels n ls (offer_suffix nc (l # ls) (length response)) (response @ encode_label l)"

definition pointer_wire :: "u16 \<Rightarrow> bytes" where
  "pointer_wire offset = u16_bytes (0xc000 OR offset)"

definition write_name ::
  "name_compressor \<Rightarrow> domain_name \<Rightarrow> bytes \<Rightarrow> name_compressor \<times> bytes" where
  "write_name nc n response =
     (let pointer_suffix = find_pointer_suffix nc (labels n) 0;
          (nc', response') =
            write_labels (case pointer_suffix of None \<Rightarrow> length (labels n) | Some (index, _) \<Rightarrow> index)
              (labels n) nc response
      in (nc', response' @
            (case pointer_suffix of Some (_, offset) \<Rightarrow> pointer_wire offset | None \<Rightarrow> [0])))"

section \<open>Record encoding with the reference compressor\<close>

record resource_record =
  owner :: domain_name
  rec_type :: u16
  rec_class :: u16
  rec_ttl :: u32
  rec_rdata :: bytes

definition encode_single_name_rdata ::
  "bytes \<Rightarrow> bytes \<Rightarrow> name_compressor \<Rightarrow> name_compressor \<times> bytes" where
  "encode_single_name_rdata rd response nc =
     (case parse_name rd 0 of
        Inl _ \<Rightarrow> (nc, response @ rd)
      | Inr (n, consumed) \<Rightarrow>
          if consumed = length rd then write_name nc n response else (nc, response @ rd))"

definition encode_soa_rdata ::
  "bytes \<Rightarrow> bytes \<Rightarrow> name_compressor \<Rightarrow> name_compressor \<times> bytes" where
  "encode_soa_rdata rd response nc =
     (case parse_name rd 0 of
        Inl _ \<Rightarrow> (nc, response @ rd)
      | Inr (mname, consumed_mname) \<Rightarrow>
          (case parse_name rd consumed_mname of
             Inl _ \<Rightarrow> (nc, response @ rd)
           | Inr (rname, consumed_rname) \<Rightarrow>
               let timers_offset = consumed_mname + consumed_rname in
               if timers_offset + 20 \<noteq> length rd then (nc, response @ rd)
               else
                 let (nc1, response1) = write_name nc mname response;
                     (nc2, response2) = write_name nc1 rname response1
                 in (nc2, response2 @ drop timers_offset rd)))"

definition encode_mx_rdata ::
  "bytes \<Rightarrow> bytes \<Rightarrow> name_compressor \<Rightarrow> name_compressor \<times> bytes" where
  "encode_mx_rdata rd response nc =
     (if length rd < 3 then (nc, response @ rd)
      else (case parse_name rd 2 of
              Inl _ \<Rightarrow> (nc, response @ rd)
            | Inr (exchange, consumed) \<Rightarrow>
                if 2 + consumed = length rd then write_name nc exchange (response @ take 2 rd)
                else (nc, response @ rd)))"

definition is_single_name_type :: "u16 \<Rightarrow> bool" where
  "is_single_name_type rt \<longleftrightarrow>
     rt = type_code RT_Ns \<or> rt = type_code RT_Cname \<or> rt = type_code RT_Ptr"

definition encode_record_rdata_parts ::
  "u16 \<Rightarrow> bytes \<Rightarrow> bytes \<Rightarrow> name_compressor \<Rightarrow> name_compressor \<times> bytes" where
  "encode_record_rdata_parts rt rd response nc =
     (if is_single_name_type rt then encode_single_name_rdata rd response nc
      else if rt = type_code RT_Soa then encode_soa_rdata rd response nc
      else if rt = type_code RT_Mx then encode_mx_rdata rd response nc
      else (nc, response @ rd))"

text \<open>\<open>response[o..o + 2].copy_from_slice(&(rdlength as u16).to_be_bytes())\<close>.\<close>

definition patch_rdlength :: "bytes \<Rightarrow> nat \<Rightarrow> nat \<Rightarrow> bytes" where
  "patch_rdlength response rdlength_offset rdlength =
     take rdlength_offset response @ u16_bytes (of_nat rdlength) @
     drop (rdlength_offset + 2) response"

definition encode_record ::
  "resource_record \<Rightarrow> bytes \<Rightarrow> name_compressor \<Rightarrow> name_compressor \<times> bytes" where
  "encode_record r response nc =
     (let (nc1, response1) = write_name nc (owner r) response;
          response2 = response1 @ u16_bytes (rec_type r) @ u16_bytes (rec_class r) @ u32_bytes (rec_ttl r);
          rdlength_offset = length response2;
          response3 = response2 @ u16_bytes 0;
          rdata_offset = length response3;
          (nc2, response4) = encode_record_rdata_parts (rec_type r) (rec_rdata r) response3 nc1;
          rdlength = length response4 - rdata_offset
      in (nc2, patch_rdlength response4 rdlength_offset rdlength))"

section \<open>The wire-form compressor\<close>

text \<open>
  The entries of \<open>suffix_offsets\<close> in push order: the lowercase wire form of a suffix and its
  offset.  The loops below walk the labels of a wire name by a cursor.
\<close>

type_synonym wire_compressor = "(bytes \<times> u16) list"

definition label_suffix_small_key :: "bytes list \<Rightarrow> bool \<Rightarrow> bytes" where
  "label_suffix_small_key ls labels_are_ascii_lowercase =
     (if labels_are_ascii_lowercase then concat (map (\<lambda>l. of_nat (length l) # l) ls)
      else concat (map (\<lambda>l. of_nat (length l) # lower_bytes l) ls)) @ [0]"

function wire_suffix_small_key_loop :: "bytes \<Rightarrow> nat \<Rightarrow> bytes" where
  "wire_suffix_small_key_loop wire cursor =
     (if cursor < length wire then
        let len = unat (wire ! cursor);
            label = sub_slice wire (cursor + 1) (cursor + 1 + len)
        in if len = 0 then [wire ! cursor]
           else wire ! cursor #
             (if list_ex is_ascii_uppercase label then lower_bytes label else label) @
             wire_suffix_small_key_loop wire (cursor + 1 + len)
      else [])"
  by pat_completeness auto
termination by (relation "measure (\<lambda>(wire, cursor). length wire - cursor)") auto

declare wire_suffix_small_key_loop.simps [simp del]

definition wire_suffix_small_key :: "bytes \<Rightarrow> bytes" where
  "wire_suffix_small_key wire_suffix = wire_suffix_small_key_loop wire_suffix 0"

definition wire_label_matches_key :: "bytes \<Rightarrow> bytes \<Rightarrow> bool" where
  "wire_label_matches_key label canonical_key_label \<longleftrightarrow>
     label = canonical_key_label \<or> eq_ignore_ascii_case label canonical_key_label"

function wire_suffix_matches_loop :: "bytes \<Rightarrow> bytes \<Rightarrow> nat \<Rightarrow> nat \<Rightarrow> bool" where
  "wire_suffix_matches_loop wire_suffix key suffix_cursor key_cursor =
     (case get_at wire_suffix suffix_cursor of
        None \<Rightarrow> False
      | Some suffix_len \<Rightarrow>
          (case get_at key key_cursor of
             None \<Rightarrow> False
           | Some key_len \<Rightarrow>
               if suffix_len \<noteq> key_len then False
               else
                 let s = suffix_cursor + 1; k = key_cursor + 1; label_len = unat suffix_len in
                 if label_len = 0 then s = length wire_suffix \<and> k = length key
                 else
                   (case get_slice wire_suffix s (s + label_len) of
                      None \<Rightarrow> False
                    | Some suffix_label \<Rightarrow>
                        (case get_slice key k (k + label_len) of
                           None \<Rightarrow> False
                         | Some key_label \<Rightarrow>
                             if \<not> wire_label_matches_key suffix_label key_label then False
                             else wire_suffix_matches_loop wire_suffix key (s + label_len) (k + label_len)))))"
  by pat_completeness auto
termination
  by (relation "measure (\<lambda>(wire_suffix, key, s, k). length wire_suffix - s)")
    (auto simp: get_at_Some_iff)

declare wire_suffix_matches_loop.simps [simp del]

definition wire_suffix_matches_key :: "bytes \<Rightarrow> bytes \<Rightarrow> bool" where
  "wire_suffix_matches_key wire_suffix key =
     (if wire_suffix = key then True else wire_suffix_matches_loop wire_suffix key 0 0)"

fun wire_suffix_offset :: "wire_compressor \<Rightarrow> bytes \<Rightarrow> u16 option" where
  "wire_suffix_offset [] wire_suffix = None"
| "wire_suffix_offset ((key, offset) # entries) wire_suffix =
     (if wire_suffix_matches_key wire_suffix key then Some offset
      else wire_suffix_offset entries wire_suffix)"

definition push_wire_suffix_offset :: "wire_compressor \<Rightarrow> bytes \<Rightarrow> u16 \<Rightarrow> wire_compressor" where
  "push_wire_suffix_offset entries wire_suffix offset =
     entries @ [(wire_suffix_small_key wire_suffix, offset)]"

fun register_labels_loop ::
  "wire_compressor \<Rightarrow> bytes list \<Rightarrow> nat \<Rightarrow> bool \<Rightarrow> nat \<Rightarrow> wire_compressor" where
  "register_labels_loop entries [] suffix_wire_len lowercase offset = entries"
| "register_labels_loop entries (l # ls) suffix_wire_len lowercase offset =
     register_labels_loop
       (if offset \<le> 0x3fff \<and> 2 < suffix_wire_len then
          entries @ [(label_suffix_small_key (l # ls) lowercase, of_nat offset)]
        else entries)
       ls (suffix_wire_len - (1 + length l)) lowercase (offset + (1 + length l))"

definition register_name_labels_at_offset ::
  "wire_compressor \<Rightarrow> bytes list \<Rightarrow> nat \<Rightarrow> bool \<Rightarrow> nat \<Rightarrow> wire_compressor" where
  "register_name_labels_at_offset entries ls wire_length labels_are_ascii_lowercase start_offset =
     register_labels_loop entries ls wire_length labels_are_ascii_lowercase start_offset"

function wire_plan_loop ::
  "wire_compressor \<Rightarrow> bytes \<Rightarrow> bool \<Rightarrow> nat \<Rightarrow> (nat \<times> u16) option
     \<Rightarrow> (nat \<times> (nat \<times> u16) option) option" where
  "wire_plan_loop entries wire check_full_suffix cursor pointer_suffix =
     (case get_at wire cursor of
        None \<Rightarrow> None
      | Some b \<Rightarrow>
          let len = unat b in
          if b AND 0xc0 \<noteq> 0 \<or> 63 < len then None
          else if len = 0 then
            (if cursor + 1 \<noteq> length wire then None
             else Some (case pointer_suffix of None \<Rightarrow> cursor | Some (label_offset, _) \<Rightarrow> label_offset,
                        pointer_suffix))
          else
            let pointer_suffix' =
                  (if (cursor \<noteq> 0 \<or> check_full_suffix) \<and> pointer_suffix = None \<and> 2 < length wire - cursor
                   then (case wire_suffix_offset entries (drop cursor wire) of
                           Some offset \<Rightarrow> Some (cursor, offset) | None \<Rightarrow> None)
                   else pointer_suffix);
                cursor' = cursor + 1 + len
            in if length wire \<le> cursor' then None
               else wire_plan_loop entries wire check_full_suffix cursor' pointer_suffix')"
  by pat_completeness auto
termination
  by (relation "measure (\<lambda>(entries, wire, check, cursor, p). length wire - cursor)")
    (auto simp: get_at_Some_iff)

declare wire_plan_loop.simps [simp del]

definition wire_name_write_plan ::
  "wire_compressor \<Rightarrow> bytes \<Rightarrow> bool \<Rightarrow> (nat \<times> (nat \<times> u16) option) option" where
  "wire_name_write_plan entries wire check_full_suffix =
     wire_plan_loop entries wire check_full_suffix 0 None"

function register_pre_pointer_loop ::
  "wire_compressor \<Rightarrow> bytes \<Rightarrow> nat \<Rightarrow> nat \<Rightarrow> nat \<Rightarrow> wire_compressor" where
  "register_pre_pointer_loop entries wire write_end response_start cursor =
     (if cursor < write_end then
        register_pre_pointer_loop
          (if response_start + cursor \<le> 0x3fff \<and> 2 < length wire - cursor then
             push_wire_suffix_offset entries (drop cursor wire) (of_nat (response_start + cursor))
           else entries)
          wire write_end response_start (cursor + (1 + unat (wire ! cursor)))
      else entries)"
  by pat_completeness auto
termination
  by (relation "measure (\<lambda>(entries, wire, write_end, start, cursor). write_end - cursor)") auto

declare register_pre_pointer_loop.simps [simp del]

definition write_wire_name :: "wire_compressor \<Rightarrow> bytes \<Rightarrow> bytes \<Rightarrow> wire_compressor \<times> bytes" where
  "write_wire_name entries wire response =
     (case (if 2 < length wire then wire_suffix_offset entries wire else None) of
        Some offset \<Rightarrow> (entries, response @ pointer_wire offset)
      | None \<Rightarrow>
          (case wire_name_write_plan entries wire False of
             None \<Rightarrow> (entries, response @ wire)
           | Some (write_end, pointer_suffix) \<Rightarrow>
               (register_pre_pointer_loop entries wire write_end (length response) 0,
                response @ take write_end wire @
                (case pointer_suffix of Some (_, offset) \<Rightarrow> pointer_wire offset | None \<Rightarrow> [0]))))"

section \<open>Record encoding with the wire-form compressor\<close>

function wire_name_len_loop :: "bytes \<Rightarrow> nat \<Rightarrow> nat \<Rightarrow> nat option" where
  "wire_name_len_loop bs offset cursor =
     (case get_at bs cursor of
        None \<Rightarrow> None
      | Some b \<Rightarrow>
          let len = unat b in
          if b AND 0xc0 \<noteq> 0 \<or> 63 < len then None
          else if len = 0 then Some (cursor + 1 - offset)
          else if length bs < cursor + 1 + len then None
          else wire_name_len_loop bs offset (cursor + 1 + len))"
  by pat_completeness auto
termination
  by (relation "measure (\<lambda>(bs, offset, cursor). length bs - cursor)") (auto simp: get_at_Some_iff)

declare wire_name_len_loop.simps [simp del]

definition wire_name_len_at :: "bytes \<Rightarrow> nat \<Rightarrow> nat option" where
  "wire_name_len_at bs offset = wire_name_len_loop bs offset offset"

text \<open>\<open>PackedRdataEncoding\<close>: a tag packed into 16 bits; the lengths of the two SOA names share it.\<close>

datatype packed_rdata_encoding = PackedRdataEncoding u16

definition packed_copy :: packed_rdata_encoding where "packed_copy = PackedRdataEncoding 0"
definition packed_single_name :: packed_rdata_encoding where "packed_single_name = PackedRdataEncoding 1"
definition packed_mx :: packed_rdata_encoding where "packed_mx = PackedRdataEncoding 2"

definition packed_soa :: "u8 \<Rightarrow> u8 \<Rightarrow> packed_rdata_encoding" where
  "packed_soa mname_len rname_len = PackedRdataEncoding (push_bit 8 (ucast mname_len) OR ucast rname_len)"

fun is_copy :: "packed_rdata_encoding \<Rightarrow> bool" where
  "is_copy (PackedRdataEncoding w) = (w = 0)"

fun is_single_name :: "packed_rdata_encoding \<Rightarrow> bool" where
  "is_single_name (PackedRdataEncoding w) = (w = 1)"

fun is_mx :: "packed_rdata_encoding \<Rightarrow> bool" where
  "is_mx (PackedRdataEncoding w) = (w = 2)"

fun soa_lengths :: "packed_rdata_encoding \<Rightarrow> (u8 \<times> u8) option" where
  "soa_lengths (PackedRdataEncoding w) =
     (if 2 < w then Some (ucast (drop_bit 8 w), ucast w) else None)"

definition zone_image_rdata_encoding :: "u16 \<Rightarrow> bytes \<Rightarrow> packed_rdata_encoding" where
  "zone_image_rdata_encoding rt rd =
     (if is_single_name_type rt then
        (if wire_name_len_at rd 0 = Some (length rd) then packed_single_name else packed_copy)
      else if rt = type_code RT_Soa then
        (case wire_name_len_at rd 0 of
           None \<Rightarrow> packed_copy
         | Some mname_len \<Rightarrow>
             (case wire_name_len_at rd mname_len of
                None \<Rightarrow> packed_copy
              | Some rname_len \<Rightarrow>
                  if mname_len + rname_len + 20 = length rd \<and> mname_len < 256 \<and> rname_len < 256
                  then packed_soa (of_nat mname_len) (of_nat rname_len)
                  else packed_copy))
      else if rt = type_code RT_Mx then
        (if 3 \<le> length rd \<and> wire_name_len_at rd 2 = Some (length rd - 2) then packed_mx
         else packed_copy)
      else packed_copy)"

record zone_image_wire_record =
  owner_wire :: bytes
  fixed_fields :: bytes
  rdlength_bytes :: bytes
  rdata_encoding :: packed_rdata_encoding
  wire_rdata :: bytes

definition encode_zone_image_wire_record_rdata ::
  "packed_rdata_encoding \<Rightarrow> bytes \<Rightarrow> bytes \<Rightarrow> wire_compressor \<Rightarrow> wire_compressor \<times> bytes" where
  "encode_zone_image_wire_record_rdata enc rd response entries =
     (if is_copy enc then (entries, response @ rd)
      else if is_single_name enc then write_wire_name entries rd response
      else (case soa_lengths enc of
              Some (m, r) \<Rightarrow>
                let mname_len = unat m; rname_len = unat r;
                    (entries1, response1) = write_wire_name entries (take mname_len rd) response;
                    (entries2, response2) =
                      write_wire_name entries1 (sub_slice rd mname_len (mname_len + rname_len)) response1
                in (entries2, response2 @ drop (mname_len + rname_len) rd)
            | None \<Rightarrow>
                if is_mx enc then write_wire_name entries (drop 2 rd) (response @ take 2 rd)
                else (entries, response)))"

definition encode_zone_image_wire_record ::
  "zone_image_wire_record \<Rightarrow> bytes \<Rightarrow> wire_compressor \<Rightarrow> wire_compressor \<times> bytes" where
  "encode_zone_image_wire_record r response entries =
     (let (entries1, response1) = write_wire_name entries (owner_wire r) response;
          response2 = response1 @ fixed_fields r
      in if is_copy (rdata_encoding r) then
           (entries1, response2 @ rdlength_bytes r @ wire_rdata r)
         else
           let rdlength_offset = length response2;
               response3 = response2 @ u16_bytes 0;
               rdata_offset = length response3;
               (entries2, response4) =
                 encode_zone_image_wire_record_rdata (rdata_encoding r) (wire_rdata r) response3 entries1;
               rdlength = length response4 - rdata_offset
           in (entries2, patch_rdlength response4 rdlength_offset rdlength))"

section \<open>Decoding what a compressor wrote\<close>

text \<open>A name at \<open>pos\<close> that is \<open>ls\<close> up to ASCII case, with at most one pointer per label.\<close>

definition decodes_as :: "bytes \<Rightarrow> nat \<Rightarrow> bytes list \<Rightarrow> nat \<Rightarrow> bool" where
  "decodes_as packet pos ls span \<longleftrightarrow>
     (\<exists>ls' hops. name_at packet pos ls' hops span \<and> map lower_bytes ls' = map lower_bytes ls \<and>
        hops \<le> length ls)"

lemma decodes_as_extend: "decodes_as packet pos ls span \<Longrightarrow> decodes_as (packet @ ext) pos ls span"
  unfolding decodes_as_def by (blast intro: name_at_extend)

lemma name_wire_len_ge: "list_all valid_label ls \<Longrightarrow> 2 * length ls < name_wire_len ls"
proof (induction ls)
  case (Cons l ls)
  then obtain k where "length l = Suc k" by (cases l) (auto simp: valid_label_def)
  with Cons show ?case by simp
qed simp

lemma name_wire_len_cong: "map lower_bytes xs = map lower_bytes ys \<Longrightarrow> name_wire_len xs = name_wire_len ys"
  by (metis name_wire_len_lower)

lemma decodes_as_parse:
  assumes "decodes_as packet pos (labels n) span" "valid_name n"
  shows "\<exists>n'. parse_name packet pos = Inr (n', span) \<and> to_ascii_lowercased n' = to_ascii_lowercased n"
proof -
  from assms(1) obtain ls hops where *: "name_at packet pos ls hops span"
    "map lower_bytes ls = map lower_bytes (labels n)" "hops \<le> length (labels n)"
    by (auto simp: decodes_as_def)
  have "2 * length (labels n) < 255 + 1" "name_wire_len ls \<le> 255"
    using assms(2) name_wire_len_ge [of "labels n"] name_wire_len_cong [OF *(2)]
    by (auto simp: valid_name_def wire_len_def)
  with * have "parse_name packet pos = Inr (DomainName ls, span)"
    by (auto simp: parse_name_iff wire_len_def)
  with *(2) show ?thesis by (auto simp: to_ascii_lowercased_def)
qed

lemma name_at_labels:
  assumes "list_all valid_label xs"
    and "name_at (pre @ concat (map encode_label xs) @ rest)
           (length pre + length (concat (map encode_label xs))) ls hops span"
  shows "name_at (pre @ concat (map encode_label xs) @ rest) (length pre) (xs @ ls) hops
           (length (concat (map encode_label xs)) + span)"
  using assms
proof (induction xs arbitrary: pre)
  case Nil
  then show ?case by simp
next
  case (Cons l xs)
  let ?len = "of_nat (length l) :: u8"
  let ?p = "pre @ concat (map encode_label (l # xs)) @ rest"
  from Cons.prems have l: "0 < length l" "length l \<le> 63" and xs: "list_all valid_label xs"
    by (simp_all add: valid_label_def [of l])
  then have len: "unat ?len = length l" by (simp add: unat_of_nat_u8)
  have at: "get_at ?p (length pre) = Some ?len" by (simp add: encode_label_def [of l])
  have tail: "name_at ?p (length pre + 1 + unat ?len) (xs @ ls) hops
      (length (concat (map encode_label xs)) + span)"
    using Cons.IH [OF xs, of "pre @ ?len # l"] Cons.prems(2) len
    by (simp add: encode_label_def [of l] ac_simps)
  have "sub_slice ?p (length pre + 1) (length pre + 1 + unat ?len) = l"
    using sub_slice_append_mid [of "pre @ [?len]" "length pre + 1" _ l "concat (map encode_label xs) @ rest"] len
    by (simp add: encode_label_def [of l])
  with name_at.label [OF at _ _ _ tail] l len show ?case by (simp add: encode_label_def [of l] ac_simps)
qed

lemma unat_and_3f: "unat ((a :: u8) AND 0x3f) = unat a mod 64"
  by (rule byte_cases) code_simp

lemma pointer_wire_decode:
  assumes "unat off \<le> 0x3fff"
  obtains a b where "pointer_wire off = [a, b]" "192 \<le> unat a" "pointer_of a b = unat off"
proof
  let ?w = "0xc000 OR off"
  have "off = take_bit 14 off"
    using assms by (intro word_unat_eqI) (simp add: unsigned_take_bit_eq take_bit_nat_eq_self)
  then have "off = off AND 0x3fff" by (simp add: take_bit_eq_mask mask_eq_exp_minus_1)
  then have "(0xc000 :: u16) AND off = off AND (0xc000 AND 0x3fff)" by (metis and.left_commute)
  then have "(0xc000 :: u16) AND off = 0" by simp
  then have "?w = 0xc000 + off" by (simp add: disjunctive_add_eq_or)
  then have w: "unat ?w = 0xc000 + unat off" using assms by (simp add: unat_word_ariths)
  show "pointer_wire off = [ucast (drop_bit 8 ?w), ucast ?w]"
    by (simp add: pointer_wire_def u16_bytes_def)
  have a: "unat (ucast (drop_bit 8 ?w) :: u8) = 192 + unat off div 256"
    using assms by (simp only: unat_ucast_u16_u8 unat_drop_bit_eq w) (simp add: drop_bit_eq_div)
  then show "192 \<le> unat (ucast (drop_bit 8 ?w) :: u8)" by simp
  have "unat ((ucast (drop_bit 8 ?w) :: u8) AND 0x3f) = unat off div 256"
    using assms mod_mult_self1 [of "unat off div 256" 3 64]
    by (simp only: unat_and_3f a) (simp add: add.commute)
  moreover have "unat (ucast ?w :: u8) = unat off mod 256"
    using mod_mult_self1 [of "unat off" 192 256]
    by (simp only: unat_ucast_u16_u8 w) (simp add: add.commute)
  ultimately show "pointer_of (ucast (drop_bit 8 ?w)) (ucast ?w) = unat off"
    by (simp add: pointer_of_eq)
qed

lemma name_at_pointer_wire:
  assumes "name_at response (unat off) ls hops span" "unat off \<le> 0x3fff"
  shows "name_at (response @ mid @ pointer_wire off @ rest) (length response + length mid) ls (Suc hops) 2"
proof -
  obtain a b where ab: "pointer_wire off = [a, b]" "192 \<le> unat a" "pointer_of a b = unat off"
    using pointer_wire_decode [OF assms(2)] .
  let ?p = "response @ mid @ pointer_wire off @ rest"
  have "get_at ?p (length response + length mid) = Some a"
    "get_at ?p (length response + length mid + 1) = Some b"
    by (simp_all add: ab get_at_def nth_append)
  moreover have "unat off < length response + length mid"
    using name_at_bound [OF assms(1)] name_at_span_pos [OF assms(1)] by simp
  moreover have "name_at ?p (unat off) ls hops span" by (rule name_at_extend [OF assms(1)])
  ultimately show ?thesis using ab by (intro name_at.pointer [of _ _ a b]) simp_all
qed

section \<open>The compressor invariant\<close>

definition compressor_ok :: "name_compressor \<Rightarrow> bytes \<Rightarrow> bool" where
  "compressor_ok nc response \<longleftrightarrow>
     (\<forall>key off. nc key = Some off \<longrightarrow> unat off \<le> 0x3fff \<and>
        (\<exists>ls hops span. name_at response (unat off) ls hops span \<and> map lower_bytes ls = key \<and>
           hops < length ls))"

lemma compressor_ok_empty: "compressor_ok Map.empty response"
  by (simp add: compressor_ok_def)

lemma compressor_ok_extend: "compressor_ok nc response \<Longrightarrow> compressor_ok nc (response @ ext)"
  unfolding compressor_ok_def by (meson name_at_extend)

lemma offer_suffix_cases:
  "offer_suffix nc ls pos key = Some off \<Longrightarrow>
     nc key = Some off \<or> key = map lower_bytes ls \<and> pos \<le> 0x3fff \<and> unat off = pos"
  by (auto simp: offer_suffix_def name_suffix_key_def unat_of_nat_u16 split: if_splits option.splits)

lemma find_pointer_suffix_Some:
  "find_pointer_suffix nc ls i = Some (j, off) \<Longrightarrow>
     i \<le> j \<and> j - i < length ls \<and> nc (map lower_bytes (drop (j - i) ls)) = Some off"
proof (induction ls arbitrary: i)
  case (Cons l ls)
  show ?case
  proof (cases "find_pointer_suffix nc ls (i + 1) = Some (j, off)")
    case True
    with Cons.IH [OF True] show ?thesis by (auto simp: Suc_diff_Suc Suc_le_eq drop_Cons')
  next
    case False
    with Cons.prems show ?thesis
      by (auto simp: name_suffix_key_def split: if_splits option.splits)
  qed
qed simp

lemma write_labels_bytes:
  "n \<le> length ls \<Longrightarrow> snd (write_labels n ls nc r) = r @ concat (map encode_label (take n ls))"
  by (induction n ls nc r rule: write_labels.induct) simp_all

lemma write_labels_length_only:
  "length r = length r' \<Longrightarrow> fst (write_labels n ls nc r) = fst (write_labels n ls nc r')"
  by (induction n ls nc r arbitrary: r' rule: write_labels.induct) simp_all

lemma write_labels_entries:
  "fst (write_labels n ls nc r) key = Some off \<Longrightarrow> n \<le> length ls \<Longrightarrow>
     nc key = Some off \<or>
     (\<exists>k<n. key = map lower_bytes (drop k ls) \<and> unat off \<le> 0x3fff \<and>
        unat off = length r + length (concat (map encode_label (take k ls))))"
proof (induction n ls nc r rule: write_labels.induct)
  case (3 n l ls nc r)
  then consider "offer_suffix nc (l # ls) (length r) key = Some off"
    | k where "k < n" "key = map lower_bytes (drop k ls)" "unat off \<le> 0x3fff"
        "unat off = length (r @ encode_label l) + length (concat (map encode_label (take k ls)))"
    by auto
  then show ?case
  proof cases
    case 1
    from offer_suffix_cases [OF this] show ?thesis by (auto intro: exI [of _ 0])
  next
    case 2
    then show ?thesis by (intro disjI2 exI [of _ "Suc k"]) auto
  qed
qed simp_all


lemma decodes_written_suffix:
  assumes valid: "list_all valid_label (take n ls)" and "k \<le> n"
    and tail: "name_at (r @ concat (map encode_label (take n ls)) @ wtail)
      (length r + length (concat (map encode_label (take n ls)))) ls' hops span"
  shows "name_at (r @ concat (map encode_label (take n ls)) @ wtail)
      (length r + length (concat (map encode_label (take k ls)))) (drop k (take n ls) @ ls') hops
      (length (concat (map encode_label (drop k (take n ls)))) + span)"
proof -
  let ?pre = "r @ concat (map encode_label (take k ls))" and ?xs = "drop k (take n ls)"
  have "take n ls = take k ls @ ?xs"
    using \<open>k \<le> n\<close> append_take_drop_id [of k "take n ls"] by (simp add: min_def)
  then have split: "concat (map encode_label (take n ls)) =
      concat (map encode_label (take k ls)) @ concat (map encode_label ?xs)"
    by (metis concat_append map_append)
  have "list_all valid_label ?xs" using valid by (metis append_take_drop_id list_all_append)
  moreover have "name_at (?pre @ concat (map encode_label ?xs) @ wtail)
      (length ?pre + length (concat (map encode_label ?xs))) ls' hops span"
    using tail by (simp add: split add.assoc)
  ultimately show ?thesis using name_at_labels [of ?xs ?pre wtail ls' hops span]
    by (simp add: split)
qed

definition written_labels :: "name_compressor \<Rightarrow> bytes list \<Rightarrow> nat" where
  "written_labels nc ls =
     (case find_pointer_suffix nc ls 0 of None \<Rightarrow> length ls | Some (index, _) \<Rightarrow> index)"

definition written_tail :: "name_compressor \<Rightarrow> bytes list \<Rightarrow> bytes" where
  "written_tail nc ls =
     (case find_pointer_suffix nc ls 0 of Some (_, offset) \<Rightarrow> pointer_wire offset | None \<Rightarrow> [0])"

lemma written_labels_le: "written_labels nc ls \<le> length ls"
  by (auto simp: written_labels_def split: option.splits dest: find_pointer_suffix_Some)

lemma write_name_eq:
  "write_name nc n r =
     (fst (write_labels (written_labels nc (labels n)) (labels n) nc r),
      r @ concat (map encode_label (take (written_labels nc (labels n)) (labels n))) @
      written_tail nc (labels n))"
  using write_labels_bytes [OF written_labels_le [of nc "labels n"], of nc r]
  by (simp add: write_name_def Let_def split_beta written_labels_def [symmetric]
      written_tail_def [symmetric])

lemma write_name_length_only:
  assumes "length r = length r'" "write_name nc n r = (nc', r @ w)"
  shows "write_name nc n r' = (nc', r' @ w)"
  using assms(2) write_labels_length_only [OF assms(1), of "written_labels nc (labels n)" "labels n" nc]
  by (simp add: write_name_eq)

lemma name_tail_decodes:
  assumes ok: "compressor_ok nc r"
  obtains ls' hops where
    "name_at (r @ mid @ written_tail nc ls) (length r + length mid) ls' hops
       (length (written_tail nc ls))"
    "map lower_bytes ls' = map lower_bytes (drop (written_labels nc ls) ls)" "hops \<le> length ls'"
proof (cases "find_pointer_suffix nc ls 0")
  case None
  have "name_at (r @ mid @ written_tail nc ls) (length r + length mid) [] 0 1"
    using None by (intro name_at.end_of_name) (simp add: get_at_def nth_append written_tail_def)
  with None that [of "[]" 0] show thesis by (simp add: written_labels_def written_tail_def)
next
  case (Some io)
  then obtain i off where p': "find_pointer_suffix nc ls 0 = Some (i, off)" by (cases io) auto
  with find_pointer_suffix_Some [OF p']
  have "nc (map lower_bytes (drop i ls)) = Some off" by simp
  from ok [unfolded compressor_ok_def, rule_format, OF this] obtain ls' hops span where
    at: "name_at r (unat off) ls' hops span" "unat off \<le> 0x3fff"
    and ls': "map lower_bytes ls' = map lower_bytes (drop i ls)" "hops < length ls'" by blast
  have "length (pointer_wire off) = 2" by (simp add: pointer_wire_def)
  with name_at_pointer_wire [OF at, of mid "[]"] ls' p' that [of ls' "Suc hops"]
  show thesis by (simp add: written_labels_def written_tail_def)
qed

lemma write_name_correct:
  assumes ok: "compressor_ok nc r" and valid: "list_all valid_label (labels n)"
    and write': "write_name nc n r = (nc', r')"
  shows "compressor_ok nc' r' \<and> (\<exists>w. r' = r @ w \<and> decodes_as r' (length r) (labels n) (length w))"
proof -
  define k where "k = written_labels nc (labels n)"
  define wtail where "wtail = written_tail nc (labels n)"
  let ?head = "concat (map encode_label (take k (labels n)))"
  have k: "k \<le> length (labels n)" unfolding k_def by (rule written_labels_le)
  have r': "r' = r @ ?head @ wtail" and nc': "nc' = fst (write_labels k (labels n) nc r)"
    using write' unfolding write_name_eq k_def wtail_def by auto
  obtain ls hops where tail: "name_at (r @ ?head @ wtail) (length r + length ?head) ls hops (length wtail)"
    and ls: "map lower_bytes ls = map lower_bytes (drop k (labels n))" "hops \<le> length ls"
    by (rule name_tail_decodes [OF ok, of ?head "labels n", folded k_def wtail_def])
  have "list_all valid_label (take k (labels n))"
    using valid append_take_drop_id [of k "labels n"] by (metis list_all_append)
  note suffix = decodes_written_suffix [OF this _ tail, folded r']
  have split: "drop j (labels n) = drop j (take k (labels n)) @ drop k (labels n)" if "j \<le> k" for j
    using that append_take_drop_id [of "k - j" "drop j (labels n)"] by (simp add: drop_take)
  have lower: "map lower_bytes (drop j (take k (labels n)) @ ls) = map lower_bytes (drop j (labels n))"
    if "j \<le> k" for j by (simp only: split [OF that] map_append ls(1))
  have "compressor_ok nc' r'"
    unfolding compressor_ok_def
  proof (intro allI impI)
    fix key off assume entry: "nc' key = Some off"
    consider "nc key = Some off"
      | j where "j < k" "key = map lower_bytes (drop j (labels n))" "unat off \<le> 0x3fff"
          "unat off = length r + length (concat (map encode_label (take j (labels n))))"
      using write_labels_entries [OF entry [unfolded nc'] k] by blast
    then show "unat off \<le> 0x3fff \<and> (\<exists>ls hops span. name_at r' (unat off) ls hops span \<and>
        map lower_bytes ls = key \<and> hops < length ls)"
    proof cases
      case 1
      with compressor_ok_extend [OF ok] show ?thesis unfolding r' compressor_ok_def by blast
    next
      case (2 j)
      then have "name_at r' (unat off) (drop j (take k (labels n)) @ ls) hops
          (length (concat (map encode_label (drop j (take k (labels n))))) + length wtail)"
        using suffix [of j] by simp
      moreover have "hops < length (drop j (take k (labels n)) @ ls)" using 2(1) k ls(2) by simp
      moreover have "map lower_bytes (drop j (take k (labels n)) @ ls) = key"
        using lower [of j] 2 by simp
      ultimately show ?thesis using 2(3) by blast
    qed
  qed
  moreover have "hops \<le> length (labels n)"
    using ls map_eq_imp_length_eq [OF ls(1)] by simp
  then have "decodes_as r' (length r) (labels n) (length (?head @ wtail))"
    using suffix [of 0] lower [of 0] unfolding decodes_as_def
    by (intro exI [of _ "take k (labels n) @ ls"] exI [of _ hops]) simp
  ultimately show ?thesis using r' by blast
qed


lemma register_name_labels_ok:
  assumes "compressor_ok nc r" "list_all valid_label ls" "r = pre @ encode_name_labels ls @ post"
  shows "compressor_ok (register_name_labels nc ls (length pre)) r"
  using assms
proof (induction ls arbitrary: nc pre)
  case (Cons l ls)
  let ?nc = "offer_suffix nc (l # ls) (length pre)"
  have "name_at r (length pre) (l # ls) 0 (name_wire_len (l # ls))"
    using name_at_encode [OF Cons.prems(2), of pre post] Cons.prems(3) by simp
  then have "compressor_ok ?nc r"
    unfolding compressor_ok_def
    using offer_suffix_cases [of nc "l # ls" "length pre"] Cons.prems(1) [unfolded compressor_ok_def]
    by (metis length_greater_0_conv list.distinct(1))
  with Cons.IH [of ?nc "pre @ of_nat (length l) # l"] Cons.prems show ?case by simp
qed simp

section \<open>Writers\<close>

text \<open>
  Encoders append to the response and keep a compressor.  What they append depends on the
  response only through its length, which is what makes the rdlength field, written as zero
  and patched afterwards, harmless.  \<open>writes good D f\<close> says that \<open>f\<close> appends, keeps the
  compressor good, and that \<open>D\<close> holds of the packet, the position and the length written.
\<close>

definition appends :: "('c \<Rightarrow> bytes \<Rightarrow> 'c \<times> bytes) \<Rightarrow> bool" where
  "appends f \<longleftrightarrow> (\<forall>c len. \<exists>c' w. \<forall>r. length r = len \<longrightarrow> f c r = (c', r @ w))"

definition writes ::
  "('c \<Rightarrow> bytes \<Rightarrow> bool) \<Rightarrow> (bytes \<Rightarrow> nat \<Rightarrow> nat \<Rightarrow> bool) \<Rightarrow> ('c \<Rightarrow> bytes \<Rightarrow> 'c \<times> bytes) \<Rightarrow> bool" where
  "writes good D f \<longleftrightarrow> appends f \<and>
     (\<forall>c r c' w. good c r \<longrightarrow> f c r = (c', r @ w) \<longrightarrow> good c' (r @ w) \<and> D (r @ w) (length r) (length w))"

definition stable :: "(bytes \<Rightarrow> nat \<Rightarrow> nat \<Rightarrow> bool) \<Rightarrow> bool" where
  "stable D \<longleftrightarrow> (\<forall>p pos len ext. D p pos len \<longrightarrow> D (p @ ext) pos len)"

definition seq_layout ::
  "(bytes \<Rightarrow> nat \<Rightarrow> nat \<Rightarrow> bool) \<Rightarrow> (bytes \<Rightarrow> nat \<Rightarrow> nat \<Rightarrow> bool) \<Rightarrow> bytes \<Rightarrow> nat \<Rightarrow> nat \<Rightarrow> bool" where
  "seq_layout D E p pos len \<longleftrightarrow> (\<exists>l m. len = l + m \<and> D p pos l \<and> E p (pos + l) m)"

definition bytes_at :: "bytes \<Rightarrow> bytes \<Rightarrow> nat \<Rightarrow> nat \<Rightarrow> bool" where
  "bytes_at bs p pos len \<longleftrightarrow> len = length bs \<and> (\<exists>pre post. p = pre @ bs @ post \<and> length pre = pos)"

definition seq_write ::
  "('c \<Rightarrow> bytes \<Rightarrow> 'c \<times> bytes) \<Rightarrow> ('c \<Rightarrow> bytes \<Rightarrow> 'c \<times> bytes) \<Rightarrow> 'c \<Rightarrow> bytes \<Rightarrow> 'c \<times> bytes" where
  "seq_write f g c r = (let (c1, r1) = f c r in g c1 r1)"

definition copy_bytes :: "bytes \<Rightarrow> 'c \<Rightarrow> bytes \<Rightarrow> 'c \<times> bytes" where
  "copy_bytes bs c r = (c, r @ bs)"

definition with_rdlength :: "('c \<Rightarrow> bytes \<Rightarrow> 'c \<times> bytes) \<Rightarrow> 'c \<Rightarrow> bytes \<Rightarrow> 'c \<times> bytes" where
  "with_rdlength f c r =
     (let r3 = r @ u16_bytes 0; (c2, r4) = f c r3
      in (c2, patch_rdlength r4 (length r) (length r4 - length r3)))"

definition rdlength_layout ::
  "(bytes \<Rightarrow> nat \<Rightarrow> nat \<Rightarrow> bool) \<Rightarrow> bytes \<Rightarrow> nat \<Rightarrow> nat \<Rightarrow> bool" where
  "rdlength_layout D p pos len \<longleftrightarrow>
     (\<exists>rdlength. len = 2 + rdlength \<and> bytes_at (u16_bytes (of_nat rdlength)) p pos 2 \<and> D p (pos + 2) rdlength)"

lemma appendsE:
  assumes "appends f"
  obtains c' w where "\<And>r. length r = len \<Longrightarrow> f c r = (c', r @ w)"
  using assms unfolding appends_def by meson

lemma writes_appends: "writes good D f \<Longrightarrow> appends f"
  by (simp add: writes_def)

lemma writesD:
  "writes good D f \<Longrightarrow> good c r \<Longrightarrow> f c r = (c', r @ w) \<Longrightarrow> good c' (r @ w) \<and> D (r @ w) (length r) (length w)"
  by (simp add: writes_def)

lemma bytes_atI: "p = pre @ bs @ post \<Longrightarrow> length pre = pos \<Longrightarrow> len = length bs \<Longrightarrow> bytes_at bs p pos len"
  unfolding bytes_at_def by blast

lemma stable_bytes_at [intro, simp]: "stable (bytes_at bs)"
  unfolding stable_def bytes_at_def by (metis append_assoc)

lemma stable_decodes_as [intro, simp]: "stable (\<lambda>p pos len. decodes_as p pos ls len)"
  by (auto simp: stable_def decodes_as_extend)

lemma stable_seq [intro, simp]: "stable D \<Longrightarrow> stable E \<Longrightarrow> stable (seq_layout D E)"
  unfolding stable_def seq_layout_def by blast

lemma stable_rdlength [intro, simp]: "stable D \<Longrightarrow> stable (rdlength_layout D)"
  using stable_bytes_at unfolding stable_def rdlength_layout_def by blast

text \<open>The shape of a record: owner name, fixed fields, and rdata as octets, names and octets.\<close>

fun names_write :: "('c \<Rightarrow> 'n \<Rightarrow> bytes \<Rightarrow> 'c \<times> bytes) \<Rightarrow> 'n list \<Rightarrow> 'c \<Rightarrow> bytes \<Rightarrow> 'c \<times> bytes" where
  "names_write wr [] = copy_bytes []"
| "names_write wr (n # ns) = seq_write (\<lambda>c. wr c n) (names_write wr ns)"

fun names_layout :: "bytes list list \<Rightarrow> bytes \<Rightarrow> nat \<Rightarrow> nat \<Rightarrow> bool" where
  "names_layout [] = bytes_at []"
| "names_layout (ls # lss) = seq_layout (\<lambda>p pos len. decodes_as p pos ls len) (names_layout lss)"

definition record_write ::
  "('c \<Rightarrow> 'n \<Rightarrow> bytes \<Rightarrow> 'c \<times> bytes) \<Rightarrow> 'n \<Rightarrow> bytes \<Rightarrow> bytes \<Rightarrow> 'n list \<Rightarrow> bytes \<Rightarrow> 'c \<Rightarrow> bytes \<Rightarrow> 'c \<times> bytes"
  where
  "record_write wr n fixed pre ns post =
     seq_write (\<lambda>c. wr c n) (seq_write (copy_bytes fixed)
       (with_rdlength (seq_write (copy_bytes pre) (seq_write (names_write wr ns) (copy_bytes post)))))"

definition rdata_layout :: "bytes \<Rightarrow> bytes list list \<Rightarrow> bytes \<Rightarrow> bytes \<Rightarrow> nat \<Rightarrow> nat \<Rightarrow> bool" where
  "rdata_layout pre lss post =
     seq_layout (bytes_at pre) (seq_layout (names_layout lss) (bytes_at post))"

definition record_layout ::
  "bytes list \<Rightarrow> bytes \<Rightarrow> bytes \<Rightarrow> bytes list list \<Rightarrow> bytes \<Rightarrow> bytes \<Rightarrow> nat \<Rightarrow> nat \<Rightarrow> bool" where
  "record_layout ols fixed pre lss post =
     seq_layout (\<lambda>p pos len. decodes_as p pos ols len)
       (seq_layout (bytes_at fixed) (rdlength_layout (rdata_layout pre lss post)))"

lemma stable_names [intro, simp]: "stable (names_layout lss)"
  by (induction lss) auto

lemma stable_record [intro, simp]: "stable (record_layout ols fixed pre lss post)"
  unfolding record_layout_def rdata_layout_def by auto

text \<open>
  The contract of a compressing name writer.  Both compressors meet it; the record encoders
  are verified against it.
\<close>

locale name_writer =
  fixes write_to :: "'c \<Rightarrow> 'n \<Rightarrow> bytes \<Rightarrow> 'c \<times> bytes"
    and good :: "'c \<Rightarrow> bytes \<Rightarrow> bool"
    and denotes :: "'n \<Rightarrow> bytes list \<Rightarrow> bool"
  assumes good_extend: "good c r \<Longrightarrow> good c (r @ ext)"
    and write_decodes: "denotes n ls \<Longrightarrow> writes good (\<lambda>p pos len. decodes_as p pos ls len) (\<lambda>c. write_to c n)"
begin

lemma writes_copy: "writes good (bytes_at bs) (copy_bytes bs)"
  unfolding writes_def appends_def copy_bytes_def
  by (auto intro: good_extend bytes_atI [where post = "[]"])

lemma writes_seq:
  assumes f: "writes good D f" and g: "writes good E g" and "stable D"
  shows "writes good (seq_layout D E) (seq_write f g)"
  unfolding writes_def
proof (intro conjI allI impI)
  show "appends (seq_write f g)"
    unfolding appends_def
  proof (intro allI)
    fix c len
    obtain c1 w1 where 1: "\<And>r. length r = len \<Longrightarrow> f c r = (c1, r @ w1)"
      using appendsE [OF writes_appends [OF f], where c = c and len = len] by blast
    obtain c2 w2 where 2: "\<And>r. length r = len + length w1 \<Longrightarrow> g c1 r = (c2, r @ w2)"
      using appendsE [OF writes_appends [OF g], where c = c1 and len = "len + length w1"] by blast
    show "\<exists>c' w. \<forall>r. length r = len \<longrightarrow> seq_write f g c r = (c', r @ w)"
      using 1 2 by (intro exI [of _ c2] exI [of _ "w1 @ w2"]) (simp add: seq_write_def)
  qed
next
  fix c r c' w assume good: "good c r" and run: "seq_write f g c r = (c', r @ w)"
  obtain c1 w1 where 1: "f c r = (c1, r @ w1)"
    using appendsE [OF writes_appends [OF f]] by metis
  obtain c2 w2 where 2: "g c1 (r @ w1) = (c2, (r @ w1) @ w2)"
    using appendsE [OF writes_appends [OF g]] by metis
  from run 1 2 have w: "c2 = c'" "w = w1 @ w2" by (simp_all add: seq_write_def)
  note D = writesD [OF f good 1]
  note E = writesD [OF g conjunct1 [OF D] 2]
  show "good c' (r @ w)" using E w by simp
  have "D (r @ w1 @ w2) (length r) (length w1)"
    using D \<open>stable D\<close> unfolding stable_def by (metis append_assoc)
  then show "seq_layout D E (r @ w) (length r) (length w)"
    using E unfolding seq_layout_def w by (intro exI [of _ "length w1"] exI [of _ "length w2"]) simp
qed

lemma writes_rdlength:
  assumes f: "writes good D f"
  shows "writes good (rdlength_layout D) (with_rdlength f)"
  unfolding writes_def
proof (intro conjI allI impI)
  have patched: "with_rdlength f c r = (c', r @ u16_bytes (of_nat (length w)) @ w)"
    if "f c (r @ u16_bytes 0) = (c', (r @ u16_bytes 0) @ w)" for c r c' w
    using that by (simp add: with_rdlength_def patch_rdlength_def)
  show "appends (with_rdlength f)"
    unfolding appends_def
  proof (intro allI)
    fix c len
    obtain c' w where "\<And>r. length r = len + 2 \<Longrightarrow> f c r = (c', r @ w)"
      using appendsE [OF writes_appends [OF f], where c = c and len = "len + 2"] by blast
    then show "\<exists>c' w. \<forall>r. length r = len \<longrightarrow> with_rdlength f c r = (c', r @ w)"
      using patched by (metis length_append length_u16_bytes)
  qed
  fix c r c' w assume good: "good c r" and run: "with_rdlength f c r = (c', r @ w)"
  obtain c1 w1 where 1: "\<And>s. length s = length r + 2 \<Longrightarrow> f c s = (c1, s @ w1)"
    using appendsE [OF writes_appends [OF f], where c = c and len = "length r + 2"] by blast
  let ?rd = "u16_bytes (of_nat (length w1))"
  have w: "c' = c1" "w = ?rd @ w1" using patched [OF 1, of r] run by simp_all
  have "good c (r @ ?rd)" by (rule good_extend [OF good])
  moreover have "f c (r @ ?rd) = (c1, (r @ ?rd) @ w1)" by (rule 1) simp
  ultimately have D: "good c1 ((r @ ?rd) @ w1) \<and> D ((r @ ?rd) @ w1) (length (r @ ?rd)) (length w1)"
    by (rule writesD [OF f])
  then show "good c' (r @ w)" by (simp add: w)
  show "rdlength_layout D (r @ w) (length r) (length w)"
    using D unfolding rdlength_layout_def w
    by (intro exI [of _ "length w1"]) (auto intro: bytes_atI [where pre = r and post = w1])
qed

lemma writes_names:
  "list_all2 denotes ns lss \<Longrightarrow> writes good (names_layout lss) (names_write write_to ns)"
  by (induction ns lss rule: list_all2_induct) (auto intro: writes_copy writes_seq write_decodes)

lemma writes_record:
  assumes "denotes n ols" "list_all2 denotes ns lss"
  shows "writes good (record_layout ols fixed pre lss post) (record_write write_to n fixed pre ns post)"
  unfolding record_layout_def rdata_layout_def record_write_def
  using assms by (intro writes_seq writes_rdlength writes_copy writes_names write_decodes) auto

end

abbreviation denotes_name :: "domain_name \<Rightarrow> bytes list \<Rightarrow> bool" where
  "denotes_name n ls \<equiv> ls = labels n \<and> list_all valid_label ls"

lemma write_name_writes:
  assumes "denotes_name n ls"
  shows "writes compressor_ok (\<lambda>p pos len. decodes_as p pos ls len) (\<lambda>nc. write_name nc n)"
  unfolding writes_def
proof (intro conjI allI impI)
  show "appends (\<lambda>nc. write_name nc n)"
    unfolding appends_def
  proof (intro allI)
    fix nc len
    have "\<exists>w. write_name nc n (replicate len 0) =
        (fst (write_name nc n (replicate len 0)), replicate len 0 @ w)"
      by (simp add: write_name_eq)
    then show "\<exists>c' w. \<forall>r. length r = len \<longrightarrow> write_name nc n r = (c', r @ w)"
      by (metis length_replicate write_name_length_only)
  qed
qed (use assms write_name_correct in fastforce)+

interpretation reference_writer: name_writer write_name compressor_ok denotes_name
  by unfold_locales (auto intro: compressor_ok_extend write_name_writes)

section \<open>Records written with the reference compressor\<close>

text \<open>The rdata of a record as octets, compressible names and octets.\<close>

definition rdata_parts :: "u16 \<Rightarrow> bytes \<Rightarrow> bytes \<times> domain_name list \<times> bytes" where
  "rdata_parts rt rd =
     (if is_single_name_type rt then
        (case parse_name rd 0 of
           Inr (n, c) \<Rightarrow> if c = length rd then ([], [n], []) else (rd, [], [])
         | Inl _ \<Rightarrow> (rd, [], []))
      else if rt = type_code RT_Soa then
        (case parse_name rd 0 of
           Inr (m, c) \<Rightarrow>
             (case parse_name rd c of
                Inr (r, d) \<Rightarrow> if c + d + 20 = length rd then ([], [m, r], drop (c + d) rd) else (rd, [], [])
              | Inl _ \<Rightarrow> (rd, [], []))
         | Inl _ \<Rightarrow> (rd, [], []))
      else if rt = type_code RT_Mx \<and> 3 \<le> length rd then
        (case parse_name rd 2 of
           Inr (n, c) \<Rightarrow> if 2 + c = length rd then (take 2 rd, [n], []) else (rd, [], [])
         | Inl _ \<Rightarrow> (rd, [], []))
      else (rd, [], []))"

lemma encode_rdata_parts:
  assumes "rdata_parts rt rd = (pre, ns, post)"
  shows "encode_record_rdata_parts rt rd r nc =
    seq_write (copy_bytes pre) (seq_write (names_write write_name ns) (copy_bytes post)) nc r"
proof -
  have neq: "type_code RT_Soa \<noteq> type_code RT_Mx" by simp
  show ?thesis using assms neq
    unfolding rdata_parts_def encode_record_rdata_parts_def encode_single_name_rdata_def
      encode_soa_rdata_def encode_mx_rdata_def
    by (auto simp: seq_write_def copy_bytes_def Let_def split_beta
        split: if_splits sum.splits prod.splits)
qed

abbreviation record_fixed_fields :: "resource_record \<Rightarrow> bytes" where
  "record_fixed_fields r \<equiv> u16_bytes (rec_type r) @ u16_bytes (rec_class r) @ u32_bytes (rec_ttl r)"

lemma encode_record_write:
  assumes "rdata_parts (rec_type r) (rec_rdata r) = (pre, ns, post)"
  shows "encode_record r response nc =
    record_write write_name (owner r) (record_fixed_fields r) pre ns post nc response"
  unfolding encode_record_def record_write_def
  by (simp add: encode_rdata_parts [OF assms] seq_write_def with_rdlength_def copy_bytes_def Let_def
      split_beta)

section \<open>Reading encoded records back\<close>

lemma name_at_span_le: "name_at packet pos ls hops span \<Longrightarrow> span \<le> name_wire_len ls + 1"
  by (induction rule: name_at.induct) (auto simp: length_sub_slice Suc_le_eq)

lemma decodes_as_bounds:
  assumes "decodes_as p pos ls len"
  shows "pos + len \<le> length p" "len \<le> name_wire_len ls + 1"
  using assms name_at_bound name_at_span_le name_wire_len_cong unfolding decodes_as_def by metis+

lemma bytes_at_bounds: "bytes_at bs p pos len \<Longrightarrow> pos + len \<le> length p \<and> len = length bs"
  by (auto simp: bytes_at_def)

lemma bytes_at_append:
  assumes "bytes_at a p pos l" "bytes_at b p (pos + l) m"
  shows "bytes_at (a @ b) p pos (l + m)"
proof -
  from assms(1) obtain pre post where 1: "p = pre @ a @ post" "length pre = pos" "l = length a"
    by (auto simp: bytes_at_def)
  from assms(2) obtain pre2 post2 where 2: "p = pre2 @ b @ post2" "length pre2 = pos + l" "m = length b"
    unfolding bytes_at_def by blast
  note * = 1 2
  then have "(pre @ a) @ post = pre2 @ b @ post2" "length (pre @ a) = length pre2" by simp_all
  then have "pre2 = pre @ a" by (metis append_eq_append_conv)
  with * show ?thesis by (intro bytes_atI [of _ pre _ post2]) simp_all
qed

lemma names_layout_bounds:
  "names_layout lss p pos len \<Longrightarrow> list_all (\<lambda>ls. name_wire_len ls \<le> 255) lss \<Longrightarrow> pos \<le> length p \<Longrightarrow>
     pos + len \<le> length p \<and> len \<le> 256 * length lss"
proof (induction lss arbitrary: pos len)
  case Nil
  then show ?case by (auto dest: bytes_at_bounds)
next
  case (Cons ls lss)
  then obtain l m where *: "len = l + m" "decodes_as p pos ls l" "names_layout lss p (pos + l) m"
    by (auto simp: seq_layout_def)
  with Cons decodes_as_bounds [OF *(2)] show ?case by fastforce
qed

lemma rdata_layout_bounds:
  assumes "rdata_layout pre lss post p pos len" "list_all (\<lambda>ls. name_wire_len ls \<le> 255) lss"
  shows "pos + len \<le> length p \<and> len \<le> length pre + 256 * length lss + length post"
proof -
  from assms(1) obtain l m k where *: "len = l + (m + k)" "bytes_at pre p pos l"
    "names_layout lss p (pos + l) m" "bytes_at post p (pos + l + m) k"
    by (auto simp: rdata_layout_def seq_layout_def)
  with bytes_at_bounds [OF *(2)] bytes_at_bounds [OF *(4)] names_layout_bounds [OF *(3) assms(2)]
  show ?thesis by auto
qed

lemma rdata_parts_valid:
  assumes "rdata_parts rt rd = (pre, ns, post)"
  shows "list_all valid_name ns \<and>
    (length pre + 256 * length ns + length post \<le> length rd \<or>
     length pre + 256 * length ns + length post \<le> 532)"
proof -
  have "valid_name n" if "parse_name rd i = Inr (n, c)" for i n c
    using parse_name_valid [OF that] by simp
  with assms show ?thesis
    unfolding rdata_parts_def by (auto simp: le_diff_conv split: if_splits sum.splits)
qed

lemma record_layout_view:
  assumes layout: "record_layout (labels n) (u16_bytes rt @ u16_bytes cl @ u32_bytes tt) pre lss post p pos len"
    and "valid_name n" and lss: "list_all (\<lambda>ls. name_wire_len ls \<le> 255) lss"
    and small: "length pre + 256 * length lss + length post < 65536"
  shows "\<exists>v. parse_record_view_inner p pos (Some n) = Inr (v, True, len) \<and>
    rr_type v = rt \<and> rr_class v = cl \<and> ttl v = tt \<and> rdata_offset v + length (rdata v) = pos + len \<and>
    rdata_layout pre lss post p (rdata_offset v) (length (rdata v))"
proof -
  let ?fixed = "u16_bytes rt @ u16_bytes cl @ u32_bytes tt"
  from layout obtain c l rl where len: "len = c + (l + (2 + rl))" and own: "decodes_as p pos (labels n) c"
    and fixed: "bytes_at ?fixed p (pos + c) l" "bytes_at (u16_bytes (of_nat rl)) p (pos + c + l) 2"
    and rd: "rdata_layout pre lss post p (pos + c + l + 2) rl"
    unfolding record_layout_def seq_layout_def rdlength_layout_def by (auto simp: add.assoc)
  from own \<open>valid_name n\<close> obtain n' where name: "parse_name p pos = Inr (n', c)"
    "to_ascii_lowercased n' = to_ascii_lowercased n" using decodes_as_parse by blast
  have l: "l = 8" using bytes_at_bounds [OF fixed(1)] by simp
  note bounds = rdata_layout_bounds [OF rd lss]
  have "bytes_at (record_fixed rt cl tt (of_nat rl)) p (pos + c) (l + 2)"
    using bytes_at_append [OF fixed] by (simp add: record_fixed_def)
  then obtain pre' rest where p: "p = pre' @ record_fixed rt cl tt (of_nat rl) @ rest" "length pre' = pos + c"
    by (auto simp: bytes_at_def)
  let ?rd = "take rl rest"
  have rl: "length ?rd = rl" "rl < 65536" using bounds small p l by auto
  have split: "p = pre' @ record_fixed rt cl tt (of_nat (length ?rd)) @ ?rd @ drop rl rest"
    unfolding rl(1) append_take_drop_id by (rule p(1))
  have pos: "length (take pos p) = pos" using bounds by simp
  let ?v = "\<lparr> owner_is_root = (labels n' = []), rr_type = rt, rr_class = cl, ttl = tt,
       rdata_offset = length pre' + 10, rdata = ?rd \<rparr>"
  have "parse_record_view_inner p pos (Some n) = Inr (?v, True, c + 10 + length ?rd)"
    using parse_record_view_inner_at [OF _ _ split, of "take pos p" n' c "Some n"] name pos p(2) rl
    by simp
  moreover have "c + 10 + length ?rd = len" "length pre' + 10 + length ?rd = pos + len"
    using len l rl(1) p(2) by simp_all
  moreover have "rdata_layout pre lss post p (length pre' + 10) (length ?rd)"
    using rd unfolding rl(1) p(2) l by (simp add: add.commute)
  ultimately show ?thesis by (intro exI [of _ ?v]) simp
qed

text \<open>
  What a reader finds at a position where record \<open>r\<close> was encoded: its owner up to case, its
  fixed fields, and rdata whose names are the record's names up to case.
\<close>

definition record_decodes :: "resource_record \<Rightarrow> bytes \<Rightarrow> nat \<Rightarrow> nat \<Rightarrow> bool" where
  "record_decodes r p pos len \<longleftrightarrow>
     (\<exists>v pre ns post. parse_record_view_inner p pos (Some (owner r)) = Inr (v, True, len) \<and>
        rr_type v = rec_type r \<and> rr_class v = rec_class r \<and> ttl v = rec_ttl r \<and>
        rdata_offset v + length (rdata v) = pos + len \<and>
        rdata_parts (rec_type r) (rec_rdata r) = (pre, ns, post) \<and>
        rdata_layout pre (map labels ns) post p (rdata_offset v) (length (rdata v)))"

abbreviation encodable :: "resource_record \<Rightarrow> bool" where
  "encodable r \<equiv> valid_name (owner r) \<and> length (rec_rdata r) < 65536"

definition record_written :: "resource_record \<Rightarrow> bytes \<Rightarrow> nat \<Rightarrow> nat \<Rightarrow> bool" where
  "record_written r =
     (case rdata_parts (rec_type r) (rec_rdata r) of (pre, ns, post) \<Rightarrow>
        record_layout (labels (owner r)) (record_fixed_fields r) pre (map labels ns) post)"

lemma stable_record_written [intro, simp]: "stable (record_written r)"
  by (simp add: record_written_def split: prod.splits)

lemma record_written_decodes:
  assumes "record_written r p pos len" "encodable r"
  shows "record_decodes r p pos len"
proof -
  obtain pre ns post where parts: "rdata_parts (rec_type r) (rec_rdata r) = (pre, ns, post)"
    by (metis prod_cases3)
  have "list_all (\<lambda>ls. name_wire_len ls \<le> 255) (map labels ns)"
    "length pre + 256 * length (map labels ns) + length post < 65536"
    using rdata_parts_valid [OF parts] assms(2)
    by (auto simp: list_all_iff valid_name_def wire_len_def)
  with record_layout_view [of "owner r"] assms parts show ?thesis
    unfolding record_decodes_def by (fastforce simp: record_written_def)
qed

lemma encode_record_writes:
  assumes "encodable r"
  shows "writes compressor_ok (record_written r) (\<lambda>nc response. encode_record r response nc)"
proof -
  obtain pre ns post where parts: "rdata_parts (rec_type r) (rec_rdata r) = (pre, ns, post)"
    by (metis prod_cases3)
  have "list_all2 denotes_name ns (map labels ns)"
    using rdata_parts_valid [OF parts] by (auto simp: list_all2_conv_all_nth list_all_length valid_name_def)
  with assms show ?thesis
    unfolding encode_record_write [OF parts] record_written_def parts
    by (simp add: reference_writer.writes_record valid_name_def)
qed

section \<open>The wire-form compressor simulates the reference compressor\<close>

lemma label_octet:
  assumes "valid_label l"
  shows "unat (of_nat (length l) :: u8) = length l" "(of_nat (length l) :: u8) AND 0xc0 = 0"
    "(of_nat (length l) :: u8) \<noteq> 0" "l \<noteq> []" "length l \<le> 63"
proof -
  from assms show "l \<noteq> []" "length l \<le> 63" by (auto simp: valid_label_def)
  then show len: "unat (of_nat (length l) :: u8) = length l" by (simp add: unat_of_nat_u8)
  with \<open>length l \<le> 63\<close> show "(of_nat (length l) :: u8) AND 0xc0 = 0" by (simp add: len_label_iff)
  from len \<open>l \<noteq> []\<close> show "(of_nat (length l) :: u8) \<noteq> 0" by (metis length_0_conv unat_0)
qed

lemma label_at:
  assumes "wire = pre @ encode_name_labels (l # ls)"
  shows "wire ! length pre = of_nat (length l)" "get_at wire (length pre) = Some (of_nat (length l))"
    "sub_slice wire (length pre + 1) (length pre + 1 + length l) = l"
    "wire = (pre @ encode_label l) @ encode_name_labels ls"
    "length wire = length pre + name_wire_len (l # ls)"
proof -
  show "sub_slice wire (length pre + 1) (length pre + 1 + length l) = l"
    using sub_slice_append_mid [of "pre @ [of_nat (length l)]" "length pre + 1" _ l "encode_name_labels ls"]
    by (simp add: assms)
qed (simp_all add: assms get_at_def encode_label_def)

lemma lower_if_upper: "(if list_ex is_ascii_uppercase l then lower_bytes l else l) = lower_bytes l"
proof -
  have "lower_bytes l = l" if "\<not> list_ex is_ascii_uppercase l"
    using that by (auto simp: lower_bytes_def to_ascii_lowercase_def list_ex_iff intro!: map_idI)
  then show ?thesis by simp
qed

lemma wire_key_loop:
  "list_all valid_label ls \<Longrightarrow>
     wire_suffix_small_key_loop (pre @ encode_name_labels ls) (length pre) =
     encode_name_labels (map lower_bytes ls)"
proof (induction ls arbitrary: pre)
  case Nil
  then show ?case by (subst wire_suffix_small_key_loop.simps) (simp add: nth_append)
next
  case (Cons l ls)
  let ?wire = "pre @ encode_name_labels (l # ls)"
  note at = label_at [OF refl, of pre l ls]
  have l: "valid_label l" and ls: "list_all valid_label ls" using Cons.prems by simp_all
  have IH: "wire_suffix_small_key_loop ?wire (length pre + 1 + length l) = encode_name_labels (map lower_bytes ls)"
    using Cons.IH [OF ls, of "pre @ encode_label l"] by (simp add: encode_label_def)
  have len: "length pre < length ?wire" unfolding at(5) by simp
  note o = label_octet [OF l]
  have "wire_suffix_small_key_loop ?wire (length pre) =
      of_nat (length l) # lower_bytes l @ wire_suffix_small_key_loop ?wire (length pre + 1 + length l)"
    unfolding wire_suffix_small_key_loop.simps [of ?wire "length pre"] Let_def at(1) o(1) at(3) lower_if_upper
    using len o(4) by simp
  with IH show ?case by simp
qed

lemma wire_suffix_small_key_encode:
  "list_all valid_label ls \<Longrightarrow>
     wire_suffix_small_key (encode_name_labels ls) = encode_name_labels (map lower_bytes ls)"
  using wire_key_loop [of ls "[]"] by (simp add: wire_suffix_small_key_def)

lemma label_suffix_small_key_encode:
  assumes "lowercase \<longrightarrow> map lower_bytes ls = ls"
  shows "label_suffix_small_key ls lowercase = encode_name_labels (map lower_bytes ls)"
proof (cases lowercase)
  case True
  with assms have eq: "map lower_bytes ls = ls" by simp
  show ?thesis unfolding eq
    by (simp add: True label_suffix_small_key_def encode_name_labels_def encode_label_def [abs_def])
qed (simp add: label_suffix_small_key_def encode_name_labels_def encode_label_def comp_def)

lemma get_slice_label:
  "wire = pre @ encode_name_labels (l # ls) \<Longrightarrow>
     get_slice wire (length pre + 1) (length pre + 1 + length l) = Some l"
  using label_at(3,5) [of wire pre l ls] by (simp add: get_slice_def)

lemma wire_matches_loop:
  "list_all valid_label ls \<Longrightarrow> list_all valid_label ks \<Longrightarrow>
     wire_suffix_matches_loop (pre @ encode_name_labels ls) (pre' @ encode_name_labels (map lower_bytes ks))
       (length pre) (length pre') \<longleftrightarrow> map lower_bytes ls = map lower_bytes ks"
proof (induction ls arbitrary: ks pre pre')
  case Nil
  show ?case
  proof (cases ks)
    case (Cons k ks')
    with Nil.prems label_octet(3) [of k] show ?thesis
      by (subst wire_suffix_matches_loop.simps) simp
  qed (subst wire_suffix_matches_loop.simps, simp)
next
  case (Cons l ls)
  have l: "valid_label l" and ls: "list_all valid_label ls" using Cons.prems by simp_all
  note o = label_octet [OF l]
  show ?case
  proof (cases ks)
    case Nil
    with o show ?thesis by (subst wire_suffix_matches_loop.simps) simp
  next
    case (Cons k ks')
    let ?w = "pre @ encode_name_labels (l # ls)"
    let ?k = "pre' @ encode_name_labels (lower_bytes k # map lower_bytes ks')"
    have k: "valid_label k" and ks': "list_all valid_label ks'" using Cons.prems(2) Cons by simp_all
    note ok = label_octet [OF k]
    have eq: "(of_nat (length l) :: u8) = of_nat (length k) \<longleftrightarrow> length l = length k"
      using o(1) ok(1) by metis
    have rest: "wire_suffix_matches_loop ?w ?k (length pre + 1 + length l) (length pre' + 1 + length k) \<longleftrightarrow>
        map lower_bytes ls = map lower_bytes ks'"
      using Cons.IH [OF ls ks', of "pre @ encode_label l" "pre' @ encode_label (lower_bytes k)"]
      by (simp add: encode_label_def)
    show ?thesis
    proof (cases "length l = length k")
      case False
      then have "lower_bytes l \<noteq> lower_bytes k" by (metis length_lower_bytes)
      with False eq Cons show ?thesis by (subst wire_suffix_matches_loop.simps) simp
    next
      case True
      have "wire_label_matches_key l (lower_bytes k) \<longleftrightarrow> lower_bytes l = lower_bytes k"
        by (auto simp: wire_label_matches_key_def eq_ignore_ascii_case_iff)
      moreover have "get_slice ?w (length pre + 1) (length pre + 1 + length k) = Some l"
        using get_slice_label [OF refl, of pre l ls] True by simp
      moreover have "get_slice ?k (length pre' + 1) (length pre' + 1 + length k) = Some (lower_bytes k)"
        using get_slice_label [OF refl, of pre' "lower_bytes k" "map lower_bytes ks'"] by simp
      moreover have "get_at ?w (length pre) = Some (of_nat (length k))"
        "get_at ?k (length pre') = Some (of_nat (length k))"
        using label_at(2) [OF refl, of pre l ls] label_at(2) [OF refl, of pre' "lower_bytes k"] True by simp_all
      ultimately show ?thesis using rest ok(1,4) True unfolding Cons list.map
        by (subst wire_suffix_matches_loop.simps) (simp add: Let_def)
    qed
  qed
qed

lemma encode_name_labels_inj:
  assumes "list_all valid_label xs" "list_all valid_label ys" "encode_name_labels xs = encode_name_labels ys"
  shows "xs = ys"
  using name_at_encode [OF assms(1), of "[]" "[]"] name_at_encode [OF assms(2), of "[]" "[]"] assms(3)
  by (auto dest: name_at_deterministic)

lemma wire_suffix_matches_key_encode:
  assumes "list_all valid_label ls" "list_all valid_label ks"
  shows "wire_suffix_matches_key (encode_name_labels ls) (encode_name_labels (map lower_bytes ks)) \<longleftrightarrow>
    map lower_bytes ls = map lower_bytes ks"
proof (cases "encode_name_labels ls = encode_name_labels (map lower_bytes ks)")
  case True
  with assms encode_name_labels_inj [of ls "map lower_bytes ks"] have "ls = map lower_bytes ks"
    by (simp add: list.pred_map comp_def)
  with True show ?thesis by (simp add: wire_suffix_matches_key_def comp_def)
next
  case False
  with wire_matches_loop [OF assms, of "[]" "[]"] show ?thesis by (simp add: wire_suffix_matches_key_def)
qed


subsection \<open>The simulation relation\<close>

text \<open>
  A list of wire entries stands for a suffix map when every key is a lowercase wire name and
  looking a wire suffix up in the list finds what the map holds for its labels.
\<close>

definition wire_key :: "bytes \<Rightarrow> bool" where
  "wire_key key \<longleftrightarrow> (\<exists>ks. list_all valid_label ks \<and> key = encode_name_labels (map lower_bytes ks))"

definition simulates :: "wire_compressor \<Rightarrow> name_compressor \<Rightarrow> bool" where
  "simulates entries nc \<longleftrightarrow>
     list_all (\<lambda>(key, _). wire_key key) entries \<and>
     (\<forall>ls. list_all valid_label ls \<longrightarrow>
        wire_suffix_offset entries (encode_name_labels ls) = nc (map lower_bytes ls))"

lemma simulatesD:
  "simulates entries nc \<Longrightarrow> list_all valid_label ls \<Longrightarrow>
     wire_suffix_offset entries (encode_name_labels ls) = nc (map lower_bytes ls)"
  by (simp add: simulates_def)

lemma simulates_empty: "simulates [] Map.empty"
  by (simp add: simulates_def)

lemma wire_suffix_offset_snoc:
  "wire_suffix_offset (entries @ [(key, off)]) w =
     (case wire_suffix_offset entries w of
        Some x \<Rightarrow> Some x
      | None \<Rightarrow> if wire_suffix_matches_key w key then Some off else None)"
  by (induction entries w rule: wire_suffix_offset.induct) (auto split: option.splits)

lemma simulates_push:
  assumes "simulates entries nc" "list_all valid_label ls"
  shows "simulates (if off \<le> 0x3fff then entries @ [(encode_name_labels (map lower_bytes ls), of_nat off)] else entries)
           (offer_suffix nc ls off)"
proof (cases "off \<le> 0x3fff")
  case True
  have "wire_suffix_offset (entries @ [(encode_name_labels (map lower_bytes ls), of_nat off)])
      (encode_name_labels ks) = offer_suffix nc ls off (map lower_bytes ks)"
    if "list_all valid_label ks" for ks
    using simulatesD [OF assms(1) that] simulatesD [OF assms] wire_suffix_matches_key_encode [OF that assms(2)] True
    by (auto simp: wire_suffix_offset_snoc offer_suffix_def name_suffix_key_def split: option.splits)
  moreover have "wire_key (encode_name_labels (map lower_bytes ls))"
    using assms(2) by (auto simp: wire_key_def)
  ultimately show ?thesis using assms(1) True by (simp add: simulates_def)
qed (use assms in \<open>simp add: offer_suffix_def\<close>)

lemma register_labels_simulates:
  assumes "simulates entries nc" "list_all valid_label ls" "wl = name_wire_len ls"
    "lowercase \<longrightarrow> map lower_bytes ls = ls"
  shows "simulates (register_labels_loop entries ls wl lowercase off) (register_name_labels nc ls off)"
  using assms
proof (induction ls arbitrary: entries nc wl off)
  case (Cons l ls)
  have long: "2 < name_wire_len (l # ls)"
    using name_wire_len_ge [OF Cons.prems(2)] by simp
  have lower: "lowercase \<longrightarrow> map lower_bytes ls = ls" using Cons.prems(4) by auto
  note key = label_suffix_small_key_encode [OF Cons.prems(4)]
  note step = simulates_push [OF Cons.prems(1,2), of off]
  show ?case
    using Cons.IH [OF step _ _ lower, of "name_wire_len ls" "off + (1 + length l)"] Cons.prems long
    by (simp add: key del: encode_name_labels_Cons list.map split: if_splits)
qed simp


subsection \<open>Writing a name\<close>

abbreviation labels_wire :: "bytes list \<Rightarrow> bytes" where
  "labels_wire ls \<equiv> concat (map encode_label ls)"

lemma encode_name_labels_split: "encode_name_labels ls = labels_wire (take k ls) @ encode_name_labels (drop k ls)"
  using append_take_drop_id [of k ls] unfolding encode_name_labels_def
  by (metis append_assoc concat_append map_append)

lemma find_pointer_suffix_shift:
  "find_pointer_suffix nc ls (i + k) = map_option (\<lambda>(j, off). (j + k, off)) (find_pointer_suffix nc ls i)"
proof (induction ls arbitrary: i)
  case (Cons l ls)
  from Cons.IH [of "i + 1"] show ?case by (auto split: option.splits)
qed simp

lemma plan_step:
  assumes "valid_label l" and w: "wire = pre @ encode_name_labels (l # ls)"
  shows "wire_plan_loop entries wire full (length pre) ptr =
    wire_plan_loop entries wire full (length (pre @ encode_label l))
      (if (pre \<noteq> [] \<or> full) \<and> ptr = None
       then (case wire_suffix_offset entries (encode_name_labels (l # ls)) of
               Some off \<Rightarrow> Some (length pre, off) | None \<Rightarrow> None)
       else ptr)"
proof -
  note o = label_octet [OF assms(1)] and at = label_at [OF w]
  have "\<not> length wire \<le> length pre + 1 + length l" "2 < length wire - length pre"
    using at(5) o(4) name_wire_len_pos [of ls] by (cases l; simp)+
  moreover have "drop (length pre) wire = encode_name_labels (l # ls)" by (simp add: w)
  ultimately show ?thesis using o at(2)
    unfolding wire_plan_loop.simps [of entries wire full "length pre" ptr]
    by (simp add: Let_def encode_label_def del: encode_name_labels_Cons)
qed

lemma plan_end:
  "wire_plan_loop entries (pre @ encode_name_labels []) full (length pre) ptr =
     Some (case ptr of None \<Rightarrow> length pre | Some (e, _) \<Rightarrow> e, ptr)"
  by (subst wire_plan_loop.simps) simp

lemma plan_after_pointer:
  "list_all valid_label ls \<Longrightarrow>
     wire_plan_loop entries (pre @ encode_name_labels ls) full (length pre) (Some p) = Some (fst p, Some p)"
proof (induction ls arbitrary: pre)
  case Nil
  then show ?case by (cases p) (simp only: plan_end, simp)
next
  case (Cons l ls)
  have "wire_plan_loop entries (pre @ encode_name_labels (l # ls)) full (length pre) (Some p) =
      wire_plan_loop entries ((pre @ encode_label l) @ encode_name_labels ls) full
        (length (pre @ encode_label l)) (Some p)" (is "?lhs = ?rhs")
    using plan_step [OF _ refl, where l = l and pre = pre and ls = ls and ptr = "Some p"] Cons.prems
    by (simp add: encode_label_def)
  also have "?rhs = Some (fst p, Some p)" using Cons by (intro Cons.IH) simp
  finally show ?case .
qed

definition plan_result :: "name_compressor \<Rightarrow> nat \<Rightarrow> bytes list \<Rightarrow> (nat \<times> (nat \<times> u16) option) option" where
  "plan_result nc start ls =
     Some (case find_pointer_suffix nc ls 0 of
             None \<Rightarrow> (start + length (labels_wire ls), None)
           | Some (k, off) \<Rightarrow> (start + length (labels_wire (take k ls)),
                             Some (start + length (labels_wire (take k ls)), off)))"

lemma plan_result_skip:
  assumes "nc (map lower_bytes (l # ls)) = None"
  shows "plan_result nc start (l # ls) = plan_result nc (start + length (encode_label l)) ls"
  using assms find_pointer_suffix_shift [of nc ls 0 1]
  by (auto simp: plan_result_def name_suffix_key_def split: option.splits)

lemma plan_before_pointer:
  assumes "simulates entries nc"
  shows "list_all valid_label ls \<Longrightarrow> pre \<noteq> [] \<Longrightarrow>
     wire_plan_loop entries (pre @ encode_name_labels ls) full (length pre) None =
     plan_result nc (length pre) ls"
proof (induction ls arbitrary: pre)
  case Nil
  then show ?case by (simp only: plan_end) (simp add: plan_result_def)
next
  case (Cons l ls)
  note step = plan_step [OF _ refl, where l = l and pre = pre and ls = ls and entries = entries and full = full and ptr = None]
  note found = simulatesD [OF assms Cons.prems(1)]
  have w: "pre @ encode_name_labels (l # ls) = (pre @ encode_label l) @ encode_name_labels ls"
    by (rule label_at(4) [OF refl])
  show ?case
  proof (cases "nc (map lower_bytes (l # ls))")
    case None
    have "wire_plan_loop entries (pre @ encode_name_labels (l # ls)) full (length pre) None =
        wire_plan_loop entries ((pre @ encode_label l) @ encode_name_labels ls) full
          (length (pre @ encode_label l)) None"
      using step found Cons.prems None unfolding w by simp
    also have "\<dots> = plan_result nc (length (pre @ encode_label l)) ls"
      using Cons.prems by (intro Cons.IH) simp_all
    also have "\<dots> = plan_result nc (length pre) (l # ls)"
      using plan_result_skip [of nc l ls "length pre"] None by simp
    finally show ?thesis .
  next
    case (Some off)
    have "2 < name_wire_len (l # ls)" using name_wire_len_ge [OF Cons.prems(1)] by simp
    then have "plan_result nc (length pre) (l # ls) = Some (length pre, Some (length pre, off))"
      using Some by (simp add: plan_result_def name_suffix_key_def)
    moreover have "wire_plan_loop entries (pre @ encode_name_labels (l # ls)) full (length pre) None =
        wire_plan_loop entries ((pre @ encode_label l) @ encode_name_labels ls) full
          (length (pre @ encode_label l)) (Some (length pre, off))"
      using step found Cons.prems Some unfolding w by simp
    moreover have "\<dots> = Some (length pre, Some (length pre, off))"
      using Cons.prems plan_after_pointer [of ls entries "pre @ encode_label l" full "(length pre, off)"] by simp
    ultimately show ?thesis by simp
  qed
qed

lemma wire_name_write_plan_encode:
  assumes "simulates entries nc" "list_all valid_label ls" "nc (map lower_bytes ls) = None"
  shows "wire_name_write_plan entries (encode_name_labels ls) False = plan_result nc 0 ls"
proof (cases ls)
  case Nil
  then show ?thesis
    using plan_end [of entries "[]" False None] by (simp add: wire_name_write_plan_def plan_result_def)
next
  case (Cons l ls')
  have "wire_name_write_plan entries (encode_name_labels ls) False =
      wire_plan_loop entries (encode_label l @ encode_name_labels ls') False (length (encode_label l)) None"
    using plan_step [OF _ refl, where l = l and pre = "[]" and ls = ls' and entries = entries and full = False and ptr = None] assms(2)
    by (simp add: wire_name_write_plan_def Cons encode_label_def)
  also have "\<dots> = plan_result nc (length (encode_label l)) ls'"
    using assms(2) Cons by (intro plan_before_pointer [OF assms(1)]) (auto simp: encode_label_def)
  finally show ?thesis using plan_result_skip [of nc l ls' 0] assms(3) Cons by simp
qed

lemma register_pre_pointer_simulates:
  assumes "simulates entries nc" "list_all valid_label ls" "k \<le> length ls"
    and "wire = pre @ encode_name_labels ls" "length r = start + length pre"
  shows "simulates
    (register_pre_pointer_loop entries wire (length pre + length (labels_wire (take k ls))) start (length pre))
    (fst (write_labels k ls nc r))"
  using assms
proof (induction k arbitrary: entries nc ls pre r)
  case 0
  then show ?case by (subst register_pre_pointer_loop.simps) simp
next
  case (Suc k)
  then obtain l ls' where ls: "ls = l # ls'" by (cases ls) auto
  have l: "valid_label l" and ls': "list_all valid_label ls'" using Suc.prems(2) ls by simp_all
  note at = label_at [OF Suc.prems(4) [unfolded ls]]
  let ?stop = "length pre + length (labels_wire (take (Suc k) ls))"
  let ?entries = "if start + length pre \<le> 0x3fff
    then entries @ [(encode_name_labels (map lower_bytes ls), of_nat (start + length pre))] else entries"
  have "2 < length wire - length pre"
    using name_wire_len_ge [OF Suc.prems(2)] at(5) ls by simp
  moreover have "drop (length pre) wire = encode_name_labels ls" using Suc.prems(4) by simp
  moreover have "length pre + (1 + unat (wire ! length pre)) = length (pre @ encode_label l)"
    using at(1) label_octet(1) [OF l] by (simp add: encode_label_def)
  moreover have "length pre < ?stop" by (simp add: ls encode_label_def)
  ultimately have loop: "register_pre_pointer_loop entries wire ?stop start (length pre) =
      register_pre_pointer_loop ?entries wire ?stop start (length (pre @ encode_label l))"
    using wire_suffix_small_key_encode [OF Suc.prems(2)]
    unfolding register_pre_pointer_loop.simps [of entries wire ?stop start "length pre"]
    by (simp add: push_wire_suffix_offset_def)
  have stop': "?stop = length (pre @ encode_label l) + length (labels_wire (take k ls'))" by (simp add: ls)
  have "simulates ?entries (offer_suffix nc ls (length r))"
    using simulates_push [OF Suc.prems(1,2), of "start + length pre"] Suc.prems(5) by simp
  then have "simulates
      (register_pre_pointer_loop ?entries wire ?stop start (length (pre @ encode_label l)))
      (fst (write_labels k ls' (offer_suffix nc ls (length r)) (r @ encode_label l)))"
    unfolding stop' using Suc.prems(3,5) at(4) ls ls' by (intro Suc.IH) auto
  then show ?case unfolding loop by (simp only: ls write_labels.simps)
qed

lemma plan_result_written:
  obtains p where "plan_result nc 0 ls = Some (length (labels_wire (take (written_labels nc ls) ls)), p)"
    "(case p of Some (_, offset) \<Rightarrow> pointer_wire offset | None \<Rightarrow> [0]) = written_tail nc ls"
proof (cases "find_pointer_suffix nc ls 0")
  case None
  then show ?thesis
    by (intro that [of None]) (simp_all add: plan_result_def written_labels_def written_tail_def)
next
  case (Some io)
  then show ?thesis
    by (intro that [of "Some (length (labels_wire (take (fst io) ls)), snd io)"])
      (simp_all add: plan_result_def written_labels_def written_tail_def split: prod.splits)
qed

lemma write_wire_name_simulates:
  assumes sim: "simulates entries nc" and valid: "list_all valid_label (labels n)"
  shows "\<exists>entries'. write_wire_name entries (to_wire n) r = (entries', snd (write_name nc n r)) \<and>
    simulates entries' (fst (write_name nc n r))"
proof -
  let ?ls = "labels n"
  note found = simulatesD [OF sim valid]
  have long: "2 < length (to_wire n) \<longleftrightarrow> ?ls \<noteq> []"
    using name_wire_len_ge [OF valid] by (cases ?ls) (auto simp: to_wire_def)
  show ?thesis
  proof (cases "?ls \<noteq> [] \<and> nc (map lower_bytes ?ls) \<noteq> None")
    case True
    then obtain l ls off where ls: "?ls = l # ls" and off: "nc (map lower_bytes ?ls) = Some off"
      by (cases ?ls) auto
    have "find_pointer_suffix nc ?ls 0 = Some (0, off)"
      using name_wire_len_ge [OF valid] off by (simp add: ls name_suffix_key_def)
    then have "write_name nc n r = (nc, r @ pointer_wire off)" by (simp add: write_name_def)
    moreover have "write_wire_name entries (to_wire n) r = (entries, r @ pointer_wire off)"
      using True long found off by (simp add: write_wire_name_def to_wire_def)
    ultimately show ?thesis using sim by simp
  next
    case False
    then have none: "?ls = [] \<or> nc (map lower_bytes ?ls) = None" by blast
    have plan: "wire_name_write_plan entries (to_wire n) False = plan_result nc 0 ?ls"
    proof (cases "?ls = []")
      case True
      then show ?thesis using plan_end [of entries "[]" False None]
        by (simp add: wire_name_write_plan_def plan_result_def to_wire_def)
    qed (use none wire_name_write_plan_encode [OF sim valid] in \<open>simp add: to_wire_def\<close>)
    let ?k = "written_labels nc ?ls"
    obtain p where p: "plan_result nc 0 ?ls = Some (length (labels_wire (take ?k ?ls)), p)"
      and tail: "(case p of Some (_, offset) \<Rightarrow> pointer_wire offset | None \<Rightarrow> [0]) = written_tail nc ?ls"
      by (rule plan_result_written)
    have lookup: "(if 2 < length (to_wire n) then wire_suffix_offset entries (to_wire n) else None) = None"
      using none long found by (auto simp: to_wire_def)
    have bytes: "take (length (labels_wire (take ?k ?ls))) (to_wire n) = labels_wire (take ?k ?ls)"
      using encode_name_labels_split [of ?ls ?k] by (simp add: to_wire_def)
    have "write_wire_name entries (to_wire n) r =
        (register_pre_pointer_loop entries (to_wire n) (length (labels_wire (take ?k ?ls))) (length r) 0,
         r @ labels_wire (take ?k ?ls) @ written_tail nc ?ls)"
      unfolding write_wire_name_def lookup by (simp add: plan p bytes tail)
    moreover have "simulates
        (register_pre_pointer_loop entries (to_wire n) (length (labels_wire (take ?k ?ls))) (length r) 0)
        (fst (write_labels ?k ?ls nc r))"
      using register_pre_pointer_simulates [OF sim valid written_labels_le, of "to_wire n" "[]" r "length r" nc]
      by (simp add: to_wire_def)
    ultimately show ?thesis by (simp add: write_name_eq)
  qed
qed

subsection \<open>The wire-form compressor as a name writer\<close>

definition wire_compressor_ok :: "wire_compressor \<Rightarrow> bytes \<Rightarrow> bool" where
  "wire_compressor_ok entries response \<longleftrightarrow> (\<exists>nc. simulates entries nc \<and> compressor_ok nc response)"

definition denotes_wire :: "bytes \<Rightarrow> bytes list \<Rightarrow> bool" where
  "denotes_wire wire ls \<longleftrightarrow> wire = encode_name_labels ls \<and> list_all valid_label ls"

lemma write_wire_name_appends: "appends (\<lambda>entries. write_wire_name entries wire)"
  unfolding appends_def
proof (intro allI)
  fix entries len
  let ?w = "write_wire_name entries wire (replicate len 0)"
  have "write_wire_name entries wire r = (fst ?w, r @ drop len (snd ?w))" if "length r = len" for r
    using that by (auto simp: write_wire_name_def split: option.splits prod.splits)
  then show "\<exists>c' w. \<forall>r. length r = len \<longrightarrow> write_wire_name entries wire r = (c', r @ w)" by blast
qed

lemma write_wire_name_writes:
  assumes "denotes_wire wire ls"
  shows "writes wire_compressor_ok (\<lambda>p pos len. decodes_as p pos ls len) (\<lambda>entries. write_wire_name entries wire)"
  unfolding writes_def
proof (intro conjI allI impI)
  fix c r c' w
  assume ok: "wire_compressor_ok c r" and run: "write_wire_name c wire r = (c', r @ w)"
  let ?n = "DomainName ls"
  from ok obtain nc where sim: "simulates c nc" and "compressor_ok nc r"
    by (auto simp: wire_compressor_ok_def)
  have valid: "list_all valid_label (labels ?n)" and wire: "wire = to_wire ?n"
    using assms by (simp_all add: denotes_wire_def to_wire_def)
  from write_wire_name_simulates [OF sim valid, of r] run wire
  have snd: "snd (write_name nc ?n r) = r @ w" and sim': "simulates c' (fst (write_name nc ?n r))" by auto
  from write_name_correct [OF \<open>compressor_ok nc r\<close> valid] snd
  have "compressor_ok (fst (write_name nc ?n r)) (r @ w)" "decodes_as (r @ w) (length r) ls (length w)"
    by (metis append_same_eq same_append_eq domain_name.sel prod.collapse)+
  with sim' show "wire_compressor_ok c' (r @ w)" "decodes_as (r @ w) (length r) ls (length w)"
    by (auto simp: wire_compressor_ok_def)
qed (rule write_wire_name_appends)

lemma wire_compressor_ok_extend: "wire_compressor_ok c r \<Longrightarrow> wire_compressor_ok c (r @ ext)"
  unfolding wire_compressor_ok_def by (blast intro: compressor_ok_extend)

interpretation wire_writer: name_writer write_wire_name wire_compressor_ok denotes_wire
  by unfold_locales (rule wire_compressor_ok_extend, assumption, rule write_wire_name_writes)

subsection \<open>Both record encoders write the same octets\<close>

definition same_octets ::
  "(name_compressor \<Rightarrow> bytes \<Rightarrow> name_compressor \<times> bytes) \<Rightarrow>
   (wire_compressor \<Rightarrow> bytes \<Rightarrow> wire_compressor \<times> bytes) \<Rightarrow> bool" where
  "same_octets f g \<longleftrightarrow> (\<forall>entries nc r. simulates entries nc \<longrightarrow>
     snd (g entries r) = snd (f nc r) \<and> simulates (fst (g entries r)) (fst (f nc r)))"

lemma same_octets_copy: "same_octets (copy_bytes bs) (copy_bytes bs)"
  by (simp add: same_octets_def copy_bytes_def)

lemma same_octets_seq:
  "same_octets f g \<Longrightarrow> same_octets f' g' \<Longrightarrow> same_octets (seq_write f f') (seq_write g g')"
  by (simp add: same_octets_def seq_write_def split_beta)

lemma same_octets_rdlength: "same_octets f g \<Longrightarrow> same_octets (with_rdlength f) (with_rdlength g)"
  by (simp add: same_octets_def with_rdlength_def split_beta Let_def)

lemma same_octets_name:
  "list_all valid_label (labels n) \<Longrightarrow>
     same_octets (\<lambda>nc. write_name nc n) (\<lambda>entries. write_wire_name entries (to_wire n))"
  unfolding same_octets_def using write_wire_name_simulates by (metis fst_conv snd_conv)

lemma same_octets_names:
  "list_all valid_name ns \<Longrightarrow> same_octets (names_write write_name ns) (names_write write_wire_name (map to_wire ns))"
  by (induction ns) (auto intro: same_octets_copy same_octets_seq same_octets_name simp: valid_name_def)

lemma same_octets_record:
  "valid_name n \<Longrightarrow> list_all valid_name ns \<Longrightarrow>
     same_octets (record_write write_name n fixed pre ns post)
       (record_write write_wire_name (to_wire n) fixed pre (map to_wire ns) post)"
  unfolding record_write_def
  by (intro same_octets_seq same_octets_rdlength same_octets_copy same_octets_names same_octets_name)
    (auto simp: valid_name_def)

text \<open>Zone data holds rdata whose embedded names are stored uncompressed.\<close>

definition stored_rdata :: "u16 \<Rightarrow> bytes \<Rightarrow> bool" where
  "stored_rdata rt rd \<longleftrightarrow>
     (if is_single_name_type rt then \<exists>n. valid_name n \<and> rd = to_wire n
      else if rt = type_code RT_Soa then
        \<exists>m r timers. valid_name m \<and> valid_name r \<and> length timers = 20 \<and> rd = to_wire m @ to_wire r @ timers
      else if rt = type_code RT_Mx then \<exists>p n. length p = 2 \<and> valid_name n \<and> rd = p @ to_wire n
      else True)"

definition wire_record_of :: "resource_record \<Rightarrow> zone_image_wire_record" where
  "wire_record_of r = \<lparr> owner_wire = to_wire (owner r), fixed_fields = record_fixed_fields r,
     rdlength_bytes = u16_bytes (of_nat (length (rec_rdata r))),
     rdata_encoding = zone_image_rdata_encoding (rec_type r) (rec_rdata r),
     wire_rdata = rec_rdata r \<rparr>"

lemma wire_name_len_loop_encode:
  "list_all valid_label ls \<Longrightarrow>
     wire_name_len_loop (pre @ encode_name_labels ls @ post) offset (length pre) =
     Some (length pre + name_wire_len ls - offset)"
proof (induction ls arbitrary: pre)
  case Nil
  then show ?case by (subst wire_name_len_loop.simps) simp
next
  case (Cons l ls)
  then have l: "valid_label l" by simp
  have "wire_name_len_loop (pre @ encode_name_labels (l # ls) @ post) offset (length pre) =
      wire_name_len_loop ((pre @ encode_label l) @ encode_name_labels ls @ post) offset (length (pre @ encode_label l))"
    using label_octet [OF l] by (subst wire_name_len_loop.simps) (simp add: Let_def encode_label_def)
  also have "\<dots> = Some (length (pre @ encode_label l) + name_wire_len ls - offset)"
    using Cons by (intro Cons.IH) simp
  finally show ?case by (simp add: encode_label_def)
qed

lemma wire_name_len_at_wire:
  "valid_name n \<Longrightarrow> wire_name_len_at (pre @ to_wire n @ post) (length pre) = Some (wire_len n)"
  using wire_name_len_loop_encode [of "labels n" pre post "length pre"]
  by (simp add: wire_name_len_at_def to_wire_def wire_len_def valid_name_def)

lemma packed_soa_be16: "packed_soa m r = PackedRdataEncoding (be16 m r)"
proof -
  have "push_bit 8 (ucast m :: u16) AND ucast r = 0"
    by (rule bit_eqI) (auto simp: bit_simps dest: bit_imp_le_length)
  then have "push_bit 8 (ucast m :: u16) OR ucast r = push_bit 8 (ucast m) + ucast r"
    by (simp add: disjunctive_add_eq_or)
  then show ?thesis by (simp add: packed_soa_def be16_def push_bit_eq_mult)
qed

lemma packed_soa_lengths:
  assumes "0 < unat m"
  shows "soa_lengths (packed_soa m r) = Some (m, r)" "\<not> is_copy (packed_soa m r)"
    "\<not> is_single_name (packed_soa m r)"
proof -
  have "2 < unat (be16 m r)" using assms by (simp add: unat_be16)
  then show "soa_lengths (packed_soa m r) = Some (m, r)" "\<not> is_copy (packed_soa m r)"
    "\<not> is_single_name (packed_soa m r)"
    by (auto simp: packed_soa_be16 ucast_drop_be16 ucast_be16 word_less_nat_alt)
qed

lemma wire_len_bounds: "valid_name n \<Longrightarrow> 0 < wire_len n \<and> wire_len n \<le> 255"
  by (simp add: valid_name_def wire_len_def)

text \<open>On stored rdata the packed encoding splits the rdata where the reference encoder does.\<close>

lemma encode_wire_rdata_parts:
  assumes "stored_rdata rt rd" "rdata_parts rt rd = (pre, ns, post)"
  shows "if is_copy (zone_image_rdata_encoding rt rd) then pre = rd \<and> ns = [] \<and> post = []
    else encode_zone_image_wire_record_rdata (zone_image_rdata_encoding rt rd) rd r entries =
      seq_write (copy_bytes pre) (seq_write (names_write write_wire_name (map to_wire ns)) (copy_bytes post)) entries r"
proof -
  consider (single) n where "is_single_name_type rt" "valid_name n" "rd = to_wire n"
    | (soa) m n t where "\<not> is_single_name_type rt" "rt = type_code RT_Soa" "valid_name m" "valid_name n"
        "length t = 20" "rd = to_wire m @ to_wire n @ t"
    | (mx) p n where "\<not> is_single_name_type rt" "rt = type_code RT_Mx" "length p = 2" "valid_name n" "rd = p @ to_wire n"
    | (other) "\<not> is_single_name_type rt" "rt \<noteq> type_code RT_Soa" "rt \<noteq> type_code RT_Mx"
    using assms(1) unfolding stored_rdata_def by (auto split: if_splits)
  then show ?thesis
  proof cases
    case single
    then show ?thesis
      using assms(2) parse_to_wire [of n "[]" "[]"] wire_name_len_at_wire [of n "[]" "[]"]
      by (auto simp: rdata_parts_def zone_image_rdata_encoding_def packed_single_name_def
          encode_zone_image_wire_record_rdata_def seq_write_def copy_bytes_def split_beta)
  next
    case soa
    have len: "unat (of_nat (wire_len m) :: u8) = wire_len m" "unat (of_nat (wire_len n) :: u8) = wire_len n"
      using wire_len_bounds [OF soa(3)] wire_len_bounds [OF soa(4)] by (simp_all add: unat_of_nat_u8)
    then have "0 < unat (of_nat (wire_len m) :: u8)" using wire_len_bounds [OF soa(3)] by simp
    note packed = packed_soa_lengths [OF this, of "of_nat (wire_len n)"]
    have enc: "zone_image_rdata_encoding rt rd = packed_soa (of_nat (wire_len m)) (of_nat (wire_len n))"
      using soa wire_len_bounds [OF soa(3)] wire_len_bounds [OF soa(4)] wire_name_len_at_wire [of m "[]" "to_wire n @ t"]
        wire_name_len_at_wire [of n "to_wire m" t] by (simp add: zone_image_rdata_encoding_def)
    have "(pre, ns, post) = ([], [m, n], t)"
      using soa assms(2) parse_to_wire [of m "[]" "to_wire n @ t"] parse_to_wire [of n "to_wire m" t]
      by (simp add: rdata_parts_def)
    then show ?thesis using packed len unfolding enc
      by (simp add: encode_zone_image_wire_record_rdata_def seq_write_def copy_bytes_def split_beta Let_def
          soa(6) sub_slice_append_mid)
  next
    case mx
    have "3 \<le> length rd" using mx wire_len_bounds [OF mx(4)] by simp
    with mx show ?thesis
      using assms(2) parse_to_wire [of n p "[]"] wire_name_len_at_wire [of n p "[]"]
      by (auto simp: rdata_parts_def zone_image_rdata_encoding_def packed_mx_def
          encode_zone_image_wire_record_rdata_def seq_write_def copy_bytes_def split_beta)
  next
    case other
    with assms(2) show ?thesis by (simp add: rdata_parts_def zone_image_rdata_encoding_def packed_copy_def)
  qed
qed

lemma encode_wire_record_write:
  assumes "stored_rdata (rec_type r) (rec_rdata r)"
    and "rdata_parts (rec_type r) (rec_rdata r) = (pre, ns, post)"
  shows "encode_zone_image_wire_record (wire_record_of r) response entries =
    record_write write_wire_name (to_wire (owner r)) (record_fixed_fields r) pre (map to_wire ns) post
      entries response"
proof -
  note parts = encode_wire_rdata_parts [OF assms]
  show ?thesis
  proof (cases "is_copy (zone_image_rdata_encoding (rec_type r) (rec_rdata r))")
    case True
    with parts show ?thesis
      by (simp add: encode_zone_image_wire_record_def wire_record_of_def record_write_def seq_write_def
          copy_bytes_def with_rdlength_def patch_rdlength_def split_beta Let_def)
  next
    case False
    with parts show ?thesis
      by (simp add: encode_zone_image_wire_record_def wire_record_of_def record_write_def seq_write_def
          copy_bytes_def with_rdlength_def split_beta Let_def)
  qed
qed

lemma encode_wire_record_same:
  assumes "valid_name (owner r)" "stored_rdata (rec_type r) (rec_rdata r)"
  shows "same_octets (\<lambda>nc response. encode_record r response nc)
    (\<lambda>entries response. encode_zone_image_wire_record (wire_record_of r) response entries)"
proof -
  obtain pre ns post where parts: "rdata_parts (rec_type r) (rec_rdata r) = (pre, ns, post)"
    by (metis prod_cases3)
  show ?thesis
    unfolding encode_record_write [OF parts] encode_wire_record_write [OF assms(2) parts]
    using same_octets_record assms(1) rdata_parts_valid [OF parts] by simp
qed


section \<open>Properties\<close>

text \<open>
  C15: a compressed name reads back.  Whatever suffixes a response has already offered, the
  octets the compressor appends for a valid name decode, in place, to that name up to ASCII
  case, consume exactly the octets appended, and leave every recorded suffix readable.
\<close>

theorem compressed_name_reads_back:
  assumes "compressor_ok nc response" "valid_name n" "write_name nc n response = (nc', response')"
  shows "\<exists>w n'. response' = response @ w \<and> compressor_ok nc' response' \<and>
    parse_name response' (length response) = Inr (n', length w) \<and>
    to_ascii_lowercased n' = to_ascii_lowercased n"
proof -
  from assms(2) have "list_all valid_label (labels n)" by (simp add: valid_name_def)
  with write_name_correct [OF assms(1) _ assms(3)] decodes_as_parse assms(2) show ?thesis by blast
qed

theorem compressed_name_reads_back_witness:
  "\<exists>w n'. snd (write_name Map.empty (DomainName [[0x61], [0x42]]) [9]) = [9] @ w \<and>
    compressor_ok (fst (write_name Map.empty (DomainName [[0x61], [0x42]]) [9]))
      (snd (write_name Map.empty (DomainName [[0x61], [0x42]]) [9])) \<and>
    parse_name (snd (write_name Map.empty (DomainName [[0x61], [0x42]]) [9])) 1 = Inr (n', length w) \<and>
    to_ascii_lowercased n' = to_ascii_lowercased (DomainName [[0x61], [0x42]])"
  using compressed_name_reads_back [of Map.empty "[9]" "DomainName [[0x61], [0x42]]"]
  by (simp add: compressor_ok_empty valid_name_def valid_label_def wire_len_def)

text \<open>
  C16: an encoded record reads back.  The record view found where the reference encoder wrote
  has the record's type, class and TTL, its owner up to case, an rdlength that spans exactly
  the written rdata, and rdata whose embedded names are the record's up to case; the suffix
  table stays valid over the patched length field.
\<close>

theorem encoded_record_reads_back:
  assumes "compressor_ok nc response" "encodable r" "encode_record r response nc = (nc', response')"
  shows "\<exists>w. response' = response @ w \<and> compressor_ok nc' response' \<and>
    record_decodes r response' (length response) (length w)"
proof -
  note writes = encode_record_writes [OF assms(2)]
  obtain w where w: "response' = response @ w"
    using appendsE [OF writes_appends [OF writes], where c = nc and len = "length response"] assms(3)
    by (metis prod.inject)
  with writesD [OF writes, of nc response nc' w] assms(1,3) record_written_decodes [OF _ assms(2)]
  show ?thesis by blast
qed

theorem encoded_record_reads_back_witness:
  "let r = \<lparr> owner = DomainName [[0x61]], rec_type = 2, rec_class = 1, rec_ttl = 60,
             rec_rdata = [1, 0x62, 1, 0x41, 0] \<rparr>
   in \<exists>w. snd (encode_record r [7] Map.empty) = [7] @ w \<and>
        compressor_ok (fst (encode_record r [7] Map.empty)) (snd (encode_record r [7] Map.empty)) \<and>
        record_decodes r (snd (encode_record r [7] Map.empty)) 1 (length w)"
  unfolding Let_def
  using encoded_record_reads_back [of Map.empty "[7]" "\<lparr> owner = DomainName [[0x61]], rec_type = 2,
      rec_class = 1, rec_ttl = 60, rec_rdata = [1, 0x62, 1, 0x41, 0] \<rparr>"]
  by (simp add: compressor_ok_empty valid_name_def valid_label_def wire_len_def)

text \<open>
  C17: the zone-image encoder is the reference encoder.  With a wire-form suffix list that
  stands for the reference suffix map, and rdata stored with uncompressed names, both append
  the same octets for a record, and afterwards the list stands for the map again.
\<close>

theorem zone_image_encoder_refines_reference:
  assumes "simulates entries nc" "valid_name (owner r)" "stored_rdata (rec_type r) (rec_rdata r)"
  shows "snd (encode_zone_image_wire_record (wire_record_of r) response entries) =
      snd (encode_record r response nc) \<and>
    simulates (fst (encode_zone_image_wire_record (wire_record_of r) response entries))
      (fst (encode_record r response nc))"
  using encode_wire_record_same [OF assms(2,3)] assms(1) by (simp add: same_octets_def)

theorem zone_image_encoder_refines_reference_witness:
  "let r = \<lparr> owner = DomainName [[0x61]], rec_type = 1, rec_class = 1, rec_ttl = 60,
             rec_rdata = [192, 0, 2, 1] \<rparr>
   in snd (encode_zone_image_wire_record (wire_record_of r) [7] []) =
      snd (encode_record r [7] Map.empty)"
  unfolding Let_def
  using zone_image_encoder_refines_reference [OF simulates_empty, of "\<lparr> owner = DomainName [[0x61]],
      rec_type = 1, rec_class = 1, rec_ttl = 60, rec_rdata = [192, 0, 2, 1] \<rparr>" "[7]"]
  by (simp add: valid_name_def valid_label_def wire_len_def stored_rdata_def is_single_name_type_def)

end
