(* ===== verification/Dns_Response.thy ===== *)
theory Dns_Response
  imports Dns_Cookie Dns_Compress "HOL-Library.Sublist"
begin

text \<open>
  Building responses, from \<open>crates/borondns-core/src/dns.rs\<close>: the OPT record of a response with
  its options and padding, the empty, failure and record-carrying responses, and the truncation
  loop that fits a UDP response under its ceiling.
\<close>

section \<open>The OPT record of a response\<close>

record edns_base_shape =
  base_tcp_keepalive_response :: bool
  base_nsid_len :: nat
  base_cookie_response :: bool
  base_extended_dns_error :: "extended_dns_error option"
  base_rdata_len :: nat

record edns_options_shape =
  shape_tcp_keepalive_response :: bool
  shape_nsid_len :: nat
  shape_cookie_response :: bool
  shape_extended_dns_error :: "extended_dns_error option"
  shape_padding_len :: "nat option"
  shape_rdata_len :: nat

definition edns_response_base_shape ::
  "edns_metadata \<Rightarrow> answer_options \<Rightarrow> extended_dns_error option \<Rightarrow> edns_base_shape" where
  "edns_response_base_shape ed options ede =
     (let keepalive = transport options \<noteq> Udp \<and> tcp_keepalive_requested ed;
          nsid_len = (if nsid_requested ed \<and> nsid options \<noteq> [] then length (nsid options) else 0);
          cookie_response = (cookie ed \<noteq> None \<and> dns_cookie options \<noteq> None);
          ede' = (if extended_dns_errors options = EdeMinimal then ede else None);
          len0 = (if keepalive then 6 else 0);
          len1 = (if 0 < nsid_len then len0 + 4 + nsid_len else len0);
          len2 = (if cookie_response then len1 + 4 + DNS_COOKIE_CLIENT_LEN + DNS_COOKIE_SERVER_V1_LEN
                  else len1);
          len3 = (if ede' \<noteq> None then len2 + 6 else len2)
      in \<lparr> base_tcp_keepalive_response = keepalive, base_nsid_len = nsid_len,
           base_cookie_response = cookie_response, base_extended_dns_error = ede',
           base_rdata_len = len3 \<rparr>)"

definition edns_response_options_shape_from_base ::
  "edns_metadata \<Rightarrow> answer_options \<Rightarrow> edns_base_shape \<Rightarrow> nat \<Rightarrow> nat
     \<Rightarrow> edns_options_shape" where
  "edns_response_options_shape_from_base ed options base response_len_before_opt ceiling =
     (let (padding_len, rdata_len) =
        (if transport options = Tls \<and> padding_requested ed \<and> 0 < edns_padding_block_size options then
           let block_size = unat (edns_padding_block_size options);
               total = response_len_before_opt + 11 + base_rdata_len base + 4;
               padding = (block_size - total mod block_size) mod block_size
           in if transport options = Udp \<and> ceiling < total + padding then (None, base_rdata_len base)
              else (Some padding, base_rdata_len base + 4 + padding)
         else (None, base_rdata_len base))
      in \<lparr> shape_tcp_keepalive_response = base_tcp_keepalive_response base,
           shape_nsid_len = base_nsid_len base, shape_cookie_response = base_cookie_response base,
           shape_extended_dns_error = base_extended_dns_error base, shape_padding_len = padding_len,
           shape_rdata_len = rdata_len \<rparr>)"

definition append_edns_padding :: "nat \<Rightarrow> bytes" where
  "append_edns_padding padding_len =
     u16_bytes EDNS_PADDING_OPTION @ u16_bytes (of_nat padding_len) @ replicate padding_len 0"

definition keepalive_timeout_units :: "answer_options \<Rightarrow> u16" where
  "keepalive_timeout_units options =
     of_nat (min (min (unat (tcp_keepalive_timeout_secs options) * 10) (2 ^ 64 - 1)) 65535)"

text \<open>
  The options in the order they are appended.  The cookie and the context are present whenever
  the shape asks for a cookie, so the \<open>expect\<close> calls of the source do not fire.
\<close>

definition append_edns_response_options ::
  "(u64 \<Rightarrow> u64 \<Rightarrow> bytes \<Rightarrow> u64) \<Rightarrow> edns_metadata \<Rightarrow> answer_options \<Rightarrow> edns_options_shape
     \<Rightarrow> bytes" where
  "append_edns_response_options sip ed options shape =
     (if shape_tcp_keepalive_response shape then
        [0, 11, 0, 2] @ u16_bytes (keepalive_timeout_units options) else []) @
     (if 0 < shape_nsid_len shape then
        u16_bytes EDNS_NSID_OPTION @ u16_bytes (of_nat (shape_nsid_len shape)) @ nsid options else []) @
     (if shape_cookie_response shape then
        (case (cookie ed, dns_cookie options) of
           (Some c, Some context) \<Rightarrow>
             [0, 10, 0, 24] @ client c @ compute_dns_server_cookie sip (client c) context
         | _ \<Rightarrow> []) else []) @
     (case shape_extended_dns_error shape of
        Some error \<Rightarrow> [0, 15, 0, 2] @ u16_bytes (info_code error) | None \<Rightarrow> []) @
     (case shape_padding_len shape of Some padding_len \<Rightarrow> append_edns_padding padding_len | None \<Rightarrow> [])"

definition opt_ttl :: "u16 \<Rightarrow> bool \<Rightarrow> u32" where
  "opt_ttl ext_rcode do =
     push_bit 24 (ucast (drop_bit 4 ext_rcode)) OR push_bit 15 (if do then 1 else 0)"

definition encode_opt_record_with_base_shape ::
  "(u64 \<Rightarrow> u64 \<Rightarrow> bytes \<Rightarrow> u64) \<Rightarrow> edns_metadata \<Rightarrow> u16 \<Rightarrow> answer_options \<Rightarrow> nat
     \<Rightarrow> edns_base_shape \<Rightarrow> bytes \<Rightarrow> bytes" where
  "encode_opt_record_with_base_shape sip ed ext_rcode options ceiling base response =
     (let shape = edns_response_options_shape_from_base ed options base (length response) ceiling
      in response @ [0, 0, 41] @ u16_bytes (max_udp_payload options) @
         u32_bytes (opt_ttl ext_rcode (do_bit ed)) @ u16_bytes (of_nat (shape_rdata_len shape)) @
         append_edns_response_options sip ed options shape)"

definition encode_opt_record ::
  "(u64 \<Rightarrow> u64 \<Rightarrow> bytes \<Rightarrow> u64) \<Rightarrow> edns_metadata \<Rightarrow> u16 \<Rightarrow> extended_dns_error option \<Rightarrow> answer_options
     \<Rightarrow> nat \<Rightarrow> bytes \<Rightarrow> bytes" where
  "encode_opt_record sip ed ext_rcode ede options ceiling response =
     encode_opt_record_with_base_shape sip ed ext_rcode options ceiling
       (edns_response_base_shape ed options ede) response"

section \<open>Empty and failure responses\<close>

record edns_sizing =
  sizing_additional_count :: u16
  sizing_capacity_hint :: nat
  sizing_reserve_full_udp_capacity :: bool
  sizing_base_shape :: "edns_base_shape option"

definition zone_image_edns_sizing :: "request_metadata \<Rightarrow> answer_options \<Rightarrow> edns_sizing" where
  "zone_image_edns_sizing m options =
     (case edns m of
        None \<Rightarrow> \<lparr> sizing_additional_count = 0, sizing_capacity_hint = 0,
                  sizing_reserve_full_udp_capacity = False, sizing_base_shape = None \<rparr>
      | Some ed \<Rightarrow>
          let base = edns_response_base_shape ed options (extended_dns_error m)
          in \<lparr> sizing_additional_count = 1, sizing_capacity_hint = 11 + base_rdata_len base,
               sizing_reserve_full_udp_capacity = False, sizing_base_shape = Some base \<rparr>)"

definition append_zone_image_response_edns ::
  "(u64 \<Rightarrow> u64 \<Rightarrow> bytes \<Rightarrow> u64) \<Rightarrow> request_metadata \<Rightarrow> answer_options \<Rightarrow> nat \<Rightarrow> edns_sizing
     \<Rightarrow> bytes \<Rightarrow> bytes" where
  "append_zone_image_response_edns sip m options ceiling sizing response =
     (case (edns m, sizing_base_shape sizing) of
        (Some ed, Some base) \<Rightarrow>
          encode_opt_record_with_base_shape sip ed (extended_rcode m) options ceiling base response
      | _ \<Rightarrow> response)"

definition zone_image_section_count_header_bytes :: "u16 \<Rightarrow> u16 \<Rightarrow> u16 \<Rightarrow> bytes" where
  "zone_image_section_count_header_bytes answer_count authority_count additional_count =
     u16_bytes answer_count @ u16_bytes authority_count @ u16_bytes additional_count"

definition zone_image_response_prefix :: "header \<Rightarrow> u16 \<Rightarrow> bool \<Rightarrow> bytes \<Rightarrow> bytes" where
  "zone_image_response_prefix h flag_bits truncated section_counts =
     u16_bytes (header_id h) @ u16_bytes (response_flags_from_plan_bits h flag_bits truncated) @
     u16_bytes 1 @ section_counts"

definition encode_question :: "question \<Rightarrow> bytes" where
  "encode_question q = encode_name_labels (labels (qname q)) @ qtype_qclass_wire q"

definition build_empty_response_inner ::
  "(u64 \<Rightarrow> u64 \<Rightarrow> bytes \<Rightarrow> u64) \<Rightarrow> header \<Rightarrow> rcode \<Rightarrow> bool \<Rightarrow> bool \<Rightarrow> question option
     \<Rightarrow> request_metadata \<Rightarrow> answer_options \<Rightarrow> nat \<Rightarrow> edns_sizing \<Rightarrow> bytes" where
  "build_empty_response_inner sip h rc authoritative truncated q m options ceiling sizing =
     append_zone_image_response_edns sip m options ceiling sizing
       (u16_bytes (header_id h) @ u16_bytes (response_flags h rc authoritative truncated) @
        u16_bytes (if q \<noteq> None then 1 else 0) @
        zone_image_section_count_header_bytes 0 0 (sizing_additional_count sizing) @
        (case q of Some question \<Rightarrow> encode_question question | None \<Rightarrow> []))"

definition build_empty_response ::
  "(u64 \<Rightarrow> u64 \<Rightarrow> bytes \<Rightarrow> u64) \<Rightarrow> header \<Rightarrow> rcode \<Rightarrow> bool \<Rightarrow> question option \<Rightarrow> request_metadata
     \<Rightarrow> answer_options \<Rightarrow> bytes" where
  "build_empty_response sip h rc authoritative q m options =
     (let ceiling = udp_ceiling m options;
          sizing = zone_image_edns_sizing m options;
          response = build_empty_response_inner sip h rc authoritative False q m options ceiling sizing
      in if transport options = Udp \<and> ceiling < length response then
           build_empty_response_inner sip h rc authoritative True q m options ceiling sizing
         else response)"

definition build_zone_image_failure_response ::
  "(u64 \<Rightarrow> u64 \<Rightarrow> bytes \<Rightarrow> u64) \<Rightarrow> header \<Rightarrow> question \<Rightarrow> request_metadata \<Rightarrow> answer_options \<Rightarrow> bytes" where
  "build_zone_image_failure_response sip h q m options =
     (let ceiling = udp_ceiling m options; sizing = zone_image_edns_sizing m options
      in append_zone_image_response_edns sip m options ceiling sizing
           (zone_image_response_prefix h (response_flag_bits RC_ServFail True) False
              (zone_image_section_count_header_bytes 0 0 (sizing_additional_count sizing)) @
            encode_question q))"

section \<open>Responses with records\<close>

fun encode_records ::
  "resource_record list \<Rightarrow> bytes \<Rightarrow> name_compressor \<Rightarrow> name_compressor \<times> bytes" where
  "encode_records [] response nc = (nc, response)"
| "encode_records (r # rs) response nc =
     (let (nc', response') = encode_record r response nc in encode_records rs response' nc')"

definition response_header ::
  "header \<Rightarrow> rcode \<Rightarrow> bool \<Rightarrow> bool \<Rightarrow> question option \<Rightarrow> nat \<Rightarrow> nat \<Rightarrow> nat \<Rightarrow> bytes" where
  "response_header h rc authoritative truncated q answers authorities additionals =
     u16_bytes (header_id h) @ u16_bytes (response_flags h rc authoritative truncated) @
     u16_bytes (if q \<noteq> None then 1 else 0) @ u16_bytes (of_nat answers) @
     u16_bytes (of_nat authorities) @ u16_bytes (of_nat additionals)"

definition build_response_inner ::
  "(u64 \<Rightarrow> u64 \<Rightarrow> bytes \<Rightarrow> u64) \<Rightarrow> header \<Rightarrow> rcode \<Rightarrow> bool \<Rightarrow> bool \<Rightarrow> question option
     \<Rightarrow> resource_record list \<Rightarrow> resource_record list \<Rightarrow> resource_record list \<Rightarrow> request_metadata
     \<Rightarrow> answer_options \<Rightarrow> bytes" where
  "build_response_inner sip h rc authoritative truncated q answers authorities additionals m options =
     (let response0 = response_header h rc authoritative truncated q (length answers)
            (length authorities) (length additionals + (if edns m \<noteq> None then 1 else 0));
          (nc, response1) =
            (case q of
               Some question \<Rightarrow>
                 (register_name_at_offset Map.empty (qname question) DNS_HEADER_LEN,
                  response0 @ encode_question question)
             | None \<Rightarrow> (Map.empty, response0));
          response2 = snd (encode_records (answers @ authorities @ additionals) response1 nc)
      in case edns m of
           Some ed \<Rightarrow> encode_opt_record sip ed (extended_rcode m) (extended_dns_error m) options
                        (udp_ceiling m options) response2
         | None \<Rightarrow> response2)"

text \<open>\<open>pop_last_resource_record_rrset\<close>: drop from the end the records of the last record's set.\<close>

definition same_rrset :: "resource_record \<Rightarrow> resource_record \<Rightarrow> bool" where
  "same_rrset last' r \<longleftrightarrow> owner r = owner last' \<and> rec_type r = rec_type last' \<and> rec_class r = rec_class last'"

definition pop_last_resource_record_rrset :: "resource_record list \<Rightarrow> resource_record list" where
  "pop_last_resource_record_rrset rs =
     (if rs = [] then [] else rev (dropWhile (same_rrset (last rs)) (rev rs)))"

text \<open>\<open>iter().rposition(p)\<close> and \<open>Vec::remove\<close>.\<close>

fun rposition :: "('a \<Rightarrow> bool) \<Rightarrow> 'a list \<Rightarrow> nat option" where
  "rposition p [] = None"
| "rposition p (x # xs) =
     (case rposition p xs of Some i \<Rightarrow> Some (Suc i) | None \<Rightarrow> if p x then Some 0 else None)"

definition remove_at :: "nat \<Rightarrow> 'a list \<Rightarrow> 'a list" where
  "remove_at i xs = take i xs @ drop (Suc i) xs"

definition is_not_soa :: "resource_record \<Rightarrow> bool" where
  "is_not_soa r \<longleftrightarrow> rec_type r \<noteq> type_code RT_Soa"

lemma rposition_less: "rposition p xs = Some i \<Longrightarrow> i < length xs"
  by (induction xs arbitrary: i) (auto split: option.splits if_splits)

lemma length_pop_rrset: "rs \<noteq> [] \<Longrightarrow> length (pop_last_resource_record_rrset rs) < length rs"
  by (cases rs rule: rev_cases)
    (auto simp: pop_last_resource_record_rrset_def same_rrset_def intro!: le_imp_less_Suc order_trans [OF length_dropWhile_le])

lemma length_remove_at: "i < length xs \<Longrightarrow> length (remove_at i xs) < length xs"
  by (simp add: remove_at_def)

text \<open>The truncation loop: build, and if the response is too long drop something and retry.\<close>

function truncation_loop ::
  "(bool \<Rightarrow> resource_record list \<Rightarrow> resource_record list \<Rightarrow> resource_record list \<Rightarrow> bytes) \<Rightarrow> nat \<Rightarrow> bool
     \<Rightarrow> bool \<Rightarrow> resource_record list \<Rightarrow> resource_record list \<Rightarrow> resource_record list \<Rightarrow> bytes" where
  "truncation_loop build ceiling glue truncated answers authorities additionals =
     (let response = build truncated answers authorities additionals in
      if length response \<le> ceiling then response
      else if additionals \<noteq> [] then
        truncation_loop build ceiling glue (truncated \<or> glue) answers authorities
          (pop_last_resource_record_rrset additionals)
      else (case rposition is_not_soa authorities of
              Some index \<Rightarrow>
                truncation_loop build ceiling glue True answers (remove_at index authorities) additionals
            | None \<Rightarrow>
                if answers \<noteq> [] then
                  truncation_loop build ceiling glue True (butlast answers) authorities additionals
                else if authorities \<noteq> [] then
                  truncation_loop build ceiling glue True answers (butlast authorities) additionals
                else response))"
  by pat_completeness auto
termination
  by (relation "measure (\<lambda>(build, ceiling, glue, truncated, answers, authorities, additionals).
        length answers + length authorities + length additionals)")
    (auto simp: length_pop_rrset length_remove_at rposition_less)

declare truncation_loop.simps [simp del]

definition build_truncated_response ::
  "(u64 \<Rightarrow> u64 \<Rightarrow> bytes \<Rightarrow> u64) \<Rightarrow> header \<Rightarrow> rcode \<Rightarrow> bool \<Rightarrow> question option
     \<Rightarrow> resource_record list \<Rightarrow> resource_record list \<Rightarrow> resource_record list \<Rightarrow> request_metadata
     \<Rightarrow> answer_options \<Rightarrow> bytes" where
  "build_truncated_response sip h rc authoritative q answers authorities additionals m options =
     (let ceiling = udp_ceiling m options;
          glue = (\<not> authoritative \<and> list_ex (\<lambda>r. rec_type r = type_code RT_Ns) authorities);
          m' = (if extended_dns_error m \<noteq> None then without_extended_dns_error m else m);
          response = build_response_inner sip h rc authoritative False q answers authorities
            additionals m' options
      in if extended_dns_error m \<noteq> None \<and> length response \<le> ceiling then response
         else truncation_loop
                (\<lambda>tc an au ad. build_response_inner sip h rc authoritative tc q an au ad m' options)
                ceiling glue False answers authorities additionals)"

definition build_response ::
  "(u64 \<Rightarrow> u64 \<Rightarrow> bytes \<Rightarrow> u64) \<Rightarrow> header \<Rightarrow> rcode \<Rightarrow> bool \<Rightarrow> question option
     \<Rightarrow> resource_record list \<Rightarrow> resource_record list \<Rightarrow> resource_record list \<Rightarrow> request_metadata
     \<Rightarrow> answer_options \<Rightarrow> bytes" where
  "build_response sip h rc authoritative q answers authorities additionals m options =
     (if answers = [] \<and> authorities = [] \<and> additionals = [] then
        build_empty_response sip h rc authoritative q m options
      else
        let response = build_response_inner sip h rc authoritative False q answers authorities
              additionals m options
        in if transport options = Udp \<and> udp_ceiling m options < length response then
             build_truncated_response sip h rc authoritative q answers authorities additionals m options
           else response)"

definition parse_echoable_question :: "header \<Rightarrow> bytes \<Rightarrow> question option" where
  "parse_echoable_question h packet =
     (if qdcount h = 1 then (case parse_question packet of Inl _ \<Rightarrow> None | Inr q \<Rightarrow> Some q) else None)"

section \<open>The OPT record\<close>

text \<open>Parsed EDNS metadata: an 8-octet client cookie, a 32-octet server cookie buffer.\<close>

definition cookie_wf :: "edns_cookie \<Rightarrow> bool" where
  "cookie_wf c \<longleftrightarrow> length (client c) = 8 \<and>
     (case server c of
        None \<Rightarrow> True
      | Some s \<Rightarrow> length (server_bytes s) = 32 \<and> 8 \<le> server_len s \<and> server_len s \<le> 32)"

definition edns_wf :: "edns_metadata \<Rightarrow> bool" where
  "edns_wf ed \<longleftrightarrow> 512 \<le> payload_size ed \<and> (case cookie ed of None \<Rightarrow> True | Some c \<Rightarrow> cookie_wf c)"

text \<open>The options of a response as code and data.\<close>

definition response_options ::
  "(u64 \<Rightarrow> u64 \<Rightarrow> bytes \<Rightarrow> u64) \<Rightarrow> edns_metadata \<Rightarrow> answer_options \<Rightarrow> edns_options_shape
     \<Rightarrow> (u16 \<times> bytes) list" where
  "response_options sip ed options shape =
     (if shape_tcp_keepalive_response shape
      then [(EDNS_TCP_KEEPALIVE_OPTION, u16_bytes (keepalive_timeout_units options))] else []) @
     (if 0 < shape_nsid_len shape then [(EDNS_NSID_OPTION, nsid options)] else []) @
     (if shape_cookie_response shape then
        (case (cookie ed, dns_cookie options) of
           (Some c, Some context) \<Rightarrow>
             [(EDNS_COOKIE_OPTION, client c @ compute_dns_server_cookie sip (client c) context)]
         | _ \<Rightarrow> []) else []) @
     (case shape_extended_dns_error shape of
        Some error \<Rightarrow> [(EDNS_EXTENDED_DNS_ERROR_OPTION, u16_bytes (info_code error))] | None \<Rightarrow> []) @
     (case shape_padding_len shape of
        Some padding_len \<Rightarrow> [(EDNS_PADDING_OPTION, replicate padding_len 0)] | None \<Rightarrow> [])"

abbreviation response_shape ::
  "edns_metadata \<Rightarrow> answer_options \<Rightarrow> extended_dns_error option \<Rightarrow> nat \<Rightarrow> nat \<Rightarrow> edns_options_shape" where
  "response_shape ed options ede len ceiling \<equiv>
     edns_response_options_shape_from_base ed options (edns_response_base_shape ed options ede) len ceiling"

lemma base_rdata_len_sum:
  "base = edns_response_base_shape ed options ede \<Longrightarrow>
     base_rdata_len base = (if base_tcp_keepalive_response base then 6 else 0) +
       (if 0 < base_nsid_len base then 4 + base_nsid_len base else 0) +
       (if base_cookie_response base then 28 else 0) +
       (if base_extended_dns_error base \<noteq> None then 6 else 0)"
  by (simp add: edns_response_base_shape_def Let_def dns_const_defs)

lemma base_shape_conditions:
  assumes "base = edns_response_base_shape ed options ede"
  shows "base_nsid_len base = 0 \<or> base_nsid_len base = length (nsid options)"
    "base_cookie_response base \<longleftrightarrow> cookie ed \<noteq> None \<and> dns_cookie options \<noteq> None"
  using assms by (simp_all add: edns_response_base_shape_def Let_def)

lemma shape_from_base_simps:
  assumes "shape = edns_response_options_shape_from_base ed options base len ceiling"
  shows "shape_tcp_keepalive_response shape = base_tcp_keepalive_response base"
    "shape_nsid_len shape = base_nsid_len base" "shape_cookie_response shape = base_cookie_response base"
    "shape_extended_dns_error shape = base_extended_dns_error base"
    "shape_rdata_len shape = base_rdata_len base +
       (case shape_padding_len shape of Some p \<Rightarrow> 4 + p | None \<Rightarrow> 0)"
  using assms by (simp_all add: edns_response_options_shape_from_base_def Let_def)

lemma cookie_client_length: "edns_wf ed \<Longrightarrow> cookie ed = Some c \<Longrightarrow> length (client c) = 8"
  by (simp add: edns_wf_def cookie_wf_def)

lemma response_options_length:
  assumes "edns_wf ed" "shape = response_shape ed options ede len ceiling"
  shows "length (append_edns_response_options sip ed options shape) = shape_rdata_len shape"
proof -
  let ?base = "edns_response_base_shape ed options ede"
  note shape = shape_from_base_simps [OF assms(2)] and base = base_shape_conditions [of ?base, OF refl]
  have cookie_part: "length (if base_cookie_response ?base then
        (case (cookie ed, dns_cookie options) of
           (Some c, Some context) \<Rightarrow> [0, 10, 0, 24] @ client c @ compute_dns_server_cookie sip (client c) context
         | _ \<Rightarrow> []) else []) = (if base_cookie_response ?base then 28 else 0)"
    using base(2) cookie_client_length [OF assms(1)] by auto
  have nsid_part: "length (if 0 < base_nsid_len ?base then
      u16_bytes EDNS_NSID_OPTION @ u16_bytes (of_nat (base_nsid_len ?base)) @ nsid options else []) =
      (if 0 < base_nsid_len ?base then 4 + base_nsid_len ?base else 0)"
    using base(1) by auto
  show ?thesis
    unfolding append_edns_response_options_def length_append shape cookie_part nsid_part
      base_rdata_len_sum [of ?base, OF refl]
    by (simp add: append_edns_padding_def split: option.splits)
qed

lemma encode_edns_options_append:
  "encode_edns_options (xs @ ys) = encode_edns_options xs @ encode_edns_options ys"
  by (simp add: encode_edns_options_def)

lemma encode_edns_options_if:
  "encode_edns_options (if b then [(code, data)] else []) =
     (if b then u16_bytes code @ u16_bytes (of_nat (length data)) @ data else [])"
  by (simp add: encode_edns_options_def encode_edns_option_def)

lemma response_options_encode:
  assumes "edns_wf ed" "shape = response_shape ed options ede len ceiling"
  shows "append_edns_response_options sip ed options shape =
    encode_edns_options (response_options sip ed options shape)"
proof -
  let ?base = "edns_response_base_shape ed options ede"
  note shape = shape_from_base_simps [OF assms(2)] and base = base_shape_conditions [of ?base, OF refl]
  have octs: "u16_bytes (2 :: u16) = [0, 2]" "u16_bytes (24 :: u16) = [0, 24]"
    "u16_bytes (11 :: u16) = [0, 11]" "u16_bytes (10 :: u16) = [0, 10]" "u16_bytes (15 :: u16) = [0, 15]"
    by (simp_all add: u16_bytes_def)
  have cookie_part: "encode_edns_options (if shape_cookie_response shape then
        (case (cookie ed, dns_cookie options) of
           (Some c, Some context) \<Rightarrow>
             [(EDNS_COOKIE_OPTION, client c @ compute_dns_server_cookie sip (client c) context)]
         | _ \<Rightarrow> []) else []) =
      (if shape_cookie_response shape then
        (case (cookie ed, dns_cookie options) of
           (Some c, Some context) \<Rightarrow> [0, 10, 0, 24] @ client c @ compute_dns_server_cookie sip (client c) context
         | _ \<Rightarrow> []) else [])"
    using cookie_client_length [OF assms(1)]
    by (auto simp: encode_edns_options_def encode_edns_option_def EDNS_COOKIE_OPTION_def octs split: option.splits)
  have nsid_part: "(if 0 < shape_nsid_len shape then
      u16_bytes EDNS_NSID_OPTION @ u16_bytes (of_nat (shape_nsid_len shape)) @ nsid options else []) =
      encode_edns_options (if 0 < shape_nsid_len shape then [(EDNS_NSID_OPTION, nsid options)] else [])"
    unfolding encode_edns_options_if using base(1) shape(2) by auto
  have ede_part: "encode_edns_options (case e of
        Some error \<Rightarrow> [(EDNS_EXTENDED_DNS_ERROR_OPTION, u16_bytes (info_code error))] | None \<Rightarrow> []) =
      (case e of Some error \<Rightarrow> [0, 15, 0, 2] @ u16_bytes (info_code error) | None \<Rightarrow> [])" for e
    by (simp add: encode_edns_options_def encode_edns_option_def EDNS_EXTENDED_DNS_ERROR_OPTION_def octs
        split: option.splits)
  have pad_part: "encode_edns_options (case p of
        Some padding_len \<Rightarrow> [(EDNS_PADDING_OPTION, replicate padding_len 0)] | None \<Rightarrow> []) =
      (case p of Some padding_len \<Rightarrow> append_edns_padding padding_len | None \<Rightarrow> [])" for p
    by (simp add: encode_edns_options_def encode_edns_option_def append_edns_padding_def split: option.splits)
  show ?thesis
    unfolding append_edns_response_options_def response_options_def encode_edns_options_append
      cookie_part ede_part pad_part nsid_part encode_edns_options_if EDNS_TCP_KEEPALIVE_OPTION_def
    by (simp add: octs)
qed

lemma encode_opt_record_eq:
  assumes "edns_wf ed"
  shows "encode_opt_record sip ed ext_rcode ede options ceiling r =
    (let shape = response_shape ed options ede (length r) ceiling;
         opts = encode_edns_options (response_options sip ed options shape)
     in r @ to_wire root @ record_fixed 41 (max_udp_payload options) (opt_ttl ext_rcode (do_bit ed))
          (of_nat (length opts)) @ opts)"
  using response_options_length [OF assms refl, of sip options ede "length r" ceiling]
    response_options_encode [OF assms refl, of sip options ede "length r" ceiling]
  by (simp add: encode_opt_record_def encode_opt_record_with_base_shape_def Let_def record_fixed_def
      to_wire_def root_def u16_bytes_def [of 41])

lemma parse_name_root: "parse_name (pre @ 0 # post) (length pre) = Inr (root, 1)"
  using parse_to_wire [of root pre post]
  by (simp add: valid_name_def root_def to_wire_def wire_len_def)

lemma opt_record_view:
  assumes "edns_wf ed" and shape: "shape = response_shape ed options ede (length r) ceiling"
    and small: "shape_rdata_len shape < 65536"
  shows "\<exists>v. parse_record_view (encode_opt_record sip ed ext_rcode ede options ceiling r) (length r) =
      Inr (v, 11 + shape_rdata_len shape) \<and>
    owner_is_root v \<and> rr_type v = type_code RT_Opt \<and> rr_class v = max_udp_payload options \<and>
    ttl v = opt_ttl ext_rcode (do_bit ed) \<and>
    rdata v = encode_edns_options (response_options sip ed options shape)"
proof -
  let ?opts = "encode_edns_options (response_options sip ed options shape)"
  let ?fixed = "record_fixed 41 (max_udp_payload options) (opt_ttl ext_rcode (do_bit ed)) (of_nat (length ?opts))"
  let ?p = "(r @ [0]) @ ?fixed @ ?opts @ []"
  have p: "encode_opt_record sip ed ext_rcode ede options ceiling r = ?p"
    using encode_opt_record_eq [OF assms(1)] by (simp add: Let_def shape to_wire_def root_def)
  have len: "length ?opts = shape_rdata_len shape"
    using response_options_length [OF assms(1) shape] response_options_encode [OF assms(1) shape] by metis
  have "parse_name ?p (length r) = Inr (root, 1)"
    using parse_name_root [of r "?fixed @ ?opts"] by simp
  from parse_record_view_inner_at [OF this _ refl, of None] len small
  have "parse_record_view_inner ?p (length r) None =
      Inr (\<lparr> owner_is_root = True, rr_type = 41, rr_class = max_udp_payload options,
             ttl = opt_ttl ext_rcode (do_bit ed), rdata_offset = length r + 11, rdata = ?opts \<rparr>, True,
           11 + length ?opts)"
    by (simp add: root_def)
  then show ?thesis unfolding p by (simp add: parse_record_view_def len)
qed

lemma encode_opt_record_length:
  "edns_wf ed \<Longrightarrow> length (encode_opt_record sip ed ext_rcode ede options ceiling r) =
     length r + 11 + shape_rdata_len (response_shape ed options ede (length r) ceiling)"
  using response_options_length [OF _ refl, of ed sip options ede "length r" ceiling]
  by (simp add: encode_opt_record_def encode_opt_record_with_base_shape_def Let_def)

lemma padding_multiple:
  assumes "0 < (B :: nat)"
  shows "B dvd tot + (B - tot mod B) mod B"
proof (cases "tot mod B = 0")
  case False
  with assms have "(B - tot mod B) mod B = B - tot mod B" by simp
  moreover have "tot + (B - tot mod B) = B + (tot - tot mod B)"
    using mod_less_divisor [OF assms, of tot] mod_less_eq_dividend [of tot B] by linarith
  ultimately show ?thesis by (simp add: minus_mod_eq_mult_div)
qed auto

lemma padded_response_length:
  assumes "edns_wf ed" "transport options = Tls" "padding_requested ed" "0 < edns_padding_block_size options"
  shows "unat (edns_padding_block_size options) dvd
    length (encode_opt_record sip ed ext_rcode ede options ceiling r)"
proof -
  let ?B = "unat (edns_padding_block_size options)"
  let ?base = "base_rdata_len (edns_response_base_shape ed options ede)"
  let ?tot = "length r + 11 + ?base + 4"
  have "shape_rdata_len (response_shape ed options ede (length r) ceiling) =
      ?base + 4 + (?B - ?tot mod ?B) mod ?B"
    using assms(2-4) by (simp add: edns_response_options_shape_from_base_def Let_def)
  then have "length (encode_opt_record sip ed ext_rcode ede options ceiling r) =
      ?tot + (?B - ?tot mod ?B) mod ?B"
    using encode_opt_record_length [OF assms(1)] by simp
  moreover have "0 < ?B" using assms(4) by (simp add: word_less_nat_alt)
  ultimately show ?thesis by (simp only: padding_multiple)
qed

section \<open>Truncation\<close>

lemma prefix_pop_rrset: "prefix (pop_last_resource_record_rrset rs) rs"
  using suffix_dropWhile [of "same_rrset (last rs)" "rev rs"]
  by (simp add: pop_last_resource_record_rrset_def suffix_to_prefix)

lemma prefix_butlast: "prefix (butlast xs) xs"
  by (simp add: prefixeq_butlast)

lemma subseq_remove_at: "subseq (remove_at i xs) xs"
proof -
  have "subseq (take i xs @ drop (Suc i) xs) (take i xs @ drop i xs)"
    using suffix_imp_subseq [OF suffix_drop, of 1 "drop i xs"]
    by (intro list_emb_append_mono subseq_order.refl) simp
  then show ?thesis by (simp add: remove_at_def)
qed

text \<open>
  What a truncated build keeps: a prefix of the answers, a subsequence of the authorities and a
  prefix of the additionals, announced by TC whenever an answer, an authority or a glue record
  that a referral needs is missing, and within the ceiling unless nothing is left to drop.
\<close>

definition truncation_of ::
  "(bool \<Rightarrow> resource_record list \<Rightarrow> resource_record list \<Rightarrow> resource_record list \<Rightarrow> bytes) \<Rightarrow> nat \<Rightarrow> bool
     \<Rightarrow> bool \<Rightarrow> resource_record list \<Rightarrow> resource_record list \<Rightarrow> resource_record list \<Rightarrow> bytes \<Rightarrow> bool" where
  "truncation_of build ceiling glue t answers authorities additionals response \<longleftrightarrow>
     (\<exists>tc an au ad. response = build tc an au ad \<and>
        prefix an answers \<and> subseq au authorities \<and> prefix ad additionals \<and>
        (length response \<le> ceiling \<or> an = [] \<and> au = [] \<and> ad = []) \<and>
        (t \<longrightarrow> tc) \<and> (tc \<or> an = answers \<and> au = authorities \<and> (glue \<longrightarrow> ad = additionals)))"

lemma truncation_of_self:
  "length (build t answers authorities additionals) \<le> ceiling \<or>
     answers = [] \<and> authorities = [] \<and> additionals = [] \<Longrightarrow>
   truncation_of build ceiling glue t answers authorities additionals (build t answers authorities additionals)"
  unfolding truncation_of_def by blast

lemma truncation_of_mono:
  assumes "truncation_of build ceiling glue t' answers' authorities' additionals' response"
    and "prefix answers' answers" "subseq authorities' authorities" "prefix additionals' additionals"
    and "t \<longrightarrow> t'" "t' \<or> answers' = answers \<and> authorities' = authorities \<and> (glue \<longrightarrow> additionals' = additionals)"
  shows "truncation_of build ceiling glue t answers authorities additionals response"
proof -
  from assms(1) obtain tc an au ad where *: "response = build tc an au ad" "prefix an answers'"
    "subseq au authorities'" "prefix ad additionals'"
    "length response \<le> ceiling \<or> an = [] \<and> au = [] \<and> ad = []" "t' \<longrightarrow> tc"
    "tc \<or> an = answers' \<and> au = authorities' \<and> (glue \<longrightarrow> ad = additionals')"
    unfolding truncation_of_def by blast
  have "prefix an answers" "subseq au authorities" "prefix ad additionals"
    using * assms(2-4) by (blast intro: prefix_order.trans subseq_order.trans)+
  moreover have "tc \<or> an = answers \<and> au = authorities \<and> (glue \<longrightarrow> ad = additionals)" "t \<longrightarrow> tc"
    using * assms(5,6) by blast+
  ultimately show ?thesis unfolding truncation_of_def using *(1,5) by blast
qed

lemma truncation_loop_spec:
  "truncation_of build ceiling glue t answers authorities additionals
     (truncation_loop build ceiling glue t answers authorities additionals)"
proof (induction build ceiling glue t answers authorities additionals rule: truncation_loop.induct)
  case (1 build ceiling glue t answers authorities additionals)
  let ?r = "build t answers authorities additionals"
  note unfold = truncation_loop.simps [of build ceiling glue t answers authorities additionals]
  consider (fits) "length ?r \<le> ceiling" | (additional) "\<not> length ?r \<le> ceiling" "additionals \<noteq> []"
    | (authority) i where "\<not> length ?r \<le> ceiling" "additionals = []" "rposition is_not_soa authorities = Some i"
    | (rest) "\<not> length ?r \<le> ceiling" "additionals = []" "rposition is_not_soa authorities = None" by blast
  then show ?case
  proof cases
    case fits
    then show ?thesis unfolding unfold by (simp add: truncation_of_self)
  next
    case additional
    with "1.IH"(1) [OF refl] have "truncation_of build ceiling glue (t \<or> glue) answers authorities
        (pop_last_resource_record_rrset additionals)
        (truncation_loop build ceiling glue t answers authorities additionals)" unfolding unfold by simp
    then show ?thesis by (rule truncation_of_mono) (auto simp: prefix_pop_rrset)
  next
    case authority
    with "1.IH"(4) [OF refl _ _ authority(3)] have "truncation_of build ceiling glue True answers (remove_at i authorities)
        additionals (truncation_loop build ceiling glue t answers authorities additionals)"
      unfolding unfold by simp
    then show ?thesis by (rule truncation_of_mono) (auto simp: subseq_remove_at)
  next
    case rest
    consider "answers \<noteq> []" | "answers = []" "authorities \<noteq> []" | "answers = []" "authorities = []" by blast
    then show ?thesis
    proof cases
      case 1
      with rest "1.IH"(2) [OF refl _ _ rest(3)] have "truncation_of build ceiling glue True (butlast answers) authorities
          additionals (truncation_loop build ceiling glue t answers authorities additionals)"
        unfolding unfold by simp
      then show ?thesis by (rule truncation_of_mono) (auto simp: prefixeq_butlast)
    next
      case 2
      with rest "1.IH"(3) [OF refl _ _ rest(3)] have "truncation_of build ceiling glue True answers (butlast authorities)
          additionals (truncation_loop build ceiling glue t answers authorities additionals)"
        unfolding unfold by simp
      then show ?thesis
        by (rule truncation_of_mono) (auto intro: prefix_imp_subseq prefixeq_butlast)
    next
      case 3
      with rest show ?thesis unfolding unfold using truncation_of_self [of build t "[]" "[]" "[]"] by simp
    qed
  qed
qed


lemma build_empty_response_inner_eq:
  "build_empty_response_inner sip h rc aa tc q m options (udp_ceiling m options)
     (zone_image_edns_sizing m options) =
   build_response_inner sip h rc aa tc q [] [] [] m options"
  by (auto simp: build_empty_response_inner_def build_response_inner_def response_header_def
      zone_image_edns_sizing_def append_zone_image_response_edns_def encode_opt_record_def
      zone_image_section_count_header_bytes_def Let_def split: option.splits)

lemma udp_ceiling_without_ede: "udp_ceiling (without_extended_dns_error m) options = udp_ceiling m options"
  by (simp add: udp_ceiling_def client_payload_def without_extended_dns_error_def)

lemma build_response_spec:
  "\<exists>m' glue. (m' = m \<or> m' = without_extended_dns_error m) \<and>
     glue = (\<not> aa \<and> list_ex (\<lambda>r. rec_type r = type_code RT_Ns) authorities) \<and>
     (if transport options = Udp then
        truncation_of
          (\<lambda>tc an au ad. build_response_inner sip h rc aa tc q an au ad m' options)
          (udp_ceiling m options) glue False answers authorities additionals
          (build_response sip h rc aa q answers authorities additionals m options)
      else m' = m \<and> build_response sip h rc aa q answers authorities additionals m options =
        build_response_inner sip h rc aa False q answers authorities additionals m options)"
proof -
  let ?build = "\<lambda>m' tc an au ad. build_response_inner sip h rc aa tc q an au ad m' options"
  let ?resp = "build_response sip h rc aa q answers authorities additionals m options"
  let ?glue = "\<not> aa \<and> list_ex (\<lambda>r. rec_type r = type_code RT_Ns) authorities"
  let ?trunc = "\<lambda>m'. truncation_of (?build m') (udp_ceiling m options) ?glue False answers authorities additionals ?resp"
  have "(transport options \<noteq> Udp \<and> ?resp = ?build m False answers authorities additionals) \<or>
      (transport options = Udp \<and> (?trunc m \<or> ?trunc (without_extended_dns_error m)))"
  proof (cases "answers = [] \<and> authorities = [] \<and> additionals = []")
    case True
    have "truncation_of (?build m) (udp_ceiling m options) ?glue False [] [] [] (?build m tc [] [] [])" for tc
      unfolding truncation_of_def by auto
    with True show ?thesis
      by (auto simp: build_response_def build_empty_response_def build_empty_response_inner_eq Let_def)
  next
    case False
    show ?thesis
    proof (cases "transport options = Udp \<and> udp_ceiling m options < length (?build m False answers authorities additionals)")
      case True
      then have resp: "?resp = build_truncated_response sip h rc aa q answers authorities additionals m options"
        using False by (auto simp: build_response_def Let_def)
      define m' where "m' = (if extended_dns_error m \<noteq> None then without_extended_dns_error m else m)"
      have "truncation_of (?build m') (udp_ceiling m options) ?glue False answers authorities additionals
          (build_truncated_response sip h rc aa q answers authorities additionals m options)"
        unfolding build_truncated_response_def m'_def [symmetric] Let_def
        using truncation_loop_spec [of "?build m'" "udp_ceiling m options" ?glue False answers authorities additionals]
          truncation_of_self [of "?build m'" False answers authorities additionals "udp_ceiling m options" ?glue]
        by simp
      then show ?thesis using True unfolding resp m'_def by (auto split: if_splits)
    next
      case fits: False
      then have resp: "?resp = ?build m False answers authorities additionals"
        using False by (auto simp: build_response_def Let_def)
      then show ?thesis
        using fits truncation_of_self [of "?build m" False answers authorities additionals "udp_ceiling m options" ?glue]
        by (cases "transport options = Udp") auto
    qed
  qed
  then show ?thesis by auto
qed

section \<open>Reading a response back\<close>

fun records_written :: "resource_record list \<Rightarrow> bytes \<Rightarrow> nat \<Rightarrow> nat \<Rightarrow> bool" where
  "records_written [] = bytes_at []"
| "records_written (r # rs) = seq_layout (record_written r) (records_written rs)"

text \<open>Records found one after another from a position on.\<close>

fun records_decode :: "resource_record list \<Rightarrow> bytes \<Rightarrow> nat \<Rightarrow> nat \<Rightarrow> bool" where
  "records_decode [] p pos len \<longleftrightarrow> len = 0"
| "records_decode (r # rs) p pos len \<longleftrightarrow>
     (\<exists>l m. len = l + m \<and> record_decodes r p pos l \<and> records_decode rs p (pos + l) m)"

lemma stable_records_written [intro, simp]: "stable (records_written rs)"
  by (induction rs) auto

lemma records_written_decode:
  "records_written rs p pos len \<Longrightarrow> list_all encodable rs \<Longrightarrow> records_decode rs p pos len"
proof (induction rs arbitrary: pos len)
  case Nil
  then show ?case by (simp add: bytes_at_def)
next
  case (Cons r rs)
  then show ?case by (auto simp: seq_layout_def intro!: record_written_decodes)
qed

lemma encode_records_writes:
  "list_all encodable rs \<Longrightarrow> writes compressor_ok (records_written rs) (\<lambda>nc response. encode_records rs response nc)"
proof (induction rs)
  case Nil
  have "(\<lambda>nc response. encode_records [] response nc) = copy_bytes []"
    by (auto simp: copy_bytes_def fun_eq_iff)
  then show ?case by (simp only: reference_writer.writes_copy records_written.simps)
next
  case (Cons r rs)
  have "(\<lambda>nc response. encode_records (r # rs) response nc) =
      seq_write (\<lambda>nc response. encode_record r response nc) (\<lambda>nc response. encode_records rs response nc)"
    by (auto simp: seq_write_def fun_eq_iff)
  with Cons show ?case by (simp add: reference_writer.writes_seq encode_record_writes)
qed

definition question_wf :: "question \<Rightarrow> bool" where
  "question_wf q \<longleftrightarrow> valid_name (qname q) \<and> qtype_qclass_wire q = u16_bytes (qtype q) @ u16_bytes (qclass q)"

lemma encode_question_wire: "question_wf q \<Longrightarrow> encode_question q = question_wire (qname q) (qtype q) (qclass q)"
  by (simp add: question_wf_def encode_question_def question_wire_def to_wire_def)

lemma response_header_wire:
  "response_header h rc aa tc q an au ad = header_wire \<lparr> header_id = header_id h,
     flags = response_flags h rc aa tc, qdcount = (if q \<noteq> None then 1 else 0), ancount = of_nat an,
     nscount = of_nat au, arcount = of_nat ad \<rparr>"
  by (simp add: response_header_def header_wire_def)

text \<open>The response without its OPT record.\<close>

lemma build_response_body:
  assumes "question_wf q" "list_all encodable (answers @ authorities @ additionals)"
    and hdr: "hdr = response_header h rc aa tc (Some q) an au ad"
  shows "\<exists>body. snd (encode_records (answers @ authorities @ additionals) (hdr @ encode_question q)
       (register_name_at_offset Map.empty (qname q) DNS_HEADER_LEN)) = hdr @ encode_question q @ body \<and>
     records_decode (answers @ authorities @ additionals) (hdr @ encode_question q @ body @ ext)
       (16 + wire_len (qname q)) (length body)"
proof -
  let ?rs = "answers @ authorities @ additionals" and ?nc = "register_name_at_offset Map.empty (qname q) DNS_HEADER_LEN"
  let ?r = "hdr @ encode_question q"
  note writes = encode_records_writes [OF assms(2)]
  have hdr12: "length hdr = 12" by (simp add: hdr response_header_wire)
  have "compressor_ok ?nc ?r"
    unfolding register_name_at_offset_def
    using register_name_labels_ok [of Map.empty ?r "labels (qname q)" hdr "qtype_qclass_wire q"] assms(1) hdr12
    by (simp add: compressor_ok_empty question_wf_def valid_name_def encode_question_def DNS_HEADER_LEN_def)
  moreover obtain nc' body where body: "encode_records ?rs ?r ?nc = (nc', ?r @ body)"
    using appendsE [OF writes_appends [OF writes], where c = ?nc and len = "length ?r"] by metis
  ultimately have "records_written ?rs (?r @ body) (length ?r) (length body)"
    using writesD [OF writes, of ?nc ?r nc' body] by simp
  then have "records_written ?rs ((?r @ body) @ ext) (length ?r) (length body)"
    using stable_records_written unfolding stable_def by blast
  moreover have "length ?r = 16 + wire_len (qname q)"
    using hdr12 by (simp add: encode_question_wire [OF assms(1)])
  ultimately show ?thesis using records_written_decode [OF _ assms(2)] body
    by (intro exI [of _ body]) simp
qed

text \<open>The octets of a response: header, question, records and OPT record.\<close>

lemma build_response_inner_layout:
  assumes "question_wf q" "list_all encodable (answers @ authorities @ additionals)"
    and "resp = build_response_inner sip h rc aa tc (Some q) answers authorities additionals m options"
    and "hdr = response_header h rc aa tc (Some q) (length answers) (length authorities)
      (length additionals + (if edns m \<noteq> None then 1 else 0))"
  obtains body opt where "resp = hdr @ encode_question q @ body @ opt"
    "records_decode (answers @ authorities @ additionals) resp (16 + wire_len (qname q)) (length body)"
    "case edns m of None \<Rightarrow> opt = [] | Some ed \<Rightarrow> resp = encode_opt_record sip ed (extended_rcode m)
      (extended_dns_error m) options (udp_ceiling m options) (hdr @ encode_question q @ body)"
proof -
  let ?r = "snd (encode_records (answers @ authorities @ additionals) (hdr @ encode_question q)
       (register_name_at_offset Map.empty (qname q) DNS_HEADER_LEN))"
  obtain opt where resp: "resp = ?r @ opt"
    and opt: "case edns m of None \<Rightarrow> opt = [] | Some ed \<Rightarrow> resp =
      encode_opt_record sip ed (extended_rcode m) (extended_dns_error m) options (udp_ceiling m options) ?r"
    using assms(3,4)
    by (cases "edns m") (auto simp: build_response_inner_def Let_def encode_opt_record_def
        encode_opt_record_with_base_shape_def)
  obtain body where body: "?r = hdr @ encode_question q @ body"
    "records_decode (answers @ authorities @ additionals) (hdr @ encode_question q @ body @ opt)
       (16 + wire_len (qname q)) (length body)"
    using build_response_body [OF assms(1,2,4)] by blast
  from resp body(1) have "resp = hdr @ encode_question q @ body @ opt" by simp
  with that body(2) opt show ?thesis unfolding body(1) by simp
qed

lemma build_response_inner_reads_back:
  assumes "question_wf q" "list_all encodable (answers @ authorities @ additionals)"
    and "resp = build_response_inner sip h rc aa tc (Some q) answers authorities additionals m options"
  shows "\<exists>body. parse_header resp = Inr \<lparr> header_id = header_id h, flags = response_flags h rc aa tc,
      qdcount = 1, ancount = of_nat (length answers), nscount = of_nat (length authorities),
      arcount = of_nat (length additionals + (if edns m \<noteq> None then 1 else 0)) \<rparr> \<and>
    (\<exists>q'. parse_question resp = Inr q' \<and> qname q' = qname q \<and> qtype q' = qtype q \<and> qclass q' = qclass q) \<and>
    records_decode (answers @ authorities @ additionals) resp (16 + wire_len (qname q)) body"
proof -
  let ?hdr = "response_header h rc aa tc (Some q) (length answers) (length authorities)
    (length additionals + (if edns m \<noteq> None then 1 else 0))"
  obtain body opt where full: "resp = ?hdr @ encode_question q @ body @ opt"
    and decode: "records_decode (answers @ authorities @ additionals) resp (16 + wire_len (qname q)) (length body)"
    by (rule build_response_inner_layout [OF assms refl])
  have "parse_header resp = Inr \<lparr> header_id = header_id h, flags = response_flags h rc aa tc,
      qdcount = 1, ancount = of_nat (length answers), nscount = of_nat (length authorities),
      arcount = of_nat (length additionals + (if edns m \<noteq> None then 1 else 0)) \<rparr>"
    using parse_header_wire unfolding full by (simp add: response_header_wire)
  moreover have "\<exists>q'. parse_question resp = Inr q' \<and> qname q' = qname q \<and> qtype q' = qtype q \<and> qclass q' = qclass q"
    using parse_question_wire [of "qname q" ?hdr "qtype q" "qclass q" "body @ opt"] assms(1)
    unfolding full by (simp add: encode_question_wire question_wf_def response_header_wire)
  ultimately show ?thesis using decode by blast
qed

section \<open>Metadata of accepted requests\<close>

abbreviation options_wf :: "edns_options \<Rightarrow> bool" where
  "options_wf opts \<equiv> (case opt_cookie opts of None \<Rightarrow> True | Some c \<Rightarrow> cookie_wf c)"

lemma of_nat_u8_between:
  "8 \<le> n \<Longrightarrow> n \<le> 32 \<Longrightarrow> 8 \<le> (of_nat n :: u8) \<and> (of_nat n :: u8) \<le> 32"
  by (simp add: word_le_nat_alt unat_of_nat_u8)

lemma cookie_option_wf: "parse_edns_cookie_option data = Inr c \<Longrightarrow> cookie_wf c"
  using of_nat_u8_between [of "length data - 8"]
  by (auto simp: parse_edns_cookie_option_def cookie_wf_def DNS_COOKIE_CLIENT_LEN_def Let_def
      split: if_splits)

lemma apply_edns_option_wf:
  "apply_edns_option opts code data = Inr opts' \<Longrightarrow> options_wf opts \<Longrightarrow> options_wf opts'"
  by (auto simp: apply_edns_option_def cookie_option_wf split: if_splits sum.splits option.splits)

lemma apply_edns_options_wf:
  "apply_edns_options os opts = Inr opts' \<Longrightarrow> options_wf opts \<Longrightarrow> options_wf opts'"
proof (induction os arbitrary: opts)
  case (Cons o' os)
  obtain code data where o': "o' = (code, data)" by (cases o')
  with Cons.prems(1) obtain opts1 where step: "apply_edns_option opts code data = Inr opts1"
    and rest: "apply_edns_options os opts1 = Inr opts'"
    by (auto split: sum.splits)
  show ?case by (rule Cons.IH [OF rest apply_edns_option_wf [OF step Cons.prems(2)]])
qed simp

lemma sole_opt_wf: "sole_opt rs = Some (Some ed) \<Longrightarrow> edns_wf ed"
proof -
  assume "sole_opt rs = Some (Some ed)"
  then obtain r opts where opts: "parse_edns_options (rdata r) = Inr opts" "ed = metadata_of_options r opts"
    by (auto simp: sole_opt_def split: list.splits if_splits sum.splits)
  then have "options_wf opts"
    using apply_edns_options_wf [of _ edns_options_default opts]
    by (auto simp: parse_edns_options_iff edns_options_default_def)
  with opts(2) show "edns_wf ed" by (simp add: edns_wf_def metadata_of_options_def fixed_metadata_def)
qed

text \<open>What a response is built from, whichever way it was built.\<close>

lemma build_response_kept:
  obtains m' tc an au ad where
    "build_response sip h rc aa q answers authorities additionals m options =
       build_response_inner sip h rc aa tc q an au ad m' options"
    "edns m' = edns m" "prefix an answers" "subseq au authorities" "prefix ad additionals"
    "transport options = Udp \<or> \<not> tc \<and> an = answers \<and> au = authorities \<and> ad = additionals"
proof (cases "transport options = Udp")
  case True
  then obtain m' glue where m': "m' = m \<or> m' = without_extended_dns_error m"
    and "truncation_of (\<lambda>tc an au ad. build_response_inner sip h rc aa tc q an au ad m' options)
          (udp_ceiling m options) glue False answers authorities additionals
          (build_response sip h rc aa q answers authorities additionals m options)"
    using build_response_spec [of m aa authorities options sip h rc q answers additionals] by auto
  moreover from m' have "edns m' = edns m" by (auto simp: without_extended_dns_error_def)
  ultimately show ?thesis using that True unfolding truncation_of_def by blast
next
  case False
  then have "build_response sip h rc aa q answers authorities additionals m options =
      build_response_inner sip h rc aa False q answers authorities additionals m options"
    using build_response_spec [of m aa authorities options sip h rc q answers additionals] by auto
  with that show ?thesis by blast
qed

lemma options_fit_of_length: "length (encode_edns_options os) < 65536 \<Longrightarrow> list_all option_fits os"
  by (induction os) (auto simp: encode_edns_options_def encode_edns_option_def split: prod.splits)

lemma response_options_fit:
  "edns_wf ed \<Longrightarrow> shape = response_shape ed options ede len ceiling \<Longrightarrow> shape_rdata_len shape < 65536 \<Longrightarrow>
     list_all option_fits (response_options sip ed options shape)"
  using response_options_length [of ed shape options ede len ceiling sip]
    response_options_encode [of ed shape options ede len ceiling sip]
  by (intro options_fit_of_length) simp

section \<open>Properties\<close>

text \<open>
  C18: the metadata of an accepted request is well formed: when an OPT was found its EDNS
  version is 0, its payload size is raised to at least 512, and a cookie has an 8-octet client
  part and a server part that is absent or 8 to 32 octets long.
\<close>

theorem request_metadata_well_formed:
  "parse_from_offset h packet offset = Inr m \<Longrightarrow> edns m = Some ed \<Longrightarrow> edns_wf ed \<and> version ed = 0"
  by (auto simp: parse_from_offset_iff metadata_with_def intro: sole_opt_wf)

theorem request_metadata_well_formed_witness:
  "let h = \<lparr> header_id = 7, flags = 0, qdcount = 0, ancount = 0, nscount = 0, arcount = 1 \<rparr>;
       packet = [0, 0, 41, 0, 100, 0, 0, 0x80, 0, 0, 0]
   in \<exists>m ed. parse_from_offset h packet 0 = Inr m \<and> edns m = Some ed \<and> edns_wf ed \<and> version ed = 0"
proof -
  let ?h = "\<lparr> header_id = 7, flags = 0, qdcount = 0, ancount = 0, nscount = 0, arcount = 1 \<rparr>"
  let ?p = "[0, 0, 41, 0, 100, 0, 0, 0x80, 0, 0, 0] :: u8 list"
  have "case parse_from_offset ?h ?p 0 of Inl _ \<Rightarrow> False | Inr m \<Rightarrow> edns m \<noteq> None" by code_simp
  then obtain m ed where "parse_from_offset ?h ?p 0 = Inr m" "edns m = Some ed" by (auto split: sum.splits)
  with request_metadata_well_formed [of ?h ?p 0 m ed] show ?thesis unfolding Let_def by blast
qed

text \<open>
  C19: a response reads back.  Its header carries the request's identifier and the response
  flags, its counts are those of the sections that were kept (and the OPT record), its question
  is the one asked, and the kept records follow it, each decoding to itself; outside UDP every
  record is kept and TC is clear.
\<close>

theorem response_reads_back:
  assumes "question_wf q" "list_all encodable (answers @ authorities @ additionals)"
  shows "\<exists>tc an au ad body. let resp = build_response sip h rc aa (Some q) answers authorities additionals m options in
    prefix an answers \<and> subseq au authorities \<and> prefix ad additionals \<and>
    (transport options = Udp \<or> \<not> tc \<and> an = answers \<and> au = authorities \<and> ad = additionals) \<and>
    parse_header resp = Inr \<lparr> header_id = header_id h, flags = response_flags h rc aa tc,
      qdcount = 1, ancount = of_nat (length an), nscount = of_nat (length au),
      arcount = of_nat (length ad + (if edns m \<noteq> None then 1 else 0)) \<rparr> \<and>
    (\<exists>q'. parse_question resp = Inr q' \<and> qname q' = qname q \<and> qtype q' = qtype q \<and> qclass q' = qclass q) \<and>
    records_decode (an @ au @ ad) resp (16 + wire_len (qname q)) body"
proof -
  let ?resp = "build_response sip h rc aa (Some q) answers authorities additionals m options"
  obtain m' tc an au ad where resp: "?resp = build_response_inner sip h rc aa tc (Some q) an au ad m' options"
    and m': "edns m' = edns m" and kept: "prefix an answers" "subseq au authorities" "prefix ad additionals"
      "transport options = Udp \<or> \<not> tc \<and> an = answers \<and> au = authorities \<and> ad = additionals"
    by (rule build_response_kept)
  have "list_all encodable (an @ au @ ad)"
    using assms(2) kept(1-3) by (auto simp: list_all_iff dest: set_mono_prefix list_emb_set)
  then show ?thesis
    using build_response_inner_reads_back [OF assms(1) _ resp] kept m' by (metis (no_types, lifting))
qed

theorem response_reads_back_witness:
  "let q = \<lparr> qname = DomainName [[0x61]], qtype = 1, qclass = 1, qname_wire_len = 3,
             qtype_qclass_wire = [0, 1, 0, 1], qname_ascii_lowercase = True \<rparr>;
       r = \<lparr> owner = DomainName [[0x61]], rec_type = 1, rec_class = 1, rec_ttl = 60, rec_rdata = [192, 0, 2, 1] \<rparr>;
       h = \<lparr> header_id = 7, flags = 0, qdcount = 1, ancount = 0, nscount = 0, arcount = 0 \<rparr>;
       resp = build_response (\<lambda>_ _ _. 0) h RC_NoError True (Some q) [r] [] [] (metadata_with None) answer_options_tcp
   in \<exists>body. records_decode [r] resp 19 body \<and>
        (\<exists>hd. parse_header resp = Inr hd \<and> header_id hd = 7 \<and> ancount hd = 1)"
proof -
  let ?q = "\<lparr> qname = DomainName [[0x61]], qtype = 1, qclass = 1, qname_wire_len = 3,
             qtype_qclass_wire = [0, 1, 0, 1], qname_ascii_lowercase = True \<rparr> :: question"
  let ?r = "\<lparr> owner = DomainName [[0x61]], rec_type = 1, rec_class = 1, rec_ttl = 60, rec_rdata = [192, 0, 2, 1] \<rparr>"
  let ?h = "\<lparr> header_id = 7, flags = 0, qdcount = 1, ancount = 0, nscount = 0, arcount = 0 \<rparr>"
  have "question_wf ?q" "list_all encodable ([?r] @ [] @ [])"
    by (simp_all add: question_wf_def valid_name_def valid_label_def wire_len_def u16_bytes_def)
  from response_reads_back [OF this, of "\<lambda>_ _ _. 0" ?h RC_NoError True "metadata_with None" answer_options_tcp]
  show ?thesis unfolding Let_def
    by (auto simp: wire_len_def answer_options_tcp_def answer_options_udp_def)
qed

text \<open>
  C20: over UDP a response is cut down to its ceiling, or to no records at all; the answers and
  additionals kept are prefixes and the authorities a subsequence of what was to be sent, and
  when an answer, an authority or the glue of a referral is left out TC is set.  Over the other
  transports nothing is left out.
\<close>

theorem udp_response_fits_or_announces:
  "\<exists>m' glue. (m' = m \<or> m' = without_extended_dns_error m) \<and>
     glue = (\<not> aa \<and> list_ex (\<lambda>r. rec_type r = type_code RT_Ns) authorities) \<and>
     (if transport options = Udp then
        truncation_of
          (\<lambda>tc an au ad. build_response_inner sip h rc aa tc q an au ad m' options)
          (udp_ceiling m options) glue False answers authorities additionals
          (build_response sip h rc aa q answers authorities additionals m options)
      else m' = m \<and> build_response sip h rc aa q answers authorities additionals m options =
        build_response_inner sip h rc aa False q answers authorities additionals m options)"
  by (rule build_response_spec)

text \<open>
  C21: the OPT record of a response reads back.  Where it was appended the record parser finds a
  root-owned OPT with the advertised payload size, the extended response code and the DO bit,
  whose rdata is the sequence of response options, and the option parser reads those options.
\<close>

theorem opt_record_reads_back:
  assumes "edns_wf ed" "shape = response_shape ed options ede (length r) ceiling"
    and "shape_rdata_len shape < 65536"
  shows "\<exists>v. parse_record_view (encode_opt_record sip ed ext_rcode ede options ceiling r) (length r) =
      Inr (v, 11 + shape_rdata_len shape) \<and>
    owner_is_root v \<and> rr_type v = type_code RT_Opt \<and> rr_class v = max_udp_payload options \<and>
    ttl v = opt_ttl ext_rcode (do_bit ed) \<and>
    rdata v = encode_edns_options (response_options sip ed options shape) \<and>
    parse_edns_options (rdata v) = apply_edns_options (response_options sip ed options shape) edns_options_default"
  using opt_record_view [OF assms, of sip ext_rcode] response_options_fit [OF assms, of sip]
    parse_edns_options_loop_encode [of "response_options sip ed options shape" "[]" edns_options_default]
  by (auto simp: parse_edns_options_def)

theorem opt_record_reads_back_witness:
  "\<exists>v. parse_record_view (encode_opt_record (\<lambda>_ _ _. 0)
        \<lparr> payload_size = 1232, version = 0, do_bit = True, tcp_keepalive_requested = False,
          malformed_tcp_keepalive = False, nsid_requested = False, cookie = None, padding_requested = False \<rparr>
        16 None (answer_options_udp 1232) 1232 [9]) 1 = Inr (v, 11) \<and>
     owner_is_root v \<and> rr_type v = 41 \<and> ttl v = 0x01008000"
proof -
  let ?ed = "\<lparr> payload_size = 1232, version = 0, do_bit = True, tcp_keepalive_requested = False,
          malformed_tcp_keepalive = False, nsid_requested = False, cookie = None, padding_requested = False \<rparr>"
  let ?o = "answer_options_udp 1232"
  have "edns_wf ?ed" by (simp add: edns_wf_def)
  moreover have len: "shape_rdata_len (response_shape ?ed ?o None (length [9 :: u8]) 1232) = 0"
    by (simp add: edns_response_options_shape_from_base_def edns_response_base_shape_def Let_def
        answer_options_udp_def)
  moreover have "opt_ttl 16 True = 0x01008000" by code_simp
  ultimately show ?thesis
    using opt_record_reads_back [OF _ refl, of ?ed ?o None "[9]" 1232 "\<lambda>_ _ _. 0" 16] by auto
qed

text \<open>
  C22: a padded response over TLS has a length that is a multiple of the configured block size.
\<close>

theorem tls_padding_block_aligned:
  assumes "edns_wf ed" "transport options = Tls" "padding_requested ed" "0 < edns_padding_block_size options"
    and "edns m = Some ed"
  shows "unat (edns_padding_block_size options) dvd
    length (build_response sip h rc aa q answers authorities additionals m options)"
proof -
  obtain m' tc an au ad where
    "build_response sip h rc aa q answers authorities additionals m options =
       build_response_inner sip h rc aa tc q an au ad m' options" "edns m' = Some ed"
    by (metis assms(5) build_response_kept)
  then show ?thesis
    using padded_response_length [OF assms(1-4)] by (auto simp: build_response_inner_def Let_def split: prod.splits)
qed

theorem tls_padding_block_aligned_witness:
  "let ed = \<lparr> payload_size = 1232, version = 0, do_bit = True, tcp_keepalive_requested = False,
          malformed_tcp_keepalive = False, nsid_requested = False, cookie = None, padding_requested = True \<rparr>;
       h = \<lparr> header_id = 7, flags = 0, qdcount = 1, ancount = 0, nscount = 0, arcount = 0 \<rparr>
   in 468 dvd length (build_response (\<lambda>_ _ _. 0) h RC_NoError True None [] [] [] (metadata_with (Some ed))
        (answer_options_tcp \<lparr> transport := Tls, edns_padding_block_size := 468 \<rparr>))"
  unfolding Let_def
  using tls_padding_block_aligned [of "\<lparr> payload_size = 1232, version = 0, do_bit = True, tcp_keepalive_requested = False,
      malformed_tcp_keepalive = False, nsid_requested = False, cookie = None, padding_requested = True \<rparr>"
      "answer_options_tcp \<lparr> transport := Tls, edns_padding_block_size := 468 \<rparr>"]
  by (simp add: edns_wf_def metadata_with_def)

end
