(* ===== verification/Response_Scan.thy ===== *)
theory Response_Scan
  imports Dns_Response
begin

text \<open>
  Reading finished responses again, from \<open>crates/borondns-server/src/rate_limit.rs\<close> and
  \<open>crates/borondns-server/src/udp.rs\<close>: the scanners that classify a response for rate limiting
  and for the metrics, and the minimal truncated response sent instead of a rate-limited one.
  Offsets are below the length of a packet, so the \<open>checked_add\<close> calls of the source never fail
  and offsets are natural numbers.
\<close>

section \<open>Walking the sections\<close>

fun question_end_loop :: "nat \<Rightarrow> bytes \<Rightarrow> nat \<Rightarrow> nat option" where
  "question_end_loop 0 response offset = Some offset"
| "question_end_loop (Suc n) response offset =
     (case parse_name response offset of
        Inl _ \<Rightarrow> None
      | Inr (_, consumed) \<Rightarrow>
          if length response < offset + consumed + 4 then None
          else question_end_loop n response (offset + consumed + 4))"

definition response_question_end :: "bytes \<Rightarrow> header \<Rightarrow> nat option" where
  "response_question_end response h = question_end_loop (unat (qdcount h)) response 12"

definition skip_response_record :: "bytes \<Rightarrow> nat \<Rightarrow> nat option" where
  "skip_response_record response offset =
     (case parse_name response offset of
        Inl _ \<Rightarrow> None
      | Inr (_, consumed) \<Rightarrow>
          let offset = offset + consumed in
          if length response < offset + 10 then None
          else
            let rdlength = unat (be16 (response ! (offset + 8)) (response ! (offset + 9)));
                offset = offset + 10 + rdlength
            in if offset \<le> length response then Some offset else None)"

definition response_record_type :: "bytes \<Rightarrow> nat \<Rightarrow> (u16 \<times> nat) option" where
  "response_record_type response offset =
     (case parse_name response offset of
        Inl _ \<Rightarrow> None
      | Inr (_, consumed) \<Rightarrow>
          let header_offset = offset + consumed in
          if length response < header_offset + 10 then None
          else
            let rt = be16 (response ! header_offset) (response ! (header_offset + 1));
                rdlength = unat (be16 (response ! (header_offset + 8)) (response ! (header_offset + 9)));
                next = header_offset + 10 + rdlength
            in if next \<le> length response then Some (rt, next) else None)"

fun skip_response_records :: "nat \<Rightarrow> bytes \<Rightarrow> nat \<Rightarrow> nat option" where
  "skip_response_records 0 response offset = Some offset"
| "skip_response_records (Suc n) response offset =
     (case skip_response_record response offset of
        None \<Rightarrow> None | Some next \<Rightarrow> skip_response_records n response next)"

section \<open>Response code, OPT record and record types\<close>

fun extended_rcode_loop :: "nat \<Rightarrow> bytes \<Rightarrow> nat \<Rightarrow> u16 option" where
  "extended_rcode_loop 0 response offset = None"
| "extended_rcode_loop (Suc n) response offset =
     (case parse_name response offset of
        Inl _ \<Rightarrow> None
      | Inr (_, consumed) \<Rightarrow>
          let offset = offset + consumed in
          if length response < offset + 10 then None
          else
            let rt = be16 (response ! offset) (response ! (offset + 1));
                ttl = be32 (response ! (offset + 4)) (response ! (offset + 5))
                        (response ! (offset + 6)) (response ! (offset + 7));
                rdlength = unat (be16 (response ! (offset + 8)) (response ! (offset + 9)));
                offset = offset + 10 + rdlength
            in if length response < offset then None
               else if rt = type_code RT_Opt then Some (push_bit 4 (ucast (drop_bit 24 ttl)))
               else extended_rcode_loop n response offset)"

definition response_extended_rcode :: "bytes \<Rightarrow> header \<Rightarrow> u16 option" where
  "response_extended_rcode response h =
     (case question_end_loop (unat (qdcount h)) response 12 of
        None \<Rightarrow> None
      | Some offset \<Rightarrow>
          (case skip_response_records (unat (ancount h)) response offset of
             None \<Rightarrow> None
           | Some offset \<Rightarrow>
               (case skip_response_records (unat (nscount h)) response offset of
                  None \<Rightarrow> None
                | Some offset \<Rightarrow> extended_rcode_loop (unat (arcount h)) response offset)))"

definition response_rcode :: "bytes \<Rightarrow> header \<Rightarrow> u16" where
  "response_rcode response h =
     (flags h AND 0x000f) OR (case response_extended_rcode response h of None \<Rightarrow> 0 | Some e \<Rightarrow> e)"

fun opt_record_loop :: "nat \<Rightarrow> bytes \<Rightarrow> nat \<Rightarrow> bytes option" where
  "opt_record_loop 0 response offset = None"
| "opt_record_loop (Suc n) response offset =
     (case response_record_type response offset of
        None \<Rightarrow> None
      | Some (rt, next) \<Rightarrow>
          if rt = type_code RT_Opt then Some (sub_slice response offset next)
          else opt_record_loop n response next)"

definition response_opt_record :: "bytes \<Rightarrow> header \<Rightarrow> bytes option" where
  "response_opt_record response h =
     (case response_question_end response h of
        None \<Rightarrow> None
      | Some offset \<Rightarrow>
          (case skip_response_records (unat (ancount h)) response offset of
             None \<Rightarrow> None
           | Some offset \<Rightarrow>
               (case skip_response_records (unat (nscount h)) response offset of
                  None \<Rightarrow> None
                | Some offset \<Rightarrow> opt_record_loop (unat (arcount h)) response offset)))"

text \<open>
  The loops that look for a record type: an early \<open>return true\<close>, an early \<open>return false\<close> on a
  record that does not parse (\<open>Inl\<close>), or the offset to go on from (\<open>Inr\<close>).
\<close>

fun find_type_loop :: "(u16 \<Rightarrow> bool) \<Rightarrow> nat \<Rightarrow> bytes \<Rightarrow> nat \<Rightarrow> bool + nat" where
  "find_type_loop wanted 0 response offset = Inr offset"
| "find_type_loop wanted (Suc n) response offset =
     (case response_record_type response offset of
        None \<Rightarrow> Inl False
      | Some (rt, next) \<Rightarrow> if wanted rt then Inl True else find_type_loop wanted n response next)"

definition response_has_authority_ns :: "bytes \<Rightarrow> header \<Rightarrow> bool" where
  "response_has_authority_ns response h =
     (case response_question_end response h of
        None \<Rightarrow> False
      | Some offset \<Rightarrow>
          (case skip_response_records (unat (ancount h)) response offset of
             None \<Rightarrow> False
           | Some offset \<Rightarrow>
               (case find_type_loop (\<lambda>rt. rt = type_code RT_Ns) (unat (nscount h)) response offset of
                  Inl found \<Rightarrow> found | Inr _ \<Rightarrow> False)))"

definition response_answer_contains_type :: "bytes \<Rightarrow> header \<Rightarrow> u16 list \<Rightarrow> bool" where
  "response_answer_contains_type response h types =
     (case response_question_end response h of
        None \<Rightarrow> False
      | Some offset \<Rightarrow>
          (case find_type_loop (\<lambda>rt. rt \<in> set types) (unat (ancount h)) response offset of
             Inl found \<Rightarrow> found | Inr _ \<Rightarrow> False))"

fun contains_type_sections :: "(u16 \<Rightarrow> bool) \<Rightarrow> u16 list \<Rightarrow> bytes \<Rightarrow> nat \<Rightarrow> bool" where
  "contains_type_sections wanted [] response offset = False"
| "contains_type_sections wanted (count # counts) response offset =
     (case find_type_loop wanted (unat count) response offset of
        Inl found \<Rightarrow> found | Inr next \<Rightarrow> contains_type_sections wanted counts response next)"

definition response_contains_type :: "bytes \<Rightarrow> header \<Rightarrow> u16 list \<Rightarrow> bool" where
  "response_contains_type response h types =
     (case response_question_end response h of
        None \<Rightarrow> False
      | Some offset \<Rightarrow>
          contains_type_sections (\<lambda>rt. rt \<noteq> type_code RT_Opt \<and> rt \<in> set types)
            [ancount h, nscount h, arcount h] response offset)"

section \<open>Categories\<close>

datatype rrl_category = Positive | NxDomain | NoData | Referral | Error

definition response_category :: "bytes \<Rightarrow> rrl_category option" where
  "response_category response =
     (case parse_header response of
        Inl _ \<Rightarrow> None
      | Inr h \<Rightarrow>
          if \<not> is_response h \<or> header_opcode h \<noteq> Some Query then None
          else
            let rc = response_rcode response h in
            if rc = 0 \<and> 0 < ancount h then Some Positive
            else if rc = 0 \<and> response_has_authority_ns response h then Some Referral
            else if rc = 0 then Some NoData
            else if rc = 3 then Some NxDomain
            else Some Error)"

datatype response_cache_ineligible_reason = IneligibleCookie | IneligibleTsig | IneligibleRrl
  | IneligibleTruncated | IneligibleEdnsPadding | IneligibleOther

definition response_cache_ineligible_reason_of ::
  "bool \<Rightarrow> bool \<Rightarrow> bool \<Rightarrow> u16 \<Rightarrow> response_cache_ineligible_reason option" where
  "response_cache_ineligible_reason_of tsig_authenticated dns_cookie_enabled rrl_subject padding_block_size =
     (if tsig_authenticated then Some IneligibleTsig
      else if dns_cookie_enabled then Some IneligibleCookie
      else if rrl_subject then Some IneligibleRrl
      else if 0 < padding_block_size then Some IneligibleEdnsPadding
      else None)"

datatype response_cache_candidate_category = CandidateDirect | CandidateNegative | CandidateCname
  | CandidateDnssec

definition response_cache_candidate_category_of :: "bytes \<Rightarrow> header \<Rightarrow> response_cache_candidate_category" where
  "response_cache_candidate_category_of response h =
     (if response_contains_type response h
           [type_code RT_Ds, type_code RT_Rrsig, type_code RT_Nsec, type_code RT_Dnskey, type_code RT_Nsec3]
      then CandidateDnssec
      else if response_rcode response h = rcode_code RC_NxDomain \<or> ancount h = 0 then CandidateNegative
      else if response_answer_contains_type response h [type_code RT_Cname, type_code RT_Dname]
      then CandidateCname
      else CandidateDirect)"

definition response_has_dnssec_augmentation :: "bytes \<Rightarrow> header \<Rightarrow> bool" where
  "response_has_dnssec_augmentation response h =
     (case response_opt_record response h of
        None \<Rightarrow> False
      | Some opt \<Rightarrow>
          if length opt < 9 then False
          else be32 (opt ! 5) (opt ! 6) (opt ! 7) (opt ! 8) AND 0x8000 \<noteq> 0)"

datatype query_latency_category = UdpDirect | UdpCnameChain | TcpDirect | TcpCnameChain
  | DnssecAugmented | CookieValidated

definition query_latency_category_of :: "bool \<Rightarrow> transport \<Rightarrow> bytes \<Rightarrow> header \<Rightarrow> query_latency_category" where
  "query_latency_category_of cookie_validated tr response h =
     (if cookie_validated then CookieValidated
      else if response_has_dnssec_augmentation response h then DnssecAugmented
      else
        let cname_chain = response_answer_contains_type response h [type_code RT_Cname, type_code RT_Dname] in
        case tr of
          Udp \<Rightarrow> if cname_chain then UdpCnameChain else UdpDirect
        | Tcp \<Rightarrow> if cname_chain then TcpCnameChain else TcpDirect
        | Tls \<Rightarrow> if cname_chain then TcpCnameChain else TcpDirect)"

section \<open>The response sent instead of a rate-limited one\<close>

definition rrl_truncated_response :: "bytes \<Rightarrow> bytes" where
  "rrl_truncated_response response =
     (case parse_header response of
        Inl _ \<Rightarrow> response
      | Inr h \<Rightarrow>
          let question_end = (case response_question_end response h of None \<Rightarrow> 12 | Some e \<Rightarrow> e);
              opt = response_opt_record response h
          in sub_slice response 0 2 @ u16_bytes (flags h OR 0x0200) @ u16_bytes (qdcount h) @
             u16_bytes 0 @ u16_bytes 0 @ u16_bytes (if opt \<noteq> None then 1 else 0) @
             (if 12 < question_end \<and> question_end \<le> length response
              then sub_slice response 12 question_end else []) @
             (case opt of Some o' \<Rightarrow> o' | None \<Rightarrow> []))"

section \<open>The scanners on decodable packets\<close>

lemma response_record_type_view:
  "response_record_type p offset =
     (case parse_record_view p offset of Inl _ \<Rightarrow> None | Inr (r, c) \<Rightarrow> Some (rr_type r, offset + c))"
  unfolding response_record_type_def parse_record_view_def parse_record_view_inner_def scan_eq_parse
  by (auto simp: Let_def not_less split: sum.splits)

lemma skip_response_record_type:
  "skip_response_record p offset = map_option snd (response_record_type p offset)"
  unfolding response_record_type_def skip_response_record_def by (auto simp: Let_def split: sum.splits)

lemma extended_rcode_loop_view:
  "extended_rcode_loop (Suc n) p offset =
     (case parse_record_view p offset of
        Inl _ \<Rightarrow> None
      | Inr (r, c) \<Rightarrow> if is_opt r then Some (push_bit 4 (ucast (drop_bit 24 (ttl r))))
                     else extended_rcode_loop n p (offset + c))"
  unfolding extended_rcode_loop.simps parse_record_view_def parse_record_view_inner_def scan_eq_parse
  by (auto simp: Let_def not_less add.assoc split: sum.splits)

declare extended_rcode_loop.simps(2) [simp del]

lemma record_decodes_view:
  assumes "record_decodes r p pos len"
  obtains v where "parse_record_view p pos = Inr (v, len)" "rr_type v = rec_type r"
proof -
  from assms obtain v where v: "parse_record_view_inner p pos (Some (owner r)) = Inr (v, True, len)"
    "rr_type v = rec_type r" unfolding record_decodes_def by blast
  from v(1) have "parse_record_view p pos = Inr (v, len)"
    unfolding parse_record_view_def parse_record_view_inner_def scan_eq_parse
    by (auto simp: Let_def split: sum.splits if_splits)
  with that v(2) show ?thesis by blast
qed

lemma record_decodes_type:
  "record_decodes r p pos len \<Longrightarrow> response_record_type p pos = Some (rec_type r, pos + len)"
  by (elim record_decodes_view) (simp add: response_record_type_view)

lemma skip_records_decode:
  "records_decode rs p pos len \<Longrightarrow> skip_response_records (length rs) p pos = Some (pos + len)"
  by (induction rs arbitrary: pos len)
    (auto simp: skip_response_record_type record_decodes_type add.assoc)

lemma find_type_decode:
  "records_decode rs p pos len \<Longrightarrow> find_type_loop wanted (length rs) p pos =
     (if list_ex (\<lambda>r. wanted (rec_type r)) rs then Inl True else Inr (pos + len))"
  by (induction rs arbitrary: pos len) (auto simp: record_decodes_type add.assoc)

abbreviation no_opt :: "resource_record list \<Rightarrow> bool" where
  "no_opt rs \<equiv> list_all (\<lambda>r. rec_type r \<noteq> type_code RT_Opt) rs"

lemma opt_record_loop_decode:
  "records_decode rs p pos len \<Longrightarrow> no_opt rs \<Longrightarrow>
     opt_record_loop (length rs + k) p pos = opt_record_loop k p (pos + len)"
  by (induction rs arbitrary: pos len) (auto simp: record_decodes_type add.assoc)

lemma extended_rcode_loop_decode:
  "records_decode rs p pos len \<Longrightarrow> no_opt rs \<Longrightarrow>
     extended_rcode_loop (length rs + k) p pos = extended_rcode_loop k p (pos + len)"
proof (induction rs arbitrary: pos len)
  case (Cons r rs)
  then obtain l m where lm: "len = l + m" "record_decodes r p pos l" "records_decode rs p (pos + l) m" by auto
  from lm(2) obtain v where "parse_record_view p pos = Inr (v, l)" "rr_type v = rec_type r"
    by (rule record_decodes_view)
  with Cons lm show ?case by (simp add: extended_rcode_loop_view add.assoc)
qed simp

lemma records_decode_append:
  "records_decode (rs @ ss) p pos len \<longleftrightarrow>
     (\<exists>l m. len = l + m \<and> records_decode rs p pos l \<and> records_decode ss p (pos + l) m)"
proof (induction rs arbitrary: pos len)
  case (Cons r rs)
  then show ?case by (auto simp: add.assoc) (metis add.assoc)+
qed simp

text \<open>
  The parts a response is built from: a well-formed question, encodable records none of which is
  an OPT, section sizes that fit their counters, and an OPT record that fits its length field.
\<close>

definition parts_wf ::
  "question \<Rightarrow> resource_record list \<Rightarrow> resource_record list \<Rightarrow> resource_record list \<Rightarrow> request_metadata
     \<Rightarrow> answer_options \<Rightarrow> bool" where
  "parts_wf q an au ad m options \<longleftrightarrow>
     question_wf q \<and> list_all encodable (an @ au @ ad) \<and> no_opt (an @ au @ ad) \<and>
     length an < 65536 \<and> length au < 65536 \<and> length ad < 65535 \<and>
     (case edns m of None \<Rightarrow> True | Some ed \<Rightarrow> edns_wf ed) \<and>
     length (nsid options) + unat (edns_padding_block_size options) < 65400"

lemma base_rdata_len_bound:
  "base_rdata_len (edns_response_base_shape ed options ede) \<le> 44 + length (nsid options)"
  by (simp add: edns_response_base_shape_def Let_def DNS_COOKIE_CLIENT_LEN_def DNS_COOKIE_SERVER_V1_LEN_def)

lemma shape_rdata_len_bound:
  assumes "length (nsid options) + unat (edns_padding_block_size options) < 65400"
  shows "shape_rdata_len (response_shape ed options ede len ceiling) < 65536"
proof -
  have "(B - t mod B) mod B \<le> B" for t B :: nat
    by (metis diff_le_self mod_le_divisor mod_self not_gr_zero order_refl diff_zero mod_0 zero_diff)
  then have "shape_rdata_len (response_shape ed options ede len ceiling) \<le>
      base_rdata_len (edns_response_base_shape ed options ede) + 4 + unat (edns_padding_block_size options)"
    by (auto simp: edns_response_options_shape_from_base_def Let_def split: prod.splits if_splits)
  with base_rdata_len_bound [of ed options ede] assms show ?thesis by linarith
qed

definition built_header ::
  "header \<Rightarrow> rcode \<Rightarrow> bool \<Rightarrow> bool \<Rightarrow> nat \<Rightarrow> nat \<Rightarrow> nat \<Rightarrow> header" where
  "built_header h rc aa tc an au ad = \<lparr> header_id = header_id h, flags = response_flags h rc aa tc,
     qdcount = 1, ancount = of_nat an, nscount = of_nat au, arcount = of_nat ad \<rparr>"

lemma built_response_scan:
  assumes wf: "parts_wf q an au ad m options"
    and resp: "resp = build_response_inner sip h rc aa tc (Some q) an au ad m options"
    and hdr: "hdr = response_header h rc aa tc (Some q) (length an) (length au)
      (length ad + (if edns m \<noteq> None then 1 else 0))"
    and h': "h' = built_header h rc aa tc (length an) (length au) (length ad + (if edns m \<noteq> None then 1 else 0))"
  obtains pre body l1 l2 l3 where "pre = hdr @ encode_question q @ body"
    "parse_header resp = Inr h'" "response_question_end resp h' = Some (16 + wire_len (qname q))"
    "records_decode an resp (16 + wire_len (qname q)) l1"
    "records_decode au resp (16 + wire_len (qname q) + l1) l2"
    "records_decode ad resp (16 + wire_len (qname q) + l1 + l2) l3"
    "length pre = 16 + wire_len (qname q) + l1 + l2 + l3"
    "resp = (case edns m of None \<Rightarrow> pre
     | Some ed \<Rightarrow> encode_opt_record sip ed (extended_rcode m) (extended_dns_error m) options
         (udp_ceiling m options) pre)"
proof -
  from wf have q: "question_wf q" and enc: "list_all encodable (an @ au @ ad)" unfolding parts_wf_def by auto
  obtain body opt where full: "resp = hdr @ encode_question q @ body @ opt"
    and decode: "records_decode (an @ au @ ad) resp (16 + wire_len (qname q)) (length body)"
    and opt: "case edns m of None \<Rightarrow> opt = [] | Some ed \<Rightarrow> resp = encode_opt_record sip ed (extended_rcode m)
      (extended_dns_error m) options (udp_ceiling m options) (hdr @ encode_question q @ body)"
    by (rule build_response_inner_layout [OF q enc resp hdr])
  from decode obtain l1 l2 l3 where ls: "length body = l1 + l2 + l3"
    "records_decode an resp (16 + wire_len (qname q)) l1"
    "records_decode au resp (16 + wire_len (qname q) + l1) l2"
    "records_decode ad resp (16 + wire_len (qname q) + l1 + l2) l3"
    by (auto simp: records_decode_append add.assoc)
  have ph: "parse_header resp = Inr h'"
    unfolding full hdr by (simp add: response_header_wire h' built_header_def)
  have hdr12: "length hdr = 12" by (simp add: hdr response_header_wire)
  have "parse_name resp 12 = Inr (qname q, wire_len (qname q))"
    using q parse_to_wire [of "qname q" hdr "u16_bytes (qtype q) @ u16_bytes (qclass q) @ body @ opt"] hdr12
    unfolding full encode_question_wire [OF q] question_wire_def question_wf_def by simp
  moreover have "16 + wire_len (qname q) \<le> length resp"
    unfolding full by (simp add: hdr12 encode_question_wire [OF q])
  ultimately have qe: "response_question_end resp h' = Some (16 + wire_len (qname q))"
    by (simp add: response_question_end_def h' built_header_def)
  have len: "length (hdr @ encode_question q @ body) = 16 + wire_len (qname q) + l1 + l2 + l3"
    using hdr12 ls(1) by (simp add: encode_question_wire [OF q])
  have "resp = (case edns m of None \<Rightarrow> hdr @ encode_question q @ body
     | Some ed \<Rightarrow> encode_opt_record sip ed (extended_rcode m) (extended_dns_error m) options
         (udp_ceiling m options) (hdr @ encode_question q @ body))"
    using opt full by (simp split: option.splits)
  from that [OF refl ph qe ls(2-4) len this] show ?thesis .
qed

section \<open>Built responses under the scanners\<close>

text \<open>The response code a reader puts together from the header and the OPT record.\<close>

definition wire_rcode :: "rcode \<Rightarrow> request_metadata \<Rightarrow> u16" where
  "wire_rcode rc m = rcode_bits rc OR
     (if edns m = None then 0 else push_bit 4 (drop_bit 4 (extended_rcode m) AND 0xff))"

lemma opt_ttl_extended: "ucast (drop_bit 24 (opt_ttl x d)) = drop_bit 4 (x :: u16) AND 0xff"
proof -
  have "(0xff :: u16) = mask 8" by (simp add: mask_eq_exp_minus_1)
  show ?thesis unfolding \<open>0xff = mask 8\<close> by (intro bit_eqI) (auto simp: opt_ttl_def bit_simps)
qed

lemma opcode_mask: "ucast (drop_bit 11 (f :: u16) AND 0x0f) = (ucast (drop_bit 11 (f AND 0x7800)) :: u8)"
proof -
  have "drop_bit 11 (f AND 0x7800) = drop_bit 11 f AND 0x0f" by (simp add: drop_bit_and)
  then show ?thesis by simp
qed

lemma header_opcode_built [simp]: "header_opcode (built_header h rc aa tc an au ad) = header_opcode h"
  unfolding header_opcode_def opcode_value_def opcode_mask
  by (simp add: built_header_def response_flags_masks)

lemma is_response_built [simp]: "is_response (built_header h rc aa tc an au ad)"
  by (simp add: is_response_def built_header_def response_flags_masks)

lemma built_header_simps [simp]:
  "header_id (built_header h rc aa tc an au ad) = header_id h"
  "flags (built_header h rc aa tc an au ad) = response_flags h rc aa tc"
  "qdcount (built_header h rc aa tc an au ad) = 1"
  "ancount (built_header h rc aa tc an au ad) = of_nat an"
  "nscount (built_header h rc aa tc an au ad) = of_nat au"
  "arcount (built_header h rc aa tc an au ad) = of_nat ad"
  by (simp_all add: built_header_def)

lemma response_flags_set_tc: "response_flags h rc aa tc OR 0x0200 = response_flags h rc aa True"
  by (cases tc) (simp_all add: flag_simps ac_simps)

lemma parts_wf_counts:
  assumes "parts_wf q an au ad m options"
  shows "unat (of_nat (length an) :: u16) = length an" "unat (of_nat (length au) :: u16) = length au"
    "unat (of_nat (length ad + (if edns m \<noteq> None then 1 else 0)) :: u16) =
       length ad + (if edns m \<noteq> None then 1 else 0)"
  using assms by (simp_all add: parts_wf_def unat_of_nat_u16 del: of_nat_add)

lemma opt_view_built:
  assumes "parts_wf q an au ad m options" "edns m = Some ed"
    and "resp = encode_opt_record sip ed x ede options ceiling r"
  obtains v where "parse_record_view resp (length r) = Inr (v, length resp - length r)" "is_opt v"
    "ttl v = opt_ttl x (do_bit ed)"
proof -
  from assms(1,2) have wf: "edns_wf ed"
    and small: "shape_rdata_len (response_shape ed options ede (length r) ceiling) < 65536"
    by (simp_all add: parts_wf_def shape_rdata_len_bound)
  have "length resp - length r = 11 + shape_rdata_len (response_shape ed options ede (length r) ceiling)"
    using encode_opt_record_length [OF wf] assms(3) by simp
  with opt_record_view [OF wf refl small, of sip x] assms(3) that show ?thesis by auto
qed

lemma response_rcode_built:
  assumes wf: "parts_wf q an au ad m options"
    and resp: "resp = build_response_inner sip h rc aa tc (Some q) an au ad m options"
    and h': "h' = built_header h rc aa tc (length an) (length au) (length ad + (if edns m \<noteq> None then 1 else 0))"
  shows "response_rcode resp h' = wire_rcode rc m"
proof -
  obtain pre l1 l2 l3 where scan:
    "response_question_end resp h' = Some (16 + wire_len (qname q))"
    "records_decode an resp (16 + wire_len (qname q)) l1"
    "records_decode au resp (16 + wire_len (qname q) + l1) l2"
    "records_decode ad resp (16 + wire_len (qname q) + l1 + l2) l3"
    "length pre = 16 + wire_len (qname q) + l1 + l2 + l3"
    "resp = (case edns m of None \<Rightarrow> pre | Some ed \<Rightarrow> encode_opt_record sip ed (extended_rcode m)
       (extended_dns_error m) options (udp_ceiling m options) pre)"
    by (rule built_response_scan [OF wf resp refl h'])
  from wf have "no_opt ad" by (simp add: parts_wf_def)
  note loop = extended_rcode_loop_decode [OF scan(4) this]
  have "response_extended_rcode resp h' = extended_rcode_loop
      (length ad + (if edns m \<noteq> None then 1 else 0)) resp (16 + wire_len (qname q) + l1 + l2)"
    using scan(1) skip_records_decode [OF scan(2)] skip_records_decode [OF scan(3)] parts_wf_counts [OF wf]
    by (simp add: response_extended_rcode_def response_question_end_def h' del: of_nat_add)
  also have "\<dots> = (if edns m = None then None else Some (push_bit 4 (drop_bit 4 (extended_rcode m) AND 0xff)))"
  proof (cases "edns m")
    case None
    with loop [of 0] show ?thesis by simp
  next
    case (Some ed)
    with scan(6) have "resp = encode_opt_record sip ed (extended_rcode m) (extended_dns_error m) options
         (udp_ceiling m options) pre" by simp
    from opt_view_built [OF wf Some this] scan(5) obtain v c where
      "parse_record_view resp (16 + wire_len (qname q) + l1 + l2 + l3) = Inr (v, c)" "is_opt v"
      "ttl v = opt_ttl (extended_rcode m) (do_bit ed)" by metis
    with Some loop [of 1] show ?thesis by (simp add: extended_rcode_loop_view opt_ttl_extended)
  qed
  finally show ?thesis by (simp add: response_rcode_def wire_rcode_def h' response_flags_masks)
qed

lemma response_category_built:
  assumes wf: "parts_wf q an au ad m options"
  shows "response_category (build_response_inner sip h rc aa tc (Some q) an au ad m options) =
    (if header_opcode h \<noteq> Some Query then None
     else Some (if wire_rcode rc m = 0 then
                  (if an \<noteq> [] then Positive
                   else if list_ex (\<lambda>r. rec_type r = type_code RT_Ns) au then Referral else NoData)
                else if wire_rcode rc m = 3 then NxDomain else Error))"
proof -
  define resp where "resp = build_response_inner sip h rc aa tc (Some q) an au ad m options"
  define h' where "h' = built_header h rc aa tc (length an) (length au) (length ad + (if edns m \<noteq> None then 1 else 0))"
  obtain l1 l2 where scan: "parse_header resp = Inr h'"
    "response_question_end resp h' = Some (16 + wire_len (qname q))"
    "records_decode an resp (16 + wire_len (qname q)) l1"
    "records_decode au resp (16 + wire_len (qname q) + l1) l2"
    by (rule built_response_scan [OF wf resp_def refl h'_def])
  have "response_has_authority_ns resp h' \<longleftrightarrow> list_ex (\<lambda>r. rec_type r = type_code RT_Ns) au"
    using scan(2) skip_records_decode [OF scan(3)] find_type_decode [OF scan(4)] parts_wf_counts [OF wf]
    by (simp add: response_has_authority_ns_def h'_def del: of_nat_add)
  moreover have "0 < ancount h' \<longleftrightarrow> an \<noteq> []"
    using parts_wf_counts(1) [OF wf] by (auto simp: h'_def word_less_nat_alt)
  ultimately show ?thesis
    using scan(1) response_rcode_built [OF wf resp_def h'_def]
    unfolding resp_def [symmetric] by (simp add: response_category_def h'_def Let_def)
qed

text \<open>The OPT record a response ends with does not depend on what precedes it, except for padding.\<close>

lemma encode_opt_record_append:
  assumes "transport options \<noteq> Tls"
  shows "encode_opt_record sip ed x ede options ceiling r = r @ encode_opt_record sip ed x ede options ceiling []"
proof -
  have "response_shape ed options ede (length r) ceiling = response_shape ed options ede 0 ceiling"
    using assms by (simp add: edns_response_options_shape_from_base_def)
  then show ?thesis by (simp add: encode_opt_record_def encode_opt_record_with_base_shape_def Let_def)
qed

lemma response_opt_record_built:
  assumes wf: "parts_wf q an au ad m options" and tr: "transport options \<noteq> Tls"
    and resp: "resp = build_response_inner sip h rc aa tc (Some q) an au ad m options"
    and h': "h' = built_header h rc aa tc (length an) (length au) (length ad + (if edns m \<noteq> None then 1 else 0))"
  shows "response_opt_record resp h' = (case edns m of None \<Rightarrow> None
    | Some ed \<Rightarrow> Some (encode_opt_record sip ed (extended_rcode m) (extended_dns_error m) options
        (udp_ceiling m options) []))"
proof -
  obtain pre l1 l2 l3 where scan:
    "response_question_end resp h' = Some (16 + wire_len (qname q))"
    "records_decode an resp (16 + wire_len (qname q)) l1"
    "records_decode au resp (16 + wire_len (qname q) + l1) l2"
    "records_decode ad resp (16 + wire_len (qname q) + l1 + l2) l3"
    "length pre = 16 + wire_len (qname q) + l1 + l2 + l3"
    "resp = (case edns m of None \<Rightarrow> pre | Some ed \<Rightarrow> encode_opt_record sip ed (extended_rcode m)
       (extended_dns_error m) options (udp_ceiling m options) pre)"
    by (rule built_response_scan [OF wf resp refl h'])
  from wf have "no_opt ad" by (simp add: parts_wf_def)
  note loop = opt_record_loop_decode [OF scan(4) this]
  have "response_opt_record resp h' = opt_record_loop
      (length ad + (if edns m \<noteq> None then 1 else 0)) resp (16 + wire_len (qname q) + l1 + l2)"
    using scan(1) skip_records_decode [OF scan(2)] skip_records_decode [OF scan(3)] parts_wf_counts [OF wf]
    by (simp add: response_opt_record_def h' del: of_nat_add)
  also have "\<dots> = (case edns m of None \<Rightarrow> None
    | Some ed \<Rightarrow> Some (encode_opt_record sip ed (extended_rcode m) (extended_dns_error m) options
        (udp_ceiling m options) []))"
  proof (cases "edns m")
    case None
    with loop [of 0] show ?thesis by simp
  next
    case (Some ed)
    with scan(6) have enc: "resp = encode_opt_record sip ed (extended_rcode m) (extended_dns_error m) options
         (udp_ceiling m options) pre" by simp
    then obtain v where view: "parse_record_view resp (length pre) = Inr (v, length resp - length pre)" "is_opt v"
      by (rule opt_view_built [OF wf Some])
    have split: "resp = pre @ encode_opt_record sip ed (extended_rcode m) (extended_dns_error m) options
         (udp_ceiling m options) []" unfolding enc by (rule encode_opt_record_append [OF tr])
    then have "length pre + (length resp - length pre) = length resp" by (simp only: length_append)
    moreover have "sub_slice resp (length pre) (length resp) = encode_opt_record sip ed (extended_rcode m)
        (extended_dns_error m) options (udp_ceiling m options) []"
      by (subst split) (rule sub_slice_append_end [OF refl], simp only: split length_append)
    ultimately have "opt_record_loop 1 resp (length pre) = Some (encode_opt_record sip ed (extended_rcode m)
        (extended_dns_error m) options (udp_ceiling m options) [])"
      using view unfolding One_nat_def opt_record_loop.simps response_record_type_view by simp
    then show ?thesis using Some loop [of 1] scan(5) by simp
  qed
  finally show ?thesis .
qed

lemma truncated_response_built:
  assumes wf: "parts_wf q an au ad m options" and tr: "transport options \<noteq> Tls"
  shows "rrl_truncated_response (build_response_inner sip h rc aa tc (Some q) an au ad m options) =
    build_response_inner sip h rc aa True (Some q) [] [] [] m options"
proof -
  define resp where "resp = build_response_inner sip h rc aa tc (Some q) an au ad m options"
  define n where "n = length ad + (if edns m \<noteq> None then 1 else 0)"
  define h' where "h' = built_header h rc aa tc (length an) (length au) n"
  define hdr where "hdr = response_header h rc aa tc (Some q) (length an) (length au) n"
  obtain pre body l1 l2 l3 where scan: "pre = hdr @ encode_question q @ body" "parse_header resp = Inr h'"
    "response_question_end resp h' = Some (16 + wire_len (qname q))"
    "length pre = 16 + wire_len (qname q) + l1 + l2 + l3"
    "resp = (case edns m of None \<Rightarrow> pre | Some ed \<Rightarrow> encode_opt_record sip ed (extended_rcode m)
       (extended_dns_error m) options (udp_ceiling m options) pre)"
    by (rule built_response_scan [OF wf resp_def hdr_def [unfolded n_def] h'_def [unfolded n_def]])
  from wf have q: "question_wf q" by (simp add: parts_wf_def)
  let ?opt = "case edns m of None \<Rightarrow> [] | Some ed \<Rightarrow> encode_opt_record sip ed (extended_rcode m)
       (extended_dns_error m) options (udp_ceiling m options) []"
  have full: "resp = hdr @ encode_question q @ body @ ?opt"
    using scan(1,5) encode_opt_record_append [OF tr, of sip _ _ _ _ pre] by (simp split: option.splits)
  have hdr12: "length hdr = 12" by (simp add: hdr_def response_header_wire)
  have qlen: "length (encode_question q) = 4 + wire_len (qname q)" by (simp add: encode_question_wire [OF q])
  have "sub_slice resp 12 (16 + wire_len (qname q)) = encode_question q"
    unfolding full by (rule sub_slice_append_mid) (simp_all add: hdr12 qlen)
  moreover have "sub_slice resp 0 2 = u16_bytes (header_id h)"
    unfolding full hdr_def response_header_def by (simp add: sub_slice_def u16_bytes_def)
  moreover have "16 + wire_len (qname q) \<le> length resp" unfolding full by (simp add: hdr12 qlen)
  moreover have "response_opt_record resp h' = (case edns m of None \<Rightarrow> None | Some ed \<Rightarrow> Some ?opt)"
    using response_opt_record_built [OF wf tr resp_def h'_def [unfolded n_def]] by (simp split: option.splits)
  ultimately have "rrl_truncated_response resp = u16_bytes (header_id h) @
      u16_bytes (response_flags h rc aa True) @ u16_bytes 1 @ u16_bytes 0 @ u16_bytes 0 @
      u16_bytes (if edns m \<noteq> None then 1 else 0) @ encode_question q @ ?opt"
    using scan(2,3) response_flags_set_tc [of h rc aa tc]
    by (simp add: rrl_truncated_response_def h'_def split: option.splits)
  also have "\<dots> = build_response_inner sip h rc aa True (Some q) [] [] [] m options"
    using encode_opt_record_append [OF tr, of sip _ "extended_rcode m" "extended_dns_error m" "udp_ceiling m options"
        "response_header h rc aa True (Some q) 0 0 1 @ encode_question q"]
    by (cases "edns m") (simp_all add: build_response_inner_def response_header_def)
  finally show ?thesis unfolding resp_def .
qed

section \<open>Properties\<close>

text \<open>
  C23: the rate limiter sees a response as it was built.  For a query, the category read off the
  octets is Positive, Referral or NoData when the response code is zero, by the answers and the
  NS records of the authority section, NxDomain for code 3, and Error for any other, where the
  code joins the header's four bits with the extended bits of the OPT record.
\<close>

theorem built_response_category:
  "parts_wf q an au ad m options \<Longrightarrow>
   response_category (build_response_inner sip h rc aa tc (Some q) an au ad m options) =
    (if header_opcode h \<noteq> Some Query then None
     else Some (if wire_rcode rc m = 0 then
                  (if an \<noteq> [] then Positive
                   else if list_ex (\<lambda>r. rec_type r = type_code RT_Ns) au then Referral else NoData)
                else if wire_rcode rc m = 3 then NxDomain else Error))"
  by (rule response_category_built)

theorem built_response_category_witness:
  "let q = \<lparr> qname = DomainName [[0x61]], qtype = 1, qclass = 1, qname_wire_len = 3,
             qtype_qclass_wire = [0, 1, 0, 1], qname_ascii_lowercase = True \<rparr>;
       ns = \<lparr> owner = DomainName [[0x61]], rec_type = 2, rec_class = 1, rec_ttl = 60,
              rec_rdata = [1, 0x62, 1, 0x41, 0] \<rparr>;
       h = \<lparr> header_id = 7, flags = 0, qdcount = 1, ancount = 0, nscount = 0, arcount = 0 \<rparr>
   in response_category (build_response_inner (\<lambda>_ _ _. 0) h RC_NoError False False (Some q) [] [ns] []
        (metadata_with None) (answer_options_udp 1232)) = Some Referral"
proof -
  let ?q = "\<lparr> qname = DomainName [[0x61]], qtype = 1, qclass = 1, qname_wire_len = 3,
             qtype_qclass_wire = [0, 1, 0, 1], qname_ascii_lowercase = True \<rparr>"
  let ?ns = "\<lparr> owner = DomainName [[0x61]], rec_type = 2, rec_class = 1, rec_ttl = 60,
              rec_rdata = [1, 0x62, 1, 0x41, 0] \<rparr>"
  let ?h = "\<lparr> header_id = 7, flags = 0, qdcount = 1, ancount = 0, nscount = 0, arcount = 0 \<rparr>"
  have "parts_wf ?q [] [?ns] [] (metadata_with None) (answer_options_udp 1232)"
    by (simp add: parts_wf_def question_wf_def valid_name_def valid_label_def wire_len_def u16_bytes_def
        metadata_with_def answer_options_udp_def)
  moreover have "header_opcode ?h = Some Query" by code_simp
  ultimately show ?thesis
    using built_response_category [of ?q "[]" "[?ns]" "[]" "metadata_with None" "answer_options_udp 1232"
        "\<lambda>_ _ _. 0" ?h RC_NoError False False]
    by (simp add: wire_rcode_def metadata_with_def rcode_bits_def)
qed

text \<open>
  C24: a slipped response is the empty truncated response.  Over UDP and TCP, what the limiter
  sends instead of a response is octet for octet the response with the same code, question and
  OPT record that is built with no records and TC set.
\<close>

theorem slip_is_empty_truncated_response:
  "parts_wf q an au ad m options \<Longrightarrow> transport options \<noteq> Tls \<Longrightarrow>
   rrl_truncated_response (build_response_inner sip h rc aa tc (Some q) an au ad m options) =
    build_response_inner sip h rc aa True (Some q) [] [] [] m options"
  by (rule truncated_response_built)

theorem slip_is_empty_truncated_response_witness:
  "let q = \<lparr> qname = DomainName [[0x61]], qtype = 1, qclass = 1, qname_wire_len = 3,
             qtype_qclass_wire = [0, 1, 0, 1], qname_ascii_lowercase = True \<rparr>;
       ed = \<lparr> payload_size = 1232, version = 0, do_bit = True, tcp_keepalive_requested = False,
          malformed_tcp_keepalive = False, nsid_requested = False, cookie = None, padding_requested = False \<rparr>;
       a = \<lparr> owner = DomainName [[0x61]], rec_type = 1, rec_class = 1, rec_ttl = 60, rec_rdata = [192, 0, 2, 1] \<rparr>;
       h = \<lparr> header_id = 7, flags = 0, qdcount = 1, ancount = 0, nscount = 0, arcount = 1 \<rparr>;
       build = (\<lambda>tc an. build_response_inner (\<lambda>_ _ _. 0) h RC_NoError True tc (Some q) an [] []
         (metadata_with (Some ed)) (answer_options_udp 1232))
   in rrl_truncated_response (build False [a]) = build True []"
  unfolding Let_def
  by (rule slip_is_empty_truncated_response)
    (simp_all add: parts_wf_def question_wf_def valid_name_def valid_label_def wire_len_def u16_bytes_def
        metadata_with_def answer_options_udp_def edns_wf_def)

end
