(* ===== verification/Float64.thy ===== *)
theory Float64
  imports Complex_Main "HOL-Library.Log_Nat"
begin

text \<open>
  Rust's \<open>f64\<close> on the values the rate limiter computes with: non-negative reals, far from the
  overflow and underflow ends of the format, each operation rounded to the nearest value with a
  53-bit significand, ties to even.
\<close>

section \<open>Rounding\<close>

definition f64_exp :: "real \<Rightarrow> int" where
  "f64_exp x = (if 1 \<le> x then bitlen \<lfloor>x\<rfloor> - 1 else - bitlen (\<lceil>1 / x\<rceil> - 1))"

definition round_half_even :: "real \<Rightarrow> int" where
  "round_half_even x =
     (let f = \<lfloor>x\<rfloor>; d = x - of_int f in
      if d < 1 / 2 then f else if 1 / 2 < d then f + 1 else if even f then f else f + 1)"

definition f64_scale :: "int \<Rightarrow> real" where
  "f64_scale e = (if e \<le> 52 then 2 ^ nat (52 - e) else 1 / 2 ^ nat (e - 52))"

definition f64 :: "real \<Rightarrow> real" where
  "f64 x = (if x \<le> 0 then 0
            else let s = f64_scale (f64_exp x) in of_int (round_half_even (x * s)) / s)"

lemma f64_eq: "0 < x \<Longrightarrow> f64 x = of_int (round_half_even (x * f64_scale (f64_exp x))) / f64_scale (f64_exp x)"
  by (simp add: f64_def Let_def)

section \<open>Exponents\<close>

lemma bitlen_positive: "0 < n \<Longrightarrow> 0 < bitlen n"
  using bitlen_eq_zero_iff [of n] bitlen_nonneg [of n] by linarith

lemma f64_scale_powi: "f64_scale e = 2 powi (52 - e)"
  by (auto simp: f64_scale_def power_int_def field_simps nat_diff_distrib)

lemma f64_scale_pos [simp]: "0 < f64_scale e"
  by (simp add: f64_scale_def)

lemma f64_scale_nonzero [simp]: "f64_scale e \<noteq> 0"
  using f64_scale_pos [of e] by linarith

lemma power_nat_powi: "0 \<le> k \<Longrightarrow> (2 :: real) ^ nat k = 2 powi k"
  by (simp add: power_int_def)

lemma f64_exp_bounds:
  assumes "0 < x"
  shows "2 powi f64_exp x \<le> x" "x < 2 powi (f64_exp x + 1)"
proof -
  have "2 powi f64_exp x \<le> x \<and> x < 2 powi (f64_exp x + 1)"
  proof (cases "1 \<le> x")
    case True
    then have f: "0 < \<lfloor>x\<rfloor>" by linarith
    from bitlen_bounds [OF f] have b: "2 ^ nat (bitlen \<lfloor>x\<rfloor> - 1) \<le> \<lfloor>x\<rfloor>" "\<lfloor>x\<rfloor> < 2 ^ nat (bitlen \<lfloor>x\<rfloor>)" by auto
    have "0 < bitlen \<lfloor>x\<rfloor>" using f by (simp add: bitlen_positive)
    then have "2 powi (bitlen \<lfloor>x\<rfloor> - 1) = real_of_int (2 ^ nat (bitlen \<lfloor>x\<rfloor> - 1))"
      "2 powi (bitlen \<lfloor>x\<rfloor>) = real_of_int (2 ^ nat (bitlen \<lfloor>x\<rfloor>))"
      by (simp_all add: power_nat_powi)
    moreover have "real_of_int (2 ^ nat (bitlen \<lfloor>x\<rfloor> - 1)) \<le> x" using b(1) by linarith
    moreover have "x < real_of_int (2 ^ nat (bitlen \<lfloor>x\<rfloor>))" using b(2) by linarith
    ultimately show ?thesis using True by (simp add: f64_exp_def)
  next
    case False
    let ?c = "\<lceil>1 / x\<rceil> - 1"
    from False assms have "1 < 1 / x" by simp
    then have c: "0 < ?c" by linarith
    from bitlen_bounds [OF c] have b: "2 ^ nat (bitlen ?c - 1) \<le> ?c" "?c < 2 ^ nat (bitlen ?c)" by auto
    have pos: "0 < bitlen ?c" using c by (simp add: bitlen_positive)
    have "real_of_int (2 ^ nat (bitlen ?c - 1)) < 1 / x" using b(1) by linarith
    moreover have "1 / x \<le> real_of_int (2 ^ nat (bitlen ?c))" using b(2) by linarith
    moreover have "real_of_int (2 ^ nat (bitlen ?c - 1)) = 2 powi (bitlen ?c - 1)"
      "real_of_int (2 ^ nat (bitlen ?c)) = 2 powi (bitlen ?c)"
      using pos by (simp_all add: power_nat_powi)
    ultimately have "2 powi (bitlen ?c - 1) < 1 / x" "1 / x \<le> 2 powi (bitlen ?c)" by simp_all
    then have "x < 1 / 2 powi (bitlen ?c - 1)" "1 / 2 powi (bitlen ?c) \<le> x"
      using assms by (simp_all add: field_simps)
    moreover have "1 / (2 :: real) powi k = 2 powi (- k)" for k by (simp add: power_int_minus field_simps)
    moreover have "- (bitlen ?c - 1) = - bitlen ?c + 1" by simp
    ultimately show ?thesis using False by (simp only: f64_exp_def if_False)
  qed
  then show "2 powi f64_exp x \<le> x" "x < 2 powi (f64_exp x + 1)" by auto
qed

lemma powi_less_imp: "(2 :: real) powi a < 2 powi b \<Longrightarrow> a < b"
  by (meson less_le_not_le linorder_not_less one_le_numeral power_int_increasing)

lemma f64_exp_unique:
  assumes "2 powi e \<le> x" "x < 2 powi (e + 1)"
  shows "f64_exp x = e"
proof -
  have "0 < x" using assms(1) by (meson less_le_trans zero_less_numeral zero_less_power_int)
  note b = f64_exp_bounds [OF this]
  have "f64_exp x < e + 1" using b(1) assms(2) by (intro powi_less_imp) linarith
  moreover have "e < f64_exp x + 1" using b(2) assms(1) by (intro powi_less_imp) linarith
  ultimately show ?thesis by linarith
qed

lemma f64_exp_mono: "0 < x \<Longrightarrow> x \<le> y \<Longrightarrow> f64_exp x \<le> f64_exp y"
  using f64_exp_bounds [of x] f64_exp_bounds [of y] powi_less_imp [of "f64_exp x" "f64_exp y + 1"] by linarith

section \<open>What rounding does to a value\<close>

lemma round_half_even_int [simp]: "round_half_even (of_int k) = k"
  by (simp add: round_half_even_def)

lemma round_half_even_error: "\<bar>of_int (round_half_even x) - x\<bar> \<le> 1 / 2"
  unfolding round_half_even_def Let_def by (auto simp: abs_if) linarith+

lemma round_half_even_bounds:
  assumes "2 ^ 52 \<le> y" "y < 2 ^ 53"
  shows "2 ^ 52 \<le> round_half_even y" "round_half_even y \<le> 2 ^ 53"
proof -
  from assms have "4503599627370496 \<le> y" "y < 9007199254740992" by simp_all
  with round_half_even_error [of y] have "4503599627370496 - 1 / 2 \<le> real_of_int (round_half_even y)"
    "real_of_int (round_half_even y) < 9007199254740992 + 1 / 2 + 1 / 4" by linarith+
  then show "2 ^ 52 \<le> round_half_even y" "round_half_even y \<le> 2 ^ 53" by simp_all
qed

lemma significand_bounds:
  assumes "0 < x"
  shows "2 ^ 52 \<le> x * f64_scale (f64_exp x)" "x * f64_scale (f64_exp x) < 2 ^ 53"
proof -
  let ?e = "f64_exp x"
  have "2 powi ?e * 2 powi (52 - ?e) = (2 :: real) ^ 52" "2 powi (?e + 1) * 2 powi (52 - ?e) = (2 :: real) ^ 53"
    by (simp_all add: power_int_add [symmetric])
  then show "2 ^ 52 \<le> x * f64_scale ?e" "x * f64_scale ?e < 2 ^ 53"
    using f64_exp_bounds [OF assms] mult_right_mono [of "2 powi ?e" x "2 powi (52 - ?e)"]
      mult_strict_right_mono [of x "2 powi (?e + 1)" "2 powi (52 - ?e)"]
    by (simp_all add: f64_scale_powi)
qed

lemma f64_relative_error: "0 \<le> x \<Longrightarrow> \<bar>f64 x - x\<bar> \<le> x / 2 ^ 53"
proof (cases "x = 0")
  case False
  assume "0 \<le> x"
  with False have x: "0 < x" by simp
  define s where "s = f64_scale (f64_exp x)"
  have s: "0 < s" by (simp add: s_def)
  have "f64 x - x = (of_int (round_half_even (x * s)) - x * s) / s"
    using x s by (simp add: f64_eq s_def [symmetric] diff_divide_distrib)
  then have "\<bar>f64 x - x\<bar> = \<bar>of_int (round_half_even (x * s)) - x * s\<bar> / s"
    using s by simp
  also have "\<dots> \<le> (1 / 2) / s"
    by (rule divide_right_mono [OF round_half_even_error]) (use s in simp)
  also have "\<dots> \<le> x / 2 ^ 53"
    using significand_bounds(1) [OF x] s by (simp add: s_def [symmetric] field_simps)
  finally show ?thesis .
qed (simp add: f64_def)

lemma f64_lower: "0 \<le> x \<Longrightarrow> x * (1 - 1 / 2 ^ 53) \<le> f64 x"
proof -
  assume "0 \<le> x"
  from f64_relative_error [OF this] have "x - f64 x \<le> x / 2 ^ 53" by linarith
  then show ?thesis by (simp add: right_diff_distrib)
qed

lemma f64_nonneg [simp]: "0 \<le> f64 x"
  using f64_relative_error [of x] by (cases "x \<le> 0") (simp add: f64_def, simp add: abs_if field_simps split: if_splits)

lemma f64_zero [simp]: "f64 0 = 0"
  by (simp add: f64_def)

lemma f64_upper: "0 \<le> x \<Longrightarrow> f64 x \<le> x * (1 + 1 / 2 ^ 53)"
proof -
  assume "0 \<le> x"
  from f64_relative_error [OF this] have "f64 x - x \<le> x / 2 ^ 53" by linarith
  then show ?thesis by (simp add: distrib_left)
qed

section \<open>Exact values\<close>

lemma f64_exactI:
  assumes "0 < x" "x * f64_scale (f64_exp x) = of_int k"
  shows "f64 x = x"
proof -
  have "f64 x = of_int k / f64_scale (f64_exp x)"
    unfolding f64_eq [OF assms(1)] assms(2) round_half_even_int by (rule refl)
  also have "\<dots> = x" using f64_scale_pos [of "f64_exp x", THEN less_imp_neq] by (simp add: assms(2) [symmetric])
  finally show ?thesis .
qed

lemma f64_exactD:
  assumes "0 < x" "f64 x = x"
  obtains k where "x * f64_scale (f64_exp x) = of_int k"
proof -
  let ?s = "f64_scale (f64_exp x)"
  from assms have "of_int (round_half_even (x * ?s)) / ?s = x" by (simp add: f64_eq)
  then have "x * ?s = of_int (round_half_even (x * ?s))" by (metis f64_scale_pos less_irrefl nonzero_divide_eq_eq)
  with that show ?thesis by blast
qed

lemma f64_scale_nat: "e \<le> 52 \<Longrightarrow> f64_scale e = of_int (2 ^ nat (52 - e))"
  by (simp add: f64_scale_def)

lemma f64_exp_le_52: "0 < x \<Longrightarrow> x < 2 ^ 53 \<Longrightarrow> f64_exp x \<le> 52"
proof -
  assume "0 < x" "x < 2 ^ 53"
  with f64_exp_bounds(1) [of x] have "2 powi f64_exp x < (2 :: real) powi 53" by simp
  from powi_less_imp [OF this] show ?thesis by simp
qed

lemma f64_of_nat: "n < 2 ^ 53 \<Longrightarrow> f64 (of_nat n) = of_nat n"
proof (cases "n = 0")
  case False
  assume "n < 2 ^ 53"
  then have "real n < 2 ^ 53" by (metis of_nat_less_iff of_nat_numeral of_nat_power)
  with False have "f64_exp (real n) \<le> 52" by (intro f64_exp_le_52) simp_all
  then have "real n * f64_scale (f64_exp (real n)) = of_int (int n * 2 ^ nat (52 - f64_exp (real n)))"
    by (simp add: f64_scale_nat)
  from f64_exactI [OF _ this] False show ?thesis by simp
qed simp

lemma f64_minus_one:
  assumes "f64 x = x" "1 \<le> x" "x < 2 ^ 53"
  shows "f64 (x - 1) = x - 1"
proof (cases "x = 1")
  case False
  with assms have y: "0 < x - 1" and x: "0 < x" by simp_all
  have e: "f64_exp (x - 1) \<le> f64_exp x" "f64_exp x \<le> 52"
    using f64_exp_mono [OF y, of x] f64_exp_le_52 [OF x assms(3)] by simp_all
  obtain k where k: "x * f64_scale (f64_exp x) = of_int k" by (rule f64_exactD [OF x assms(1)])
  let ?d = "nat (f64_exp x - f64_exp (x - 1))"
  have "nat (52 - f64_exp (x - 1)) = nat (52 - f64_exp x) + ?d" using e by linarith
  then have s: "f64_scale (f64_exp (x - 1)) = f64_scale (f64_exp x) * 2 ^ ?d"
    using e by (simp add: f64_scale_def power_add)
  have "(x - 1) * f64_scale (f64_exp (x - 1)) =
      (x * f64_scale (f64_exp x) - f64_scale (f64_exp x)) * 2 ^ ?d"
    by (simp add: s algebra_simps)
  also have "\<dots> = of_int ((k - 2 ^ nat (52 - f64_exp x)) * 2 ^ ?d)"
    unfolding k by (simp add: f64_scale_nat [OF e(2)])
  finally show ?thesis by (intro f64_exactI [OF y])
qed simp

lemma f64_idem [simp]: "f64 (f64 x) = f64 x"
proof (cases "x \<le> 0")
  case False
  then have x: "0 < x" by simp
  let ?e = "f64_exp x"
  let ?r = "round_half_even (x * f64_scale ?e)"
  have fx: "f64 x = of_int ?r / f64_scale ?e" by (rule f64_eq [OF x])
  have r: "2 ^ 52 \<le> ?r" "?r \<le> 2 ^ 53"
    using round_half_even_bounds significand_bounds [OF x] by blast+
  then have pos: "0 < f64 x" by (simp add: fx)
  show ?thesis
  proof (cases "?r = 2 ^ 53")
    case True
    have "f64 x = 2 powi (?e + 1)"
      using True by (simp add: fx f64_scale_powi power_int_diff power_int_add field_simps)
    then have "f64_exp (f64 x) = ?e + 1"
      by (intro f64_exp_unique) (simp_all add: power_int_add)
    then have "f64 x * f64_scale (f64_exp (f64 x)) = of_int (2 ^ 52)"
      using True by (simp add: fx f64_scale_powi power_int_diff power_int_add field_simps)
    then show ?thesis by (rule f64_exactI [OF pos])
  next
    case False
    with r have "?r < 9007199254740992" "4503599627370496 \<le> ?r" by simp_all
    then have r53: "real_of_int ?r < 2 ^ 53" "2 ^ 52 \<le> real_of_int ?r" by simp_all
    have "2 powi ?e = 2 ^ 52 / f64_scale ?e" "2 powi (?e + 1) = 2 ^ 53 / f64_scale ?e"
      by (simp_all add: f64_scale_powi power_int_diff power_int_add field_simps)
    then have "f64_exp (f64 x) = ?e"
      using divide_right_mono [OF r53(2), of "f64_scale ?e"] divide_strict_right_mono [OF r53(1), of "f64_scale ?e"]
      by (intro f64_exp_unique) (simp_all add: fx less_imp_le)
    then have "f64 x * f64_scale (f64_exp (f64 x)) = of_int ?r" by (simp add: fx)
    then show ?thesis by (rule f64_exactI [OF pos])
  qed
qed (simp add: f64_def)

end
