(* ===== verification/Rate_Limit.thy ===== *)
theory Rate_Limit
  imports Response_Scan Float64 "HOL-Library.Mapping" "HOL-Library.AList_Mapping"
begin

text \<open>
  Response rate limiting and the NOTIFY log limiter, \<open>crates/borondns-server/src/rate_limit.rs\<close>,
  with the RRL counters of \<open>health_metrics.rs\<close>.  A hash map or B-tree map is a \<open>mapping\<close>, the
  B-tree's order being that of its keys.  An \<open>Instant\<close> is a number of nanoseconds and every
  \<open>Instant::now()\<close> an argument; \<open>duration_since\<close> is zero when the argument lies in the past.
  Each method runs under its limiter's lock, so a call is one step on the state.
\<close>

section \<open>Address prefixes\<close>

datatype ip_prefix = PrefixV4 u32 u8 | PrefixV6 u128 u8

definition prefix_mask_v4 :: "u8 \<Rightarrow> u32" where
  "prefix_mask_v4 len = (if len = 0 then 0 else push_bit (unat (32 - len)) (- 1))"

definition prefix_mask_v6 :: "u8 \<Rightarrow> u128" where
  "prefix_mask_v6 len = (if len = 0 then 0 else push_bit (unat (128 - len)) (- 1))"

fun ip_prefix_new :: "ip_addr \<Rightarrow> u8 \<Rightarrow> ip_prefix" where
  "ip_prefix_new (V4 addr) len = (let len = min len 32 in PrefixV4 (addr AND prefix_mask_v4 len) len)"
| "ip_prefix_new (V6 addr) len = (let len = min len 128 in PrefixV6 (addr AND prefix_mask_v6 len) len)"

fun prefix_contains :: "ip_prefix \<Rightarrow> ip_addr \<Rightarrow> bool" where
  "prefix_contains (PrefixV4 network len) (V4 addr) \<longleftrightarrow> addr AND prefix_mask_v4 len = network"
| "prefix_contains (PrefixV6 network len) (V6 addr) \<longleftrightarrow> addr AND prefix_mask_v6 len = network"
| "prefix_contains _ _ \<longleftrightarrow> False"

fun notify_log_prefix :: "ip_addr \<Rightarrow> ip_prefix" where
  "notify_log_prefix (V4 a) = ip_prefix_new (V4 a) 24"
| "notify_log_prefix (V6 a) = ip_prefix_new (V6 a) 56"

section \<open>Counters\<close>

record rrl_metrics =
  rrl_subject :: u64
  rrl_dropped :: u64
  rrl_truncated :: u64
  rrl_tracked_keys :: u64
  rrl_key_evictions :: u64

definition record_rrl_subject :: "rrl_metrics \<Rightarrow> rrl_metrics" where
  "record_rrl_subject mt = mt \<lparr> rrl_subject := rrl_subject mt + 1 \<rparr>"

definition record_rrl_dropped :: "rrl_metrics \<Rightarrow> rrl_metrics" where
  "record_rrl_dropped mt = mt \<lparr> rrl_dropped := rrl_dropped mt + 1 \<rparr>"

definition record_rrl_truncated :: "rrl_metrics \<Rightarrow> rrl_metrics" where
  "record_rrl_truncated mt = mt \<lparr> rrl_truncated := rrl_truncated mt + 1 \<rparr>"

definition set_rrl_tracked_keys :: "u64 \<Rightarrow> rrl_metrics \<Rightarrow> rrl_metrics" where
  "set_rrl_tracked_keys count mt = mt \<lparr> rrl_tracked_keys := count \<rparr>"

definition record_rrl_key_evicted :: "rrl_metrics \<Rightarrow> rrl_metrics" where
  "record_rrl_key_evicted mt = mt \<lparr> rrl_key_evictions := rrl_key_evictions mt + 1 \<rparr>"

record rrl_summary =
  dropped_responses :: u64
  truncated_responses :: u64
  rate_limited_keys :: u64
  total_dropped_responses :: u64
  total_truncated_responses :: u64

definition saturating_sub :: "u64 \<Rightarrow> u64 \<Rightarrow> u64" where
  "saturating_sub a b = (if b \<le> a then a - b else 0)"

definition saturating_add :: "u64 \<Rightarrow> u64 \<Rightarrow> u64" where
  "saturating_add a b = (if a \<le> - 1 - b then a + b else - 1)"

definition summary_from_snapshots :: "rrl_metrics \<Rightarrow> rrl_metrics \<Rightarrow> u64 \<Rightarrow> rrl_summary" where
  "summary_from_snapshots previous current limited_keys =
     \<lparr> dropped_responses = saturating_sub (rrl_dropped current) (rrl_dropped previous),
       truncated_responses = saturating_sub (rrl_truncated current) (rrl_truncated previous),
       rate_limited_keys = limited_keys,
       total_dropped_responses = rrl_dropped current,
       total_truncated_responses = rrl_truncated current \<rparr>"

section \<open>Token buckets\<close>

type_synonym instant = nat

definition as_secs_f64 :: "nat \<Rightarrow> real" where
  "as_secs_f64 nanos = f64 (f64 (of_nat (nanos div 1000000000)) + f64 (of_nat (nanos mod 1000000000) / 1000000000))"

record rrl_bucket =
  tokens :: real
  last_refill :: instant
  limited_count :: u64
  bucket_order :: u128

definition bucket_new :: "u32 \<Rightarrow> u128 \<Rightarrow> instant \<Rightarrow> rrl_bucket" where
  "bucket_new rate ord now = \<lparr> tokens = of_nat (unat rate), last_refill = now, limited_count = 0, bucket_order = ord \<rparr>"

definition touch :: "u128 \<Rightarrow> rrl_bucket \<Rightarrow> rrl_bucket" where
  "touch ord b = b \<lparr> bucket_order := ord \<rparr>"

definition refilled_tokens :: "u32 \<Rightarrow> instant \<Rightarrow> rrl_bucket \<Rightarrow> real" where
  "refilled_tokens rate now b =
     min (f64 (tokens b + f64 (as_secs_f64 (now - last_refill b) * of_nat (unat rate)))) (of_nat (unat rate))"

definition take_token :: "u32 \<Rightarrow> instant \<Rightarrow> rrl_bucket \<Rightarrow> rrl_bucket \<times> bool" where
  "take_token rate now b =
     (let b = (if 0 < rate then b \<lparr> tokens := refilled_tokens rate now b, last_refill := now \<rparr> else b)
      in if 1 \<le> tokens b then (b \<lparr> tokens := f64 (tokens b - 1) \<rparr>, True) else (b, False))"

definition would_have_token :: "u32 \<Rightarrow> instant \<Rightarrow> rrl_bucket \<Rightarrow> bool" where
  "would_have_token rate now b = (1 \<le> (if 0 < rate then refilled_tokens rate now b else tokens b))"

section \<open>Limiter state\<close>

record rrl_rates =
  positive_rate :: u32
  nxdomain_rate :: u32
  nodata_rate :: u32
  referral_rate :: u32
  error_rate :: u32

fun for_category :: "rrl_rates \<Rightarrow> rrl_category \<Rightarrow> u32" where
  "for_category rs Positive = positive_rate rs"
| "for_category rs NxDomain = nxdomain_rate rs"
| "for_category rs NoData = nodata_rate rs"
| "for_category rs Referral = referral_rate rs"
| "for_category rs Error = error_rate rs"

datatype rrl_key = RrlKey (key_prefix: ip_prefix) (key_category: rrl_category)

definition rrl_key_new :: "ip_addr \<Rightarrow> u8 \<Rightarrow> rrl_category \<Rightarrow> rrl_key" where
  "rrl_key_new source len category = RrlKey (ip_prefix_new source len) category"

record rrl_config =
  cfg_enabled :: bool
  cfg_ipv4_prefix_len :: u8
  cfg_ipv6_prefix_len :: u8
  cfg_rates :: rrl_rates
  cfg_slip :: u32
  cfg_max_keys :: nat

record rrl_state =
  ipv4_prefix_len :: u8
  ipv6_prefix_len :: u8
  rates :: rrl_rates
  slip :: u32
  max_keys :: nat
  buckets :: "(rrl_key, rrl_bucket) mapping"
  recency :: "(u128, rrl_key) mapping"
  next_order :: u128

definition rrl_state_from_config :: "rrl_config \<Rightarrow> rrl_state" where
  "rrl_state_from_config config = \<lparr> ipv4_prefix_len = cfg_ipv4_prefix_len config,
     ipv6_prefix_len = cfg_ipv6_prefix_len config, rates = cfg_rates config, slip = cfg_slip config,
     max_keys = cfg_max_keys config, buckets = Mapping.empty, recency = Mapping.empty, next_order = 0 \<rparr>"

definition prefix_len :: "rrl_state \<Rightarrow> ip_addr \<Rightarrow> u8" where
  "prefix_len st source = (case source of V4 _ \<Rightarrow> ipv4_prefix_len st | V6 _ \<Rightarrow> ipv6_prefix_len st)"

definition tracked_keys :: "rrl_state \<Rightarrow> u64" where
  "tracked_keys st = of_nat (Mapping.size (buckets st))"

definition first_key_value :: "(u128, rrl_key) mapping \<Rightarrow> (u128 \<times> rrl_key) option" where
  "first_key_value t =
     (case Mapping.ordered_keys t of
        [] \<Rightarrow> None
      | ord # _ \<Rightarrow> (case Mapping.lookup t ord of None \<Rightarrow> None | Some key \<Rightarrow> Some (ord, key)))"

definition evict_one_if_needed :: "rrl_state \<Rightarrow> rrl_metrics \<Rightarrow> rrl_state \<times> rrl_metrics" where
  "evict_one_if_needed st mt =
     (if Mapping.size (buckets st) < max_keys st then (st, mt)
      else (case first_key_value (recency st) of
              None \<Rightarrow> (st, mt)
            | Some (oldest_order, oldest_key) \<Rightarrow>
                let removed = Mapping.lookup (buckets st) oldest_key;
                    st = st \<lparr> recency := Mapping.delete oldest_order (recency st),
                              buckets := Mapping.delete oldest_key (buckets st) \<rparr>
                in if removed \<noteq> None
                   then (st, set_rrl_tracked_keys (tracked_keys st) (record_rrl_key_evicted mt))
                   else (st, mt)))"

definition allocate_order :: "rrl_state \<Rightarrow> u128 \<times> rrl_state" where
  "allocate_order st = (next_order st, st \<lparr> next_order := next_order st + 1 \<rparr>)"

datatype rrl_disposition = Send | Slip | Drop

text \<open>
  The two halves of \<open>RrlState::decide\<close>: finding the key's bucket, making room and renewing its
  place in the recency order, then accounting the response against the bucket.
\<close>

definition decide_bucket ::
  "rrl_state \<Rightarrow> rrl_metrics \<Rightarrow> rrl_key \<Rightarrow> u32 \<Rightarrow> instant \<Rightarrow> rrl_state \<times> rrl_metrics \<times> rrl_bucket" where
  "decide_bucket st mt key rate now =
     (let (st, mt) = (case Mapping.lookup (buckets st) key of
            None \<Rightarrow> evict_one_if_needed st mt
          | Some b \<Rightarrow> (st \<lparr> recency := Mapping.delete (bucket_order b) (recency st) \<rparr>, mt));
          (ord, st) = allocate_order st;
          st = st \<lparr> recency := Mapping.update ord key (recency st) \<rparr>;
          (b, mt) = (case Mapping.lookup (buckets st) key of
            Some b \<Rightarrow> (b, mt)
          | None \<Rightarrow> (bucket_new rate ord now,
              set_rrl_tracked_keys (of_nat (min (Mapping.size (recency st)) (2 ^ 64 - 1))) mt))
      in (st, mt, touch ord b))"

definition decide ::
  "rrl_state \<Rightarrow> rrl_metrics \<Rightarrow> ip_addr \<Rightarrow> rrl_category \<Rightarrow> instant \<Rightarrow> instant
     \<Rightarrow> rrl_state \<times> rrl_metrics \<times> rrl_disposition" where
  "decide st mt source category created taken =
     (let mt = record_rrl_subject mt;
          key = rrl_key_new source (prefix_len st source) category;
          rate = for_category (rates st) category;
          (st, mt, b) = decide_bucket st mt key rate created;
          (b, sent) = take_token rate taken b
      in if sent then (st \<lparr> buckets := Mapping.update key b (buckets st) \<rparr>, mt, Send)
         else
           let b = b \<lparr> limited_count := saturating_add (limited_count b) 1 \<rparr>;
               st = st \<lparr> buckets := Mapping.update key b (buckets st) \<rparr>
           in if 0 < slip st \<and> limited_count b mod ucast (slip st) = 0
              then (st, record_rrl_truncated mt, Slip)
              else (st, record_rrl_dropped mt, Drop))"

definition rate_limited_key_count :: "rrl_state \<Rightarrow> instant \<Rightarrow> u64" where
  "rate_limited_key_count st now =
     of_nat (Mapping.size (Mapping.filter (\<lambda>key b. 0 < limited_count b \<and>
       \<not> would_have_token (for_category (rates st) (key_category key)) now b) (buckets st)))"

section \<open>The limiter\<close>

record rrl_limiter =
  enabled :: bool
  allowlist :: "ip_prefix list"
  limiter_state :: rrl_state
  limiter_metrics :: rrl_metrics

datatype rrl_decision = SendDecision bytes | DropDecision

definition limiter_decide ::
  "rrl_limiter \<Rightarrow> ip_addr \<Rightarrow> bytes \<Rightarrow> instant \<Rightarrow> instant \<Rightarrow> rrl_limiter \<times> rrl_disposition" where
  "limiter_decide l source response created taken =
     (if \<not> enabled l \<or> list_ex (\<lambda>p. prefix_contains p source) (allowlist l) then (l, Send)
      else (case response_category response of
              None \<Rightarrow> (l, Send)
            | Some category \<Rightarrow>
                let (st, mt, disposition) =
                      decide (limiter_state l) (limiter_metrics l) source category created taken
                in (l \<lparr> limiter_state := st, limiter_metrics := mt \<rparr>, disposition)))"

definition limiter_apply ::
  "rrl_limiter \<Rightarrow> ip_addr \<Rightarrow> bytes \<Rightarrow> instant \<Rightarrow> instant \<Rightarrow> rrl_limiter \<times> rrl_decision" where
  "limiter_apply l source response created taken =
     (let (l, disposition) = limiter_decide l source response created taken
      in (l, case disposition of
               Send \<Rightarrow> SendDecision response
             | Slip \<Rightarrow> SendDecision (rrl_truncated_response response)
             | Drop \<Rightarrow> DropDecision))"

section \<open>The NOTIFY log limiter\<close>

datatype notify_log_category = Unauthorized | TsigFailure

datatype notify_log_decision = Emit | Suppress

datatype notify_log_key = NotifyLogKey (log_prefix: ip_prefix) (log_zone: bytes) (log_category: notify_log_category)

record notify_log_summary =
  summary_unauthorized :: u64
  summary_tsig_failures :: u64
  summary_distinct_prefixes :: u64
  summary_total :: u64

record notify_log_state =
  window :: nat
  log_max_keys :: nat
  log_keys :: "(notify_log_key, instant) mapping"
  suppressed_unauthorized :: u64
  suppressed_tsig_failures :: u64
  suppressed_prefixes :: "ip_prefix set"

definition notify_log_state_new :: "nat \<Rightarrow> nat \<Rightarrow> notify_log_state" where
  "notify_log_state_new w n = \<lparr> window = w, log_max_keys = max n 1, log_keys = Mapping.empty,
     suppressed_unauthorized = 0, suppressed_tsig_failures = 0, suppressed_prefixes = {} \<rparr>"

definition expire_old_keys :: "instant \<Rightarrow> notify_log_state \<Rightarrow> notify_log_state" where
  "expire_old_keys now st =
     st \<lparr> log_keys := Mapping.filter (\<lambda>_ first_seen. now - first_seen < window st) (log_keys st) \<rparr>"

definition record_suppressed :: "notify_log_category \<Rightarrow> ip_prefix \<Rightarrow> notify_log_state \<Rightarrow> notify_log_state" where
  "record_suppressed category pfx st =
     (let st = (case category of
            Unauthorized \<Rightarrow> st \<lparr> suppressed_unauthorized := saturating_add (suppressed_unauthorized st) 1 \<rparr>
          | TsigFailure \<Rightarrow> st \<lparr> suppressed_tsig_failures := saturating_add (suppressed_tsig_failures st) 1 \<rparr>)
      in if card (suppressed_prefixes st) < log_max_keys st
         then st \<lparr> suppressed_prefixes := insert pfx (suppressed_prefixes st) \<rparr> else st)"

definition observe ::
  "notify_log_state \<Rightarrow> notify_log_category \<Rightarrow> ip_addr \<Rightarrow> bytes \<Rightarrow> instant \<Rightarrow> notify_log_state \<times> notify_log_decision" where
  "observe st category source zone now =
     (let st = expire_old_keys now st;
          pfx = notify_log_prefix source;
          key = NotifyLogKey pfx zone category;
          can_insert = Mapping.size (log_keys st) < log_max_keys st
      in if Mapping.lookup (log_keys st) key = None \<and> can_insert
         then (st \<lparr> log_keys := Mapping.update key now (log_keys st) \<rparr>, Emit)
         else (record_suppressed category pfx st, Suppress))"

definition take_summary :: "notify_log_state \<Rightarrow> notify_log_state \<times> notify_log_summary" where
  "take_summary st =
     (st \<lparr> suppressed_unauthorized := 0, suppressed_tsig_failures := 0, suppressed_prefixes := {} \<rparr>,
      \<lparr> summary_unauthorized = suppressed_unauthorized st,
        summary_tsig_failures = suppressed_tsig_failures st,
        summary_distinct_prefixes = of_nat (card (suppressed_prefixes st)),
        summary_total = saturating_add (suppressed_unauthorized st) (suppressed_tsig_failures st) \<rparr>)"

section \<open>Prefixes name networks\<close>

text \<open>Two addresses of the same family whose first \<open>len\<close> bits agree.\<close>

fun same_network :: "u8 \<Rightarrow> ip_addr \<Rightarrow> ip_addr \<Rightarrow> bool" where
  "same_network len (V4 a) (V4 b) \<longleftrightarrow> drop_bit (32 - unat len) a = drop_bit (32 - unat len) b"
| "same_network len (V6 a) (V6 b) \<longleftrightarrow> drop_bit (128 - unat len) a = drop_bit (128 - unat len) b"
| "same_network len _ _ \<longleftrightarrow> False"

lemma and_high_mask_eq_iff:
  "(a AND NOT (mask k) = b AND NOT (mask k)) \<longleftrightarrow> drop_bit k a = drop_bit k (b :: 'a :: len word)"
proof
  assume eq: "a AND NOT (mask k) = b AND NOT (mask k)"
  show "drop_bit k a = drop_bit k b"
  proof (rule bit_eqI)
    fix n assume "possible_bit TYPE('a word) n"
    show "bit (drop_bit k a) n = bit (drop_bit k b) n"
    proof (cases "k + n < LENGTH('a)")
      case True
      then show ?thesis using arg_cong [OF eq, of "\<lambda>w. bit w (k + n)"] by (simp add: bit_simps)
    next
      case False
      then show ?thesis by (simp add: bit_simps) (use bit_imp_le_length in fastforce)
    qed
  qed
next
  assume eq: "drop_bit k a = drop_bit k b"
  show "a AND NOT (mask k) = b AND NOT (mask k)"
  proof (rule bit_eqI)
    fix n assume "possible_bit TYPE('a word) n"
    then show "bit (a AND NOT (mask k)) n = bit (b AND NOT (mask k)) n"
      using arg_cong [OF eq, of "\<lambda>w. bit w (n - k)"] by (cases "k \<le> n") (auto simp: bit_simps)
  qed
qed

lemma not_mask_beyond: "LENGTH('a) \<le> k \<Longrightarrow> NOT (mask k) = (0 :: 'a :: len word)"
  by (rule bit_eqI) (simp add: bit_simps)

lemma prefix_mask_v4_eq: "len \<le> 32 \<Longrightarrow> prefix_mask_v4 len = NOT (mask (32 - unat len))"
  by (auto simp: prefix_mask_v4_def unat_sub push_bit_minus_one_eq_not_mask not_mask_beyond)

lemma prefix_mask_v6_eq: "len \<le> 128 \<Longrightarrow> prefix_mask_v6 len = NOT (mask (128 - unat len))"
  by (auto simp: prefix_mask_v6_def unat_sub push_bit_minus_one_eq_not_mask not_mask_beyond)

lemma min_prefix_len: "32 - unat (min len (32 :: u8)) = 32 - unat len" "128 - unat (min len (128 :: u8)) = 128 - unat len"
  by (auto simp: min_def word_le_nat_alt)

lemma prefix_new_eq_iff: "ip_prefix_new a len = ip_prefix_new b len \<longleftrightarrow> same_network len a b"
  by (cases a; cases b)
    (simp_all add: Let_def prefix_mask_v4_eq prefix_mask_v6_eq and_high_mask_eq_iff min_prefix_len)

lemma prefix_contains_new_iff: "prefix_contains (ip_prefix_new a len) b \<longleftrightarrow> same_network len a b"
  by (cases a; cases b)
    (auto simp: Let_def prefix_mask_v4_eq prefix_mask_v6_eq and_high_mask_eq_iff min_prefix_len)

section \<open>Token buckets\<close>

declare of_nat_unat [simp del]

definition bucket_wf :: "u32 \<Rightarrow> rrl_bucket \<Rightarrow> bool" where
  "bucket_wf rate b \<longleftrightarrow> 0 \<le> tokens b \<and> tokens b \<le> of_nat (unat rate) \<and> f64 (tokens b) = tokens b"

lemma rate_bound: "unat (rate :: u32) < 2 ^ 53"
proof -
  have "unat rate < 2 ^ LENGTH(32)" by (rule unsigned_less)
  then show ?thesis by simp
qed

lemma f64_rate [simp]: "f64 (of_nat (unat (rate :: u32))) = of_nat (unat rate)"
  by (rule f64_of_nat [OF rate_bound])

lemma bucket_wf_new: "bucket_wf rate (bucket_new rate ord now)"
  by (simp add: bucket_wf_def bucket_new_def)

lemma bucket_wf_touch [simp]: "bucket_wf rate (touch ord b) = bucket_wf rate b"
  by (simp add: bucket_wf_def touch_def)

lemma refilled_tokens_wf:
  "0 \<le> refilled_tokens rate now b" "refilled_tokens rate now b \<le> of_nat (unat rate)"
  "f64 (refilled_tokens rate now b) = refilled_tokens rate now b"
  by (simp_all add: refilled_tokens_def min_def)

lemma take_token_wf:
  assumes "bucket_wf rate b" "take_token rate now b = (b', sent)"
  shows "bucket_wf rate b'"
proof -
  have one: "0 \<le> f64 (t - 1) \<and> f64 (t - 1) \<le> of_nat (unat rate) \<and> f64 (f64 (t - 1)) = f64 (t - 1)"
    if "1 \<le> t" "t \<le> of_nat (unat rate)" "f64 t = t" for t :: real
  proof -
    have "real (unat rate) < 2 ^ 53" using rate_bound [of rate] by (metis of_nat_less_iff of_nat_numeral of_nat_power)
    then have "f64 (t - 1) = t - 1" using that by (intro f64_minus_one) simp_all
    with that show ?thesis by simp
  qed
  show ?thesis
    using assms refilled_tokens_wf [of rate now b] one [of "refilled_tokens rate now b"] one [of "tokens b"]
    by (auto simp: take_token_def bucket_wf_def Let_def split: if_splits)
qed

subsection \<open>How many responses a bucket lets through\<close>

abbreviation rounding_slack :: real where
  "rounding_slack \<equiv> 5 / 2 ^ 53"

lemma as_secs_upper: "as_secs_f64 n \<le> of_nat n / 1000000000 * (1 + 1 / 2 ^ 53) ^ 2"
proof -
  let ?u = "1 + 1 / 2 ^ 53 :: real"
  let ?a = "real (n div 1000000000)" and ?b = "real (n mod 1000000000) / 1000000000"
  have "real n = 1000000000 * ?a + real (n mod 1000000000)"
    by (metis mult_div_mod_eq of_nat_add of_nat_mult of_nat_numeral)
  then have sum: "?a + ?b = real n / 1000000000" by simp
  have "as_secs_f64 n \<le> (f64 ?a + f64 ?b) * ?u"
    unfolding as_secs_f64_def by (rule f64_upper) simp
  also have "\<dots> \<le> (?a * ?u + ?b * ?u) * ?u"
    by (intro mult_right_mono add_mono f64_upper) simp_all
  also have "\<dots> = real n / 1000000000 * ?u ^ 2"
    unfolding sum [symmetric] by (simp add: power2_eq_square algebra_simps)
  finally show ?thesis .
qed

lemma rounding_slack_bound: "(1 + 1 / 2 ^ 53 :: real) ^ 3 * (1 + 1 / 2 ^ 53) \<le> 1 + rounding_slack"
  by (simp add: power3_eq_cube)

lemma refilled_upper:
  assumes t: "0 \<le> tokens b"
  shows "refilled_tokens rate now b \<le>
    tokens b + of_nat (unat rate) * (of_nat (now - last_refill b) / 1000000000) + of_nat (unat rate) * rounding_slack"
proof -
  define u where "u = (1 + 1 / 2 ^ 53 :: real)"
  define r where "r = real (unat rate)"
  define e where "e = real (now - last_refill b) / 1000000000"
  define s where "s = as_secs_f64 (now - last_refill b)"
  define y where "y = tokens b + r * e"
  have u: "1 \<le> u" "1 \<le> u ^ 3" "u ^ 3 * u \<le> 1 + rounding_slack" and up: "\<And>x. 0 \<le> x \<Longrightarrow> f64 x \<le> x * u"
    using rounding_slack_bound f64_upper by (simp_all add: u_def one_le_power)
  have nonneg: "0 \<le> s" "0 \<le> r" "0 \<le> e" "0 \<le> y" using t by (simp_all add: s_def r_def e_def y_def as_secs_f64_def)
  have "s \<le> e * u ^ 2" unfolding s_def e_def u_def by (rule as_secs_upper)
  then have "s * r * u \<le> (e * u ^ 2 * r) * u" using nonneg u(1) by (intro mult_right_mono) simp_all
  moreover have "f64 (s * r) \<le> s * r * u" using nonneg by (intro up) simp
  moreover have "(e * u ^ 2 * r) * u = r * e * u ^ 3" by (simp add: power2_eq_square power3_eq_cube)
  moreover have "tokens b \<le> tokens b * u ^ 3" using mult_left_mono [OF u(2) t] by simp
  ultimately have "tokens b + f64 (s * r) \<le> y * u ^ 3" by (simp add: y_def distrib_right)
  then have "(tokens b + f64 (s * r)) * u \<le> y * u ^ 3 * u" using u(1) by (intro mult_right_mono) simp_all
  moreover have "f64 (tokens b + f64 (s * r)) \<le> (tokens b + f64 (s * r)) * u" using t by (intro up) simp
  moreover have "y * u ^ 3 * u \<le> y * (1 + rounding_slack)"
    using mult_left_mono [OF u(3) nonneg(4)] by (simp only: mult.assoc)
  ultimately have le: "f64 (tokens b + f64 (s * r)) \<le> y + y * rounding_slack"
    unfolding distrib_left mult_1_right by linarith
  have "min (f64 (tokens b + f64 (s * r))) r \<le> y + r * rounding_slack"
  proof (cases "y \<le> r")
    case True
    then have "y * rounding_slack \<le> r * rounding_slack" by (rule mult_right_mono) simp
    with le show ?thesis by linarith
  next
    case False
    have "0 \<le> r * rounding_slack" using nonneg by simp
    with False show ?thesis by linarith
  qed
  then show ?thesis by (simp add: refilled_tokens_def s_def r_def e_def y_def)
qed

lemma take_token_bound:
  assumes "bucket_wf rate b" "take_token rate now b = (b', sent)" "last_refill b \<le> now"
  shows "tokens b' + (if sent then 1 else 0) \<le> tokens b +
      of_nat (unat rate) * (of_nat (last_refill b' - last_refill b) / 1000000000) + of_nat (unat rate) * rounding_slack"
    and "last_refill b \<le> last_refill b'" "last_refill b' \<le> now"
proof -
  have exact: "f64 (t - 1) = t - 1" if "1 \<le> t" "t \<le> of_nat (unat rate)" "f64 t = t" for t :: real
  proof -
    have "real (unat rate) < 2 ^ 53" using rate_bound [of rate] by (metis of_nat_less_iff of_nat_numeral of_nat_power)
    with that show ?thesis by (intro f64_minus_one) simp_all
  qed
  from assms(1) have t: "0 \<le> tokens b" by (simp add: bucket_wf_def)
  show "tokens b' + (if sent then 1 else 0) \<le> tokens b +
      of_nat (unat rate) * (of_nat (last_refill b' - last_refill b) / 1000000000) + of_nat (unat rate) * rounding_slack"
    using assms(1,2) refilled_upper [OF t, of rate now] refilled_tokens_wf [of rate now b] exact
    by (auto simp: take_token_def bucket_wf_def Let_def word_gt_0 split: if_splits)
  show "last_refill b \<le> last_refill b'" "last_refill b' \<le> now"
    using assms(2,3) by (auto simp: take_token_def Let_def split: if_splits)
qed

lemma as_secs_lower: "of_nat n / 1000000000 * (1 - 1 / 2 ^ 53) ^ 2 \<le> as_secs_f64 n"
proof -
  let ?w = "1 - 1 / 2 ^ 53 :: real"
  let ?a = "real (n div 1000000000)" and ?b = "real (n mod 1000000000) / 1000000000"
  have "real n = 1000000000 * ?a + real (n mod 1000000000)"
    by (metis mult_div_mod_eq of_nat_add of_nat_mult of_nat_numeral)
  then have sum: "?a + ?b = real n / 1000000000" by simp
  have "real n / 1000000000 * ?w ^ 2 = (?a * ?w + ?b * ?w) * ?w"
    unfolding sum [symmetric] by (simp add: power2_eq_square algebra_simps)
  also have "\<dots> \<le> (f64 ?a + f64 ?b) * ?w"
    by (intro mult_right_mono add_mono f64_lower) simp_all
  also have "\<dots> \<le> as_secs_f64 n"
    unfolding as_secs_f64_def by (rule f64_lower) simp
  finally show ?thesis .
qed

lemma refilled_lower:
  assumes t: "0 \<le> tokens b"
  shows "min (tokens b + of_nat (unat rate) * (of_nat (now - last_refill b) / 1000000000)) (of_nat (unat rate)) -
      of_nat (unat rate) * rounding_slack \<le> refilled_tokens rate now b"
proof -
  define w where "w = (1 - 1 / 2 ^ 53 :: real)"
  define r where "r = real (unat rate)"
  define e where "e = real (now - last_refill b) / 1000000000"
  define s where "s = as_secs_f64 (now - last_refill b)"
  define y where "y = tokens b + r * e"
  have w: "0 \<le> w" "w ^ 3 \<le> 1" "1 - rounding_slack \<le> w ^ 3 * w" and low: "\<And>x. 0 \<le> x \<Longrightarrow> x * w \<le> f64 x"
    using f64_lower by (simp_all add: w_def power_le_one power3_eq_cube)
  have nonneg: "0 \<le> s" "0 \<le> r" "0 \<le> e" "0 \<le> y" using t by (simp_all add: s_def r_def e_def y_def as_secs_f64_def)
  have "e * w ^ 2 \<le> s" unfolding s_def e_def w_def by (rule as_secs_lower)
  then have "(e * w ^ 2 * r) * w \<le> s * r * w" using nonneg w(1) by (intro mult_right_mono) simp_all
  moreover have "s * r * w \<le> f64 (s * r)" using nonneg by (intro low) simp
  moreover have "(e * w ^ 2 * r) * w = r * e * w ^ 3" by (simp add: power2_eq_square power3_eq_cube)
  moreover have "tokens b * w ^ 3 \<le> tokens b" using mult_left_mono [OF w(2) t] by simp
  ultimately have "y * w ^ 3 \<le> tokens b + f64 (s * r)" by (simp add: y_def distrib_right)
  then have "y * w ^ 3 * w \<le> (tokens b + f64 (s * r)) * w" using w(1) by (intro mult_right_mono) simp_all
  moreover have "(tokens b + f64 (s * r)) * w \<le> f64 (tokens b + f64 (s * r))" using t by (intro low) simp
  ultimately have le: "y * (w ^ 3 * w) \<le> f64 (tokens b + f64 (s * r))" by (simp only: mult.assoc)
  define z where "z = min y r"
  have z: "0 \<le> z" "z \<le> y" "z \<le> r" using nonneg by (simp_all add: z_def)
  have "z - r * rounding_slack \<le> z * (1 - rounding_slack)"
    using mult_right_mono [OF z(3), of rounding_slack] by (simp add: right_diff_distrib)
  also have "\<dots> \<le> z * (w ^ 3 * w)" using mult_left_mono [OF w(3) z(1)] .
  also have "\<dots> \<le> y * (w ^ 3 * w)" using mult_right_mono [OF z(2)] w(1) by simp
  finally have "z - r * rounding_slack \<le> f64 (tokens b + f64 (s * r))" using le by linarith
  moreover have "z - r * rounding_slack \<le> r" using z(3) nonneg(2) by (simp add: add_increasing2)
  ultimately show ?thesis by (simp add: refilled_tokens_def z_def y_def s_def r_def e_def)
qed

text \<open>Taking a token, without the arithmetic of the code: the level before it is the old one plus
  the rate for the time passed, capped at the rate, up to rounding.\<close>

lemma take_token_level:
  assumes wf: "bucket_wf rate b" and t: "take_token rate now b = (b', sent)"
  defines "r \<equiv> real (unat rate)"
  shows "\<exists>available. \<bar>available - min (tokens b + r * (of_nat (now - last_refill b) / 1000000000)) r\<bar> \<le> r * rounding_slack \<and>
    0 \<le> available \<and> available \<le> r \<and> (sent \<longleftrightarrow> 1 \<le> available) \<and>
    tokens b' = (if sent then available - 1 else available) \<and>
    last_refill b' = (if rate = 0 then last_refill b else now) \<and> limited_count b' = limited_count b"
proof (cases "rate = 0")
  case True
  then have "tokens b = 0" using wf by (simp add: bucket_wf_def)
  then show ?thesis using t True by (intro exI [of _ 0]) (auto simp: take_token_def r_def split: if_splits)
next
  case False
  then have pos: "0 < rate" by (simp add: word_gt_0)
  let ?a = "refilled_tokens rate now b"
  have tb: "0 \<le> tokens b" using wf by (simp add: bucket_wf_def)
  note a = refilled_tokens_wf [of rate now b]
  have minus: "f64 (?a - 1) = ?a - 1" if "1 \<le> ?a"
  proof -
    have "real (unat rate) < 2 ^ 53" using rate_bound [of rate] by (metis of_nat_less_iff of_nat_numeral of_nat_power)
    with that a show ?thesis by (intro f64_minus_one) simp_all
  qed
  have "\<bar>?a - min (tokens b + r * (of_nat (now - last_refill b) / 1000000000)) r\<bar> \<le> r * rounding_slack"
  proof -
    have "0 \<le> r * rounding_slack" by (simp add: r_def)
    then show ?thesis
      using refilled_upper [OF tb, of rate now] refilled_lower [OF tb, of rate now] a(2) unfolding r_def min_def abs_le_iff
      by (auto split: if_splits)
  qed
  then show ?thesis
    using t pos False a minus by (intro exI [of _ ?a]) (auto simp: take_token_def Let_def r_def split: if_splits)
qed

section \<open>The recency table\<close>

text \<open>The tracked keys, least recently used first.\<close>

definition lru_of :: "(u128, rrl_key) mapping \<Rightarrow> rrl_key list" where
  "lru_of t = map (\<lambda>ord. the (Mapping.lookup t ord)) (Mapping.ordered_keys t)"

text \<open>The bucket table and the recency table agree.\<close>

definition consistent :: "(rrl_key, rrl_bucket) mapping \<Rightarrow> (u128, rrl_key) mapping \<Rightarrow> bool" where
  "consistent bs t \<longleftrightarrow> finite (Mapping.keys bs) \<and>
     (\<forall>ord k. Mapping.lookup t ord = Some k \<longleftrightarrow> (\<exists>b. Mapping.lookup bs k = Some b \<and> bucket_order b = ord))"

lemma lookup_keys_iff: "ord \<in> Mapping.keys t \<longleftrightarrow> (\<exists>k. Mapping.lookup t ord = Some k)"
  by (simp add: keys_is_none_rep Option.is_none_def)

lemma consistent_finite: "consistent bs t \<Longrightarrow> finite (Mapping.keys t)"
proof -
  assume c: "consistent bs t"
  have "Mapping.keys t \<subseteq> (\<lambda>k. bucket_order (the (Mapping.lookup bs k))) ` Mapping.keys bs"
  proof
    fix ord assume "ord \<in> Mapping.keys t"
    then obtain k b where "Mapping.lookup bs k = Some b" "bucket_order b = ord"
      using c by (auto simp: consistent_def lookup_keys_iff)
    then show "ord \<in> (\<lambda>k. bucket_order (the (Mapping.lookup bs k))) ` Mapping.keys bs"
      by (intro image_eqI [of _ _ k]) (simp_all add: lookup_keys_iff)
  qed
  with c show ?thesis by (auto simp: consistent_def intro: finite_subset)
qed

lemma consistent_inj:
  "consistent bs t \<Longrightarrow> Mapping.lookup t a = Some k \<Longrightarrow> Mapping.lookup t b = Some k \<Longrightarrow> a = b"
  by (auto simp: consistent_def)

lemma consistent_order_inj:
  "consistent bs t \<Longrightarrow> Mapping.lookup bs k = Some b \<Longrightarrow> Mapping.lookup bs k' = Some b' \<Longrightarrow>
     bucket_order b = bucket_order b' \<Longrightarrow> k = k'"
  unfolding consistent_def by (metis option.inject)

lemma ordered_keys_finite:
  assumes "finite (Mapping.keys t)"
  shows "set (Mapping.ordered_keys t) = Mapping.keys t" "distinct (Mapping.ordered_keys t)"
    "sorted (Mapping.ordered_keys t)"
  using assms by (simp_all add: Mapping.ordered_keys_def)

lemma consistent_lru:
  assumes "consistent bs t"
  shows "set (lru_of t) = Mapping.keys bs" "distinct (lru_of t)" "length (lru_of t) = Mapping.size bs"
proof -
  note fin = consistent_finite [OF assms] and ord = ordered_keys_finite [OF consistent_finite [OF assms]]
  show set: "set (lru_of t) = Mapping.keys bs"
    using assms ord(1) by (force simp: lru_of_def consistent_def lookup_keys_iff)
  have "inj_on (\<lambda>ord. the (Mapping.lookup t ord)) (set (Mapping.ordered_keys t))"
    using consistent_inj [OF assms] ord(1) by (auto simp: inj_on_def lookup_keys_iff)
  then show dist: "distinct (lru_of t)" using ord(2) by (simp add: lru_of_def distinct_map)
  show "length (lru_of t) = Mapping.size bs"
    using distinct_card [OF dist] set assms by (simp add: Mapping.size_def consistent_def)
qed

lemma ordered_keys_eqI:
  "finite (Mapping.keys t) \<Longrightarrow> set xs = Mapping.keys t \<Longrightarrow> sorted xs \<Longrightarrow> distinct xs \<Longrightarrow> Mapping.ordered_keys t = xs"
  using ordered_keys_finite [of t] by (intro sorted_distinct_set_unique) auto

lemma lru_update:
  assumes "finite (Mapping.keys t)" "\<forall>ord \<in> Mapping.keys t. ord < n"
  shows "lru_of (Mapping.update n k t) = lru_of t @ [k]"
proof -
  note ord = ordered_keys_finite [OF assms(1)]
  have "Mapping.ordered_keys (Mapping.update n k t) = Mapping.ordered_keys t @ [n]"
    using ord assms by (intro ordered_keys_eqI) (auto simp: sorted_append less_imp_le)
  moreover have "map (\<lambda>ord. the (Mapping.lookup (Mapping.update n k t) ord)) (Mapping.ordered_keys t) = lru_of t"
    using assms(2) ord(1) by (auto simp: lru_of_def lookup_update')
  ultimately show ?thesis by (simp add: lru_of_def)
qed

lemma lru_delete:
  assumes "consistent bs t" "Mapping.lookup t a = Some k"
  shows "lru_of (Mapping.delete a t) = filter (\<lambda>x. x \<noteq> k) (lru_of t)"
proof -
  note ord = ordered_keys_finite [OF consistent_finite [OF assms(1)]]
  have "Mapping.ordered_keys (Mapping.delete a t) = filter (\<lambda>x. x \<noteq> a) (Mapping.ordered_keys t)"
    using ord consistent_finite [OF assms(1)] by (intro ordered_keys_eqI) (auto simp: sorted_wrt_filter)
  moreover have "x \<noteq> a \<longleftrightarrow> the (Mapping.lookup t x) \<noteq> k" if "x \<in> set (Mapping.ordered_keys t)" for x
    using that assms consistent_inj [OF assms(1)] ord(1) by (auto simp: lookup_keys_iff)
  then have "filter (\<lambda>x. x \<noteq> a) (Mapping.ordered_keys t) =
      filter (\<lambda>x. the (Mapping.lookup t x) \<noteq> k) (Mapping.ordered_keys t)" by (rule filter_cong [OF refl])
  ultimately show ?thesis
    using assms(2) by (auto simp: lru_of_def filter_map comp_def lookup_delete_if)
qed

lemma first_key_value_lru:
  assumes "consistent bs t"
  shows "case first_key_value t of
      None \<Rightarrow> lru_of t = []
    | Some (a, k) \<Rightarrow> Mapping.lookup t a = Some k \<and> lru_of t = k # tl (lru_of t) \<and> lru_of (Mapping.delete a t) = tl (lru_of t)"
proof (cases "Mapping.ordered_keys t")
  case Nil
  then show ?thesis by (simp add: first_key_value_def lru_of_def)
next
  case (Cons a xs)
  then obtain k where k: "Mapping.lookup t a = Some k"
    using ordered_keys_finite(1) [OF consistent_finite [OF assms]] by (force simp: lookup_keys_iff)
  have l: "lru_of t = k # tl (lru_of t)" using Cons k by (simp add: lru_of_def)
  then have "lru_of (Mapping.delete a t) = tl (lru_of t)"
    using lru_delete [OF assms k] consistent_lru(2) [OF assms]
    by (metis (mono_tags, lifting) distinct.simps(2) filter.simps(2) filter_True)
  with l k Cons show ?thesis by (simp add: first_key_value_def)
qed

lemma consistent_delete:
  assumes "consistent bs t" "Mapping.lookup t a = Some k"
  shows "consistent (Mapping.delete k bs) (Mapping.delete a t)"
  using assms consistent_order_inj [OF assms(1)] unfolding consistent_def
  by (auto simp: lookup_delete_if split: if_splits)

text \<open>Renewing a key: its old place goes, a new one later than all others comes.\<close>

lemma consistent_renew:
  assumes "consistent bs t" "case Mapping.lookup bs k of None \<Rightarrow> t' = t | Some b \<Rightarrow> t' = Mapping.delete (bucket_order b) t"
    and "\<forall>ord \<in> Mapping.keys t. ord < n" "bucket_order b' = n"
  shows "consistent (Mapping.update k b' bs) (Mapping.update n k t')"
    "lru_of (Mapping.update n k t') = filter (\<lambda>x. x \<noteq> k) (lru_of t) @ [k]"
proof -
  have keys: "\<forall>ord \<in> Mapping.keys t'. ord < n" and fin: "finite (Mapping.keys t')"
    using assms(2,3) consistent_finite [OF assms(1)] by (auto split: option.splits)
  have bound: "Mapping.lookup t n = None" using assms(3) by (meson lookup_keys_iff not_Some_eq order_less_irrefl)
  have fresh: "bucket_order b \<noteq> n" if "Mapping.lookup bs k' = Some b" for k' b
    using that bound assms(1) unfolding consistent_def by (metis option.distinct(1))
  have other: "Mapping.lookup t' ord = Some k' \<longleftrightarrow> k' \<noteq> k \<and> Mapping.lookup t ord = Some k'" for ord k'
    using assms(1,2) consistent_order_inj [OF assms(1)]
    by (auto simp: consistent_def lookup_delete_if split: option.splits if_splits)
  show "consistent (Mapping.update k b' bs) (Mapping.update n k t')"
    using assms(1,4) fresh other unfolding consistent_def
    by (auto simp: lookup_update' split: if_splits)
  have "lru_of t' = filter (\<lambda>x. x \<noteq> k) (lru_of t)"
  proof (cases "Mapping.lookup bs k")
    case None
    then have "k \<notin> set (lru_of t)" using consistent_lru(1) [OF assms(1)] by (simp add: lookup_keys_iff)
    with None assms(2) show ?thesis by (metis (mono_tags, lifting) filter_True option.simps(4))
  next
    case (Some b)
    then have "Mapping.lookup t (bucket_order b) = Some k" using assms(1) by (auto simp: consistent_def)
    with Some assms(2) lru_delete [OF assms(1)] show ?thesis by simp
  qed
  then show "lru_of (Mapping.update n k t') = filter (\<lambda>x. x \<noteq> k) (lru_of t) @ [k]"
    using lru_update [OF fin keys] by simp
qed

section \<open>One decision\<close>

abbreviation lru :: "rrl_state \<Rightarrow> rrl_key list" where
  "lru st \<equiv> lru_of (recency st)"

text \<open>What making room does: nothing, or the least recently used key goes.\<close>

definition evicted :: "rrl_state \<Rightarrow> rrl_state \<Rightarrow> bool" where
  "evicted st st' \<longleftrightarrow> consistent (buckets st') (recency st') \<and>
     lru st' = (if length (lru st) < max_keys st then lru st else tl (lru st)) \<and>
     st' = st \<lparr> buckets := buckets st', recency := recency st' \<rparr> \<and>
     Mapping.keys (recency st') \<subseteq> Mapping.keys (recency st) \<and>
     (\<forall>k. Mapping.lookup (buckets st') k = (if k \<in> set (lru st') then Mapping.lookup (buckets st) k else None))"

lemma consistent_lookup_lru:
  "consistent bs t \<Longrightarrow> Mapping.lookup bs k = (if k \<in> set (lru_of t) then Mapping.lookup bs k else None)"
  using consistent_lru(1) [of bs t] lookup_keys_iff [of k bs] by auto

lemma evict_spec:
  assumes c: "consistent (buckets st) (recency st)"
  shows "evicted st (fst (evict_one_if_needed st mt))"
proof -
  note len = consistent_lru(3) [OF c] and first = first_key_value_lru [OF c]
  have same: "evicted st st" if "length (lru st) < max_keys st \<or> lru st = []"
    using that c consistent_lookup_lru [OF c] by (auto simp: evicted_def)
  show ?thesis
  proof (cases "length (lru st) < max_keys st")
    case True
    with same len show ?thesis by (simp add: evict_one_if_needed_def)
  next
    case full: False
    show ?thesis
    proof (cases "first_key_value (recency st)")
      case None
      with first full len same show ?thesis by (simp add: evict_one_if_needed_def)
    next
      case (Some ak)
      obtain a k where ak: "ak = (a, k)" by (cases ak)
      with Some first have a: "Mapping.lookup (recency st) a = Some k" "lru st = k # tl (lru st)"
        "lru_of (Mapping.delete a (recency st)) = tl (lru st)" by auto
      let ?st = "st \<lparr> recency := Mapping.delete a (recency st), buckets := Mapping.delete k (buckets st) \<rparr>"
      have st': "fst (evict_one_if_needed st mt) = ?st"
        using full len Some ak by (simp add: evict_one_if_needed_def Let_def)
      have c': "consistent (buckets ?st) (recency ?st)" using consistent_delete [OF c a(1)] by simp
      have "k \<notin> set (tl (lru st))" using consistent_lru(2) [OF c] a(2) by (metis distinct.simps(2))
      then have "Mapping.lookup (buckets ?st) k' = (if k' \<in> set (tl (lru st)) then Mapping.lookup (buckets st) k' else None)" for k'
        using consistent_lookup_lru [OF c, of k'] a(2)
        by (simp add: lookup_delete_if) (metis set_ConsD)
      with c' a(3) full show ?thesis unfolding st' by (auto simp: evicted_def)
    qed
  qed
qed

definition bucket_of :: "rrl_state \<Rightarrow> rrl_key \<Rightarrow> u32 \<Rightarrow> instant \<Rightarrow> rrl_bucket" where
  "bucket_of st key rate now = touch (next_order st)
     (case Mapping.lookup (buckets st) key of Some b \<Rightarrow> b | None \<Rightarrow> bucket_new rate (next_order st) now)"

text \<open>The least-recently-used queue after a key is touched.\<close>

definition lru_touch :: "nat \<Rightarrow> rrl_key \<Rightarrow> rrl_key list \<Rightarrow> rrl_key list" where
  "lru_touch n key ks = (if key \<in> set ks \<or> length ks < n then filter (\<lambda>k. k \<noteq> key) ks else tl ks) @ [key]"

text \<open>What the first half of a decision does to the tables.\<close>

definition renewed :: "rrl_state \<Rightarrow> rrl_key \<Rightarrow> rrl_state \<Rightarrow> bool" where
  "renewed st key st' \<longleftrightarrow>
     st' = st \<lparr> buckets := buckets st', recency := recency st', next_order := next_order st + 1 \<rparr> \<and>
     lru st' = lru_touch (max_keys st) key (lru st) \<and>
     (\<forall>b. bucket_order b = next_order st \<longrightarrow> consistent (Mapping.update key b (buckets st')) (recency st')) \<and>
     (\<forall>k. k \<noteq> key \<longrightarrow> Mapping.lookup (buckets st') k =
       (if k \<in> set (lru st') then Mapping.lookup (buckets st) k else None)) \<and>
     Mapping.keys (recency st') \<subseteq> insert (next_order st) (Mapping.keys (recency st))"

lemma decide_bucket_known:
  assumes c: "consistent (buckets st) (recency st)" and fresh: "\<forall>ord \<in> Mapping.keys (recency st). ord < next_order st"
    and known: "Mapping.lookup (buckets st) key = Some b0"
    and res: "decide_bucket st mt key rate now = (st', mt', b)"
  shows "b = bucket_of st key rate now" "renewed st key st'"
proof -
  let ?t = "Mapping.delete (bucket_order b0) (recency st)"
  have st': "st' = st \<lparr> recency := Mapping.update (next_order st) key ?t, next_order := next_order st + 1 \<rparr>"
    and b: "b = touch (next_order st) b0"
    using res known by (auto simp: decide_bucket_def allocate_order_def)
  show "b = bucket_of st key rate now" using b known by (simp add: bucket_of_def)
  have "case Mapping.lookup (buckets st) key of None \<Rightarrow> ?t = recency st
      | Some b \<Rightarrow> ?t = Mapping.delete (bucket_order b) (recency st)" using known by simp
  note renew = consistent_renew [OF c this fresh]
  have lru': "lru st' = filter (\<lambda>k. k \<noteq> key) (lru st) @ [key]"
    using renew(2) [of "touch (next_order st) b0"] st' by (simp add: touch_def)
  have "key \<in> set (lru st)" using consistent_lru(1) [OF c] known by (auto simp: lookup_keys_iff)
  then have "lru st' = lru_touch (max_keys st) key (lru st)" using lru' by (simp add: lru_touch_def)
  moreover have "Mapping.lookup (buckets st') k = (if k \<in> set (lru st') then Mapping.lookup (buckets st) k else None)"
    if "k \<noteq> key" for k
    using that lru' st' consistent_lookup_lru [OF c, of k] by auto
  ultimately show "renewed st key st'" using renew(1) st' by (auto simp: renewed_def)
qed

lemma decide_bucket_new:
  assumes c: "consistent (buckets st) (recency st)" and fresh: "\<forall>ord \<in> Mapping.keys (recency st). ord < next_order st"
    and new: "Mapping.lookup (buckets st) key = None"
    and res: "decide_bucket st mt key rate now = (st', mt', b)"
  shows "b = bucket_of st key rate now" "renewed st key st'"
proof -
  obtain st1 mt1 where e: "evict_one_if_needed st mt = (st1, mt1)" by fastforce
  with evict_spec [OF c, of mt] have ev: "evicted st st1" by simp
  then obtain B R where st1: "st1 = st \<lparr> buckets := B, recency := R \<rparr>" unfolding evicted_def by blast
  then have same: "next_order st1 = next_order st" by simp
  from ev new have new1: "Mapping.lookup (buckets st1) key = None" by (simp add: evicted_def)
  have st': "st' = st1 \<lparr> recency := Mapping.update (next_order st) key (recency st1), next_order := next_order st + 1 \<rparr>"
    and b: "b = touch (next_order st) (bucket_new rate (next_order st) now)"
    using res new new1 e same by (auto simp: decide_bucket_def allocate_order_def)
  show "b = bucket_of st key rate now" using b new by (simp add: bucket_of_def)
  have c1: "consistent (buckets st1) (recency st1)" and keys: "Mapping.keys (recency st1) \<subseteq> Mapping.keys (recency st)"
    using ev by (simp_all add: evicted_def)
  have "case Mapping.lookup (buckets st1) key of None \<Rightarrow> recency st1 = recency st1
      | Some b \<Rightarrow> recency st1 = Mapping.delete (bucket_order b) (recency st1)" using new1 by simp
  note renew = consistent_renew [OF c1 this, of "next_order st"]
  have fresh1: "\<forall>ord \<in> Mapping.keys (recency st1). ord < next_order st" using fresh keys by blast
  have notin: "key \<notin> set (lru st)" using consistent_lru(1) [OF c] new by (simp add: lookup_keys_iff)
  have lru': "lru st' = filter (\<lambda>k. k \<noteq> key) (lru st1) @ [key]"
    using renew(2) [OF fresh1, of "bucket_new rate (next_order st) now"] st' by (simp add: bucket_new_def)
  moreover have "key \<notin> set (lru st1)" using consistent_lru(1) [OF c1] new1 by (simp add: lookup_keys_iff)
  moreover have "filter (\<lambda>k. k \<noteq> key) ks = ks" if "key \<notin> set ks" for ks using that by (induction ks) auto
  ultimately have lt: "lru st' = lru_touch (max_keys st) key (lru st)"
    using notin ev by (auto simp: lru_touch_def evicted_def)
  have "Mapping.lookup (buckets st') k = (if k \<in> set (lru st') then Mapping.lookup (buckets st) k else None)"
    if "k \<noteq> key" for k
    using that lru' st' ev by (auto simp: evicted_def)
  moreover have "st' = st \<lparr> buckets := buckets st', recency := recency st', next_order := next_order st + 1 \<rparr>"
    using st' st1 by simp
  ultimately show "renewed st key st'" using renew(1) [OF fresh1] st' lt keys unfolding renewed_def by auto
qed

lemma decide_bucket_spec:
  assumes "consistent (buckets st) (recency st)" "\<forall>ord \<in> Mapping.keys (recency st). ord < next_order st"
    and "decide_bucket st mt key rate now = (st', mt', b)"
  shows "b = bucket_of st key rate now" "renewed st key st'"
  using decide_bucket_known [OF assms(1,2) _ assms(3)] decide_bucket_new [OF assms(1,2) _ assms(3)]
  by (cases "Mapping.lookup (buckets st) key"; blast)+

section \<open>The invariant\<close>

definition rrl_inv :: "rrl_state \<Rightarrow> bool" where
  "rrl_inv st \<longleftrightarrow> consistent (buckets st) (recency st) \<and>
     (\<forall>ord \<in> Mapping.keys (recency st). ord < next_order st) \<and>
     length (lru st) \<le> max 1 (max_keys st) \<and>
     (\<forall>k b. Mapping.lookup (buckets st) k = Some b \<longrightarrow> bucket_wf (for_category (rates st) (key_category k)) b)"

lemma u128_less_succ: "n \<noteq> - 1 \<Longrightarrow> n < n + (1 :: u128)"
proof -
  assume "n \<noteq> - 1"
  then have "1 + n \<noteq> 0" by (metis add.commute add_eq_0_iff)
  then show ?thesis by (simp add: word_less_nat_alt unatSuc add.commute)
qed

lemma rrl_inv_init: "rrl_inv (rrl_state_from_config config)"
  by (simp add: rrl_inv_def rrl_state_from_config_def consistent_def lru_of_def Mapping.ordered_keys_def)

lemma length_lru_touch:
  assumes "distinct ks" "length ks \<le> max 1 n"
  shows "length (lru_touch n key ks) \<le> max 1 n"
proof (cases "key \<in> set ks")
  case True
  then have "filter (\<lambda>k. k \<noteq> key) ks = remove1 key ks" using assms(1) by (simp add: distinct_remove1_removeAll removeAll_filter_not_eq eq_commute)
  with True assms(2) show ?thesis by (simp add: lru_touch_def length_remove1)
next
  case False
  with assms(2) show ?thesis
    by (auto simp: lru_touch_def max_def split: if_splits intro!: Suc_leI intro: le_less_trans [OF length_filter_le])
qed

text \<open>The bucket a decision leaves behind, and the decision itself.\<close>

definition accounted :: "u32 \<Rightarrow> u32 \<Rightarrow> instant \<Rightarrow> rrl_bucket \<Rightarrow> rrl_bucket \<times> rrl_disposition" where
  "accounted s rate now b =
     (let (b, sent) = take_token rate now b in
      if sent then (b, Send)
      else let b = b \<lparr> limited_count := saturating_add (limited_count b) 1 \<rparr>
           in (b, if 0 < s \<and> limited_count b mod ucast s = 0 then Slip else Drop))"

lemma take_token_order: "take_token rate now b = (b', sent) \<Longrightarrow> bucket_order b' = bucket_order b"
  by (auto simp: take_token_def Let_def split: if_splits)

lemma accounted_wf:
  assumes "bucket_wf rate b" "accounted s rate now b = (b', d)"
  shows "bucket_wf rate b'" "bucket_order b' = bucket_order b"
  using assms take_token_wf [OF assms(1)] take_token_order [of rate now b]
  by (auto simp: accounted_def Let_def bucket_wf_def split: prod.splits if_splits)

lemma decide_eq:
  assumes "key = rrl_key_new source (prefix_len st source) category" "rate = for_category (rates st) category"
    and "decide_bucket st (record_rrl_subject mt) key rate created = (st1, mt1, b)" "slip st1 = slip st"
  shows "\<exists>mt'. decide st mt source category created taken =
    (st1 \<lparr> buckets := Mapping.update key (fst (accounted (slip st) rate taken b)) (buckets st1) \<rparr>, mt',
     snd (accounted (slip st) rate taken b))"
  using assms by (auto simp: decide_def accounted_def Let_def split: prod.splits)

lemma decide_spec:
  assumes inv: "rrl_inv st" and key: "key = rrl_key_new source (prefix_len st source) category"
    and rate: "rate = for_category (rates st) category"
    and res: "decide st mt source category created taken = (st', mt', d)"
  shows "d = snd (accounted (slip st) rate taken (bucket_of st key rate created))"
    "Mapping.lookup (buckets st') key = Some (fst (accounted (slip st) rate taken (bucket_of st key rate created)))"
    "lru st' = lru_touch (max_keys st) key (lru st)"
    "\<And>k. k \<noteq> key \<Longrightarrow> Mapping.lookup (buckets st') k =
       (if k \<in> set (lru st') then Mapping.lookup (buckets st) k else None)"
    "next_order st' = next_order st + 1" "rates st' = rates st" "slip st' = slip st" "max_keys st' = max_keys st"
    "ipv4_prefix_len st' = ipv4_prefix_len st" "ipv6_prefix_len st' = ipv6_prefix_len st"
    "next_order st \<noteq> - 1 \<Longrightarrow> rrl_inv st'"
proof -
  obtain st1 mt1 b where db: "decide_bucket st (record_rrl_subject mt) key rate created = (st1, mt1, b)"
    by (metis prod_cases3)
  have c: "consistent (buckets st) (recency st)" "\<forall>ord \<in> Mapping.keys (recency st). ord < next_order st"
    using inv by (simp_all add: rrl_inv_def)
  note spec = decide_bucket_spec [OF c db]
  from spec(2) obtain B R where st1: "st1 = st \<lparr> buckets := B, recency := R, next_order := next_order st + 1 \<rparr>"
    unfolding renewed_def by blast
  obtain b' d' where acc: "accounted (slip st) rate taken b = (b', d')" by fastforce
  have st': "st' = st1 \<lparr> buckets := Mapping.update key b' (buckets st1) \<rparr>" and d: "d = d'"
    using decide_eq [OF key rate db, of taken] res acc st1 by auto
  show "d = snd (accounted (slip st) rate taken (bucket_of st key rate created))"
    "Mapping.lookup (buckets st') key = Some (fst (accounted (slip st) rate taken (bucket_of st key rate created)))"
    using d st' acc spec(1) by (simp_all add: lookup_update)
  show lru': "lru st' = lru_touch (max_keys st) key (lru st)" using spec(2) st' by (simp add: renewed_def)
  show others: "Mapping.lookup (buckets st') k = (if k \<in> set (lru st') then Mapping.lookup (buckets st) k else None)"
    if "k \<noteq> key" for k
    using that spec(2) st' by (simp add: renewed_def lookup_update_neq)
  show conf: "next_order st' = next_order st + 1" "rates st' = rates st" "slip st' = slip st" "max_keys st' = max_keys st"
    "ipv4_prefix_len st' = ipv4_prefix_len st" "ipv6_prefix_len st' = ipv6_prefix_len st"
    using st' st1 by simp_all
  have "key_category key = category" by (simp add: key rrl_key_new_def)
  then have wf: "bucket_wf rate b"
    using inv spec(1) rate by (auto simp: bucket_of_def bucket_wf_new rrl_inv_def split: option.splits)
  show "rrl_inv st'" if "next_order st \<noteq> - 1"
  proof -
    have "bucket_order b' = next_order st" using accounted_wf(2) [OF wf acc] spec(1) by (simp add: bucket_of_def touch_def)
    then have "consistent (buckets st') (recency st')" using spec(2) st' by (simp add: renewed_def)
    moreover have "next_order st < next_order st + 1" by (rule u128_less_succ [OF that])
    then have "\<forall>ord \<in> Mapping.keys (recency st'). ord < next_order st'"
      using c(2) spec(2) st' conf(1) by (auto simp: renewed_def dest!: subsetD intro: less_trans)
    moreover have "length (lru st') \<le> max 1 (max_keys st')"
      using inv lru' conf(4) length_lru_touch [OF consistent_lru(2) [OF c(1)]] by (simp add: rrl_inv_def)
    moreover have "bucket_wf (for_category (rates st') (key_category k)) b2" if "Mapping.lookup (buckets st') k = Some b2" for k b2
    proof (cases "k = key")
      case True
      then have "b2 = b'" using that st' by (simp add: lookup_update)
      with True accounted_wf(1) [OF wf acc] key rate conf(2) show ?thesis by (simp add: rrl_key_new_def)
    next
      case False
      with that others [OF False] inv conf(2) show ?thesis by (simp add: rrl_inv_def split: if_splits)
    qed
    ultimately show ?thesis unfolding rrl_inv_def by blast
  qed
qed

lemma evict_counters:
  "evict_one_if_needed st mt = (st', mt') \<Longrightarrow>
     rrl_subject mt' = rrl_subject mt \<and> rrl_dropped mt' = rrl_dropped mt \<and> rrl_truncated mt' = rrl_truncated mt"
  by (auto simp: evict_one_if_needed_def set_rrl_tracked_keys_def record_rrl_key_evicted_def Let_def
      split: if_splits option.splits)

lemma decide_bucket_counters:
  "decide_bucket st mt key rate now = (st', mt', b) \<Longrightarrow>
     rrl_subject mt' = rrl_subject mt \<and> rrl_dropped mt' = rrl_dropped mt \<and> rrl_truncated mt' = rrl_truncated mt"
  by (auto simp: decide_bucket_def set_rrl_tracked_keys_def allocate_order_def Let_def
      split: option.splits prod.splits dest!: evict_counters)

lemma decide_counters:
  assumes "decide st mt source category created taken = (st', mt', d)"
  shows "rrl_subject mt' = rrl_subject mt + 1"
    "rrl_dropped mt' = rrl_dropped mt + (if d = Drop then 1 else 0)"
    "rrl_truncated mt' = rrl_truncated mt + (if d = Slip then 1 else 0)"
proof -
  obtain st1 mt1 b where db: "decide_bucket st (record_rrl_subject mt)
      (rrl_key_new source (prefix_len st source) category) (for_category (rates st) category) created = (st1, mt1, b)"
    by (metis prod_cases3)
  have mt1: "rrl_subject mt1 = rrl_subject mt + 1" "rrl_dropped mt1 = rrl_dropped mt" "rrl_truncated mt1 = rrl_truncated mt"
    using decide_bucket_counters [OF db] by (simp_all add: record_rrl_subject_def)
  show "rrl_subject mt' = rrl_subject mt + 1"
    "rrl_dropped mt' = rrl_dropped mt + (if d = Drop then 1 else 0)"
    "rrl_truncated mt' = rrl_truncated mt + (if d = Slip then 1 else 0)"
    using assms mt1
    by (auto simp: decide_def db Let_def record_rrl_truncated_def record_rrl_dropped_def split: prod.splits if_splits)
qed

lemma unat_saturating_add_one: "unat (saturating_add n 1) = min (unat n + 1) (2 ^ 64 - 1)"
proof (cases "n = - 1")
  case True
  have "\<not> (- 1 :: u64) \<le> - 1 - 1" by code_simp
  moreover have "unat (- 1 :: u64) = 2 ^ 64 - 1" by (simp add: unsigned_minus_1_eq_mask mask_eq_exp_minus_1)
  ultimately show ?thesis using True by (simp add: saturating_add_def)
next
  case False
  then have "unat n \<noteq> unat (- 1 :: u64)" by (metis word_unat_eqI)
  then have "unat n < 2 ^ 64 - 1" using unsigned_less [of n, where ?'a = nat] by (simp add: unsigned_minus_1_eq_mask mask_eq_exp_minus_1)
  then have "unat (n + 1) = unat n + 1" "n \<le> - 1 - 1"
    by (simp_all add: unat_word_ariths word_le_nat_alt)
  then show ?thesis using \<open>unat n < 2 ^ 64 - 1\<close> by (simp add: saturating_add_def)
qed

lemma slip_divides: "0 < s \<Longrightarrow> (n :: u64) mod ucast (s :: u32) = 0 \<longleftrightarrow> unat s dvd unat n"
proof -
  have "unat s < 2 ^ LENGTH(32)" by (rule unsigned_less)
  then have "unat (ucast s :: u64) = unat s" by (simp add: unsigned_ucast_eq take_bit_nat_eq_self)
  moreover have "n mod ucast s = 0 \<longleftrightarrow> unat (n mod ucast s) = 0" by (simp add: unsigned_eq_0_iff)
  ultimately show ?thesis by (simp add: unat_mod_distrib dvd_eq_mod_eq_0)
qed


lemma accounted_level:
  assumes wf: "bucket_wf rate b" and acc: "accounted s rate now b = (b', d)"
  defines "r \<equiv> real (unat rate)"
  shows "\<exists>available. \<bar>available - min (tokens b + r * (of_nat (now - last_refill b) / 1000000000)) r\<bar> \<le> r * rounding_slack \<and>
    0 \<le> available \<and> available \<le> r \<and> (d = Send \<longleftrightarrow> 1 \<le> available) \<and>
    tokens b' = (if d = Send then available - 1 else available) \<and>
    last_refill b' = (if rate = 0 then last_refill b else now) \<and>
    unat (limited_count b') = (if d = Send then unat (limited_count b) else min (unat (limited_count b) + 1) (2 ^ 64 - 1)) \<and>
    (d = Slip \<longleftrightarrow> d \<noteq> Send \<and> 0 < s \<and> unat s dvd unat (limited_count b'))"
proof -
  obtain b1 sent where t: "take_token rate now b = (b1, sent)" by fastforce
  have b': "d = Send \<longleftrightarrow> sent" "tokens b' = tokens b1" "last_refill b' = last_refill b1"
    "limited_count b' = (if sent then limited_count b1 else saturating_add (limited_count b1) 1)"
    "d = Slip \<longleftrightarrow> \<not> sent \<and> 0 < s \<and> limited_count b' mod ucast s = 0"
    using acc t by (auto simp: accounted_def Let_def split: if_splits del: mod_0_imp_dvd)
  obtain a where a: "\<bar>a - min (tokens b + r * (of_nat (now - last_refill b) / 1000000000)) r\<bar> \<le> r * rounding_slack"
    "0 \<le> a" "a \<le> r" "sent \<longleftrightarrow> 1 \<le> a" "tokens b1 = (if sent then a - 1 else a)"
    "last_refill b1 = (if rate = 0 then last_refill b else now)" "limited_count b1 = limited_count b"
    using take_token_level [OF wf t] unfolding r_def by blast
  have count: "unat (limited_count b') = (if d = Send then unat (limited_count b) else min (unat (limited_count b) + 1) (2 ^ 64 - 1))"
    unfolding b'(1,4) a(7) by (cases sent) (simp_all only: unat_saturating_add_one if_True if_False)
  have slip: "d = Slip \<longleftrightarrow> d \<noteq> Send \<and> 0 < s \<and> unat s dvd unat (limited_count b')"
    using b'(1,5) slip_divides [of s "limited_count b'"] by metis
  show ?thesis
    using a(1-4) a(5,6) [folded b'(1-3)] count slip b'(1) by (intro exI [of _ a] conjI) simp_all
qed

section \<open>Sequences of calls\<close>

fun run_steps :: "('s \<Rightarrow> 'e \<Rightarrow> 's \<times> 'd) \<Rightarrow> 's \<Rightarrow> 'e list \<Rightarrow> 's \<times> 'd list" where
  "run_steps step s [] = (s, [])"
| "run_steps step s (e # es) =
     (let r = step s e; rs = run_steps step (fst r) es in (fst rs, snd r # snd rs))"

lemma length_run_steps [simp]: "length (snd (run_steps step s es)) = length es"
  by (induction es arbitrary: s) (simp_all add: Let_def)

text \<open>
  The contract of a limiter under its lock: every call keeps an invariant, as long as a budget
  of calls (the range of the recency counter) is not used up.
\<close>

locale limiter =
  fixes step :: "'s \<Rightarrow> 'e \<Rightarrow> 's \<times> 'd"
    and inv :: "nat \<Rightarrow> 's \<Rightarrow> bool"
  assumes step_inv: "inv (Suc k) s \<Longrightarrow> inv k (fst (step s e))"
begin

lemma run_inv: "inv (length es + k) s \<Longrightarrow> inv k (fst (run_steps step s es))"
proof (induction es arbitrary: s)
  case (Cons e es)
  then have "inv (length es + k) (fst (step s e))" by (intro step_inv) simp
  from Cons.IH [OF this] show ?case by (simp add: Let_def)
qed simp

lemma nth_step:
  assumes "i < length es"
  shows "snd (run_steps step s es) ! i = snd (step (fst (run_steps step s (take i es))) (es ! i))"
  using assms
proof (induction es arbitrary: i s)
  case (Cons e es)
  then show ?case by (cases i) (simp_all add: Let_def)
qed simp

end

record rrl_event =
  ev_source :: ip_addr
  ev_category :: rrl_category
  ev_created :: instant
  ev_taken :: instant

definition rrl_step :: "rrl_state \<times> rrl_metrics \<Rightarrow> rrl_event \<Rightarrow> (rrl_state \<times> rrl_metrics) \<times> rrl_disposition" where
  "rrl_step s e =
     (let (st, mt, d) = decide (fst s) (snd s) (ev_source e) (ev_category e) (ev_created e) (ev_taken e)
      in ((st, mt), d))"

definition rrl_budget :: "nat \<Rightarrow> rrl_state \<times> rrl_metrics \<Rightarrow> bool" where
  "rrl_budget k s \<longleftrightarrow> rrl_inv (fst s) \<and> unat (next_order (fst s)) + k < 2 ^ 128"

lemma rrl_step_decide:
  "rrl_step s e = ((st', mt'), d) \<longleftrightarrow>
     decide (fst s) (snd s) (ev_source e) (ev_category e) (ev_created e) (ev_taken e) = (st', mt', d)"
  by (auto simp: rrl_step_def split: prod.splits)

lemma unat_u128_succ: "unat n + 1 < 2 ^ 128 \<Longrightarrow> unat (n + 1 :: u128) = unat n + 1"
  by (simp add: unat_word_ariths)

interpretation rrl: limiter rrl_step rrl_budget
proof
  fix k s and e :: rrl_event
  assume b: "rrl_budget (Suc k) s"
  obtain st' mt' d where step: "rrl_step s e = ((st', mt'), d)" by (metis prod.collapse)
  note spec = decide_spec [OF _ refl refl step [unfolded rrl_step_decide]]
  from b have inv: "rrl_inv (fst s)" and room: "unat (next_order (fst s)) + Suc k < 2 ^ 128" by (simp_all add: rrl_budget_def)
  have "unat (- 1 :: u128) + 1 = 2 ^ 128" by (simp add: unsigned_minus_1_eq_mask mask_eq_exp_minus_1)
  with room have "next_order (fst s) \<noteq> - 1" by auto
  with spec(11) [OF inv] have "rrl_inv st'" .
  moreover have "unat (next_order st') = unat (next_order (fst s)) + 1"
    unfolding spec(5) [OF inv] by (rule unat_u128_succ) (use room in simp)
  ultimately show "rrl_budget k (fst (rrl_step s e))" using room step by (simp add: rrl_budget_def)
qed

section \<open>NOTIFY log\<close>

record notify_event =
  nv_category :: notify_log_category
  nv_source :: ip_addr
  nv_zone :: bytes
  nv_now :: instant

definition notify_step :: "notify_log_state \<Rightarrow> notify_event \<Rightarrow> notify_log_state \<times> notify_log_decision" where
  "notify_step st e = observe st (nv_category e) (nv_source e) (nv_zone e) (nv_now e)"

definition notify_key :: "notify_event \<Rightarrow> notify_log_key" where
  "notify_key e = NotifyLogKey (notify_log_prefix (nv_source e)) (nv_zone e) (nv_category e)"

definition notify_inv :: "nat \<Rightarrow> notify_log_state \<Rightarrow> bool" where
  "notify_inv n st \<longleftrightarrow> finite (Mapping.keys (log_keys st)) \<and> Mapping.size (log_keys st) \<le> log_max_keys st \<and>
     finite (suppressed_prefixes st) \<and> card (suppressed_prefixes st) \<le> log_max_keys st"

lemma keys_filter_subset: "Mapping.keys (Mapping.filter P m) \<subseteq> Mapping.keys m"
  by (auto simp: lookup_keys_iff lookup_filter split: option.splits if_splits)

lemma record_suppressed_inv: "notify_inv n st \<Longrightarrow> notify_inv n (record_suppressed c p st)"
  by (auto simp: notify_inv_def record_suppressed_def Let_def card_insert_if split: notify_log_category.splits)

lemma expire_inv: "notify_inv n st \<Longrightarrow> notify_inv n (expire_old_keys now st)"
proof -
  assume inv: "notify_inv n st"
  let ?keys = "Mapping.keys (log_keys (expire_old_keys now st))"
  have sub: "?keys \<subseteq> Mapping.keys (log_keys st)" by (simp add: expire_old_keys_def keys_filter_subset)
  moreover from inv have fin: "finite (Mapping.keys (log_keys st))" by (simp add: notify_inv_def)
  ultimately have "finite ?keys" "card ?keys \<le> card (Mapping.keys (log_keys st))"
    by (auto intro: finite_subset card_mono)
  with inv fin show ?thesis by (simp add: notify_inv_def Mapping.size_def expire_old_keys_def)
qed

interpretation notify: limiter notify_step notify_inv
proof
  fix k st and e :: notify_event
  assume "notify_inv (Suc k) st"
  then have inv: "notify_inv k (expire_old_keys (nv_now e) st)" using expire_inv by (simp add: notify_inv_def)
  then show "notify_inv k (fst (notify_step st e))"
    using record_suppressed_inv [OF inv]
    by (auto simp: notify_step_def observe_def Let_def) (auto simp: notify_inv_def Mapping.size_def card_insert_if)
qed

section \<open>Runs of the rate limiter\<close>

definition event_key :: "rrl_state \<Rightarrow> rrl_event \<Rightarrow> rrl_key" where
  "event_key st e = rrl_key_new (ev_source e) (prefix_len st (ev_source e)) (ev_category e)"

definition same_config :: "rrl_state \<Rightarrow> rrl_state \<Rightarrow> bool" where
  "same_config st st' \<longleftrightarrow> rates st' = rates st \<and> slip st' = slip st \<and> max_keys st' = max_keys st \<and>
     ipv4_prefix_len st' = ipv4_prefix_len st \<and> ipv6_prefix_len st' = ipv6_prefix_len st"

lemma same_config_refl [simp]: "same_config st st"
  by (simp add: same_config_def)

lemma same_config_trans: "same_config a b \<Longrightarrow> same_config b c \<Longrightarrow> same_config a c"
  by (simp add: same_config_def)

lemma event_key_same: "same_config st st' \<Longrightarrow> event_key st' e = event_key st e"
  by (simp add: event_key_def prefix_len_def same_config_def split: ip_addr.splits)

lemma key_category_event [simp]: "key_category (event_key st e) = ev_category e"
  by (simp add: event_key_def rrl_key_new_def)

text \<open>One step of a run, in terms of the event's key.\<close>

lemma rrl_step_spec:
  assumes "rrl_budget (Suc n) s" and st: "st = fst s" "st' = fst (fst (rrl_step s e))"
    and key: "key = event_key st e" and rate: "rate = for_category (rates st) (ev_category e)"
    and acc: "acc = accounted (slip st) rate (ev_taken e) (bucket_of st key rate (ev_created e))"
  shows "snd (rrl_step s e) = snd acc" "Mapping.lookup (buckets st') key = Some (fst acc)"
    "lru st' = lru_touch (max_keys st) key (lru st)"
    "\<And>k. k \<noteq> key \<Longrightarrow> Mapping.lookup (buckets st') k =
       (if k \<in> set (lru st') then Mapping.lookup (buckets st) k else None)"
    "same_config st st'" "rrl_budget n (fst (rrl_step s e))"
proof -
  obtain mt' d where step: "rrl_step s e = ((st', mt'), d)" using st by (metis prod.collapse)
  have inv: "rrl_inv (fst s)" using assms(1) by (simp add: rrl_budget_def)
  note spec = decide_spec [OF inv refl refl step [unfolded rrl_step_decide]]
  show "snd (rrl_step s e) = snd acc" "Mapping.lookup (buckets st') key = Some (fst acc)"
    "lru st' = lru_touch (max_keys st) key (lru st)"
    using spec(1-3) step unfolding acc rate key event_key_def st(1) by simp_all
  show "Mapping.lookup (buckets st') k = (if k \<in> set (lru st') then Mapping.lookup (buckets st) k else None)"
    if "k \<noteq> key" for k
    using spec(4) [of k] that unfolding key event_key_def st(1) by simp
  show "same_config st st'" using spec(6-10) st(1) by (simp add: same_config_def)
  show "rrl_budget n (fst (rrl_step s e))" by (rule rrl.step_inv [OF assms(1)])
qed

lemma rrl_run_lru:
  assumes "rrl_budget (length es) s" "st' = fst (fst (run_steps rrl_step s es))"
  shows "lru st' = foldl (\<lambda>ks e. lru_touch (max_keys (fst s)) (event_key (fst s) e) ks) (lru (fst s)) es \<and>
    same_config (fst s) st'"
  using assms
proof (induction es arbitrary: s)
  case (Cons e es)
  note step = rrl_step_spec [where n = "length es" and s = s and e = e, OF _ refl refl refl refl refl]
  from Cons.prems(1) have b: "rrl_budget (Suc (length es)) s" by simp
  have "st' = fst (fst (run_steps rrl_step (fst (rrl_step s e)) es))"
    using Cons.prems(2) by (simp add: Let_def)
  note IH = Cons.IH [OF step(6) [OF b] this]
  have conf: "same_config (fst s) (fst (fst (rrl_step s e)))" by (rule step(5) [OF b])
  then have "max_keys (fst (fst (rrl_step s e))) = max_keys (fst s)" by (simp add: same_config_def)
  moreover have "event_key (fst (fst (rrl_step s e))) = event_key (fst s)" using event_key_same [OF conf] by blast
  ultimately show ?case using IH step(3) [OF b] same_config_trans [OF conf] by simp
qed simp

text \<open>Touching keys out of a small enough set never evicts.\<close>

lemma lru_touch_set:
  assumes "distinct ks" "set ks \<union> {key} \<subseteq> A" "finite A" "card A \<le> n"
  shows "set (lru_touch n key ks) = insert key (set ks)"
proof (cases "key \<in> set ks")
  case False
  then have "set ks \<subset> A" using assms(2) by blast
  then have "card (set ks) < card A" by (rule psubset_card_mono [OF assms(3)])
  then have "length ks < n" using distinct_card [OF assms(1)] assms(4) by simp
  with False show ?thesis by (auto simp: lru_touch_def)
qed (auto simp: lru_touch_def)

definition credit :: "u32 \<Rightarrow> instant \<Rightarrow> rrl_bucket option \<Rightarrow> instant \<Rightarrow> real" where
  "credit rate t0 b t1 =
     (case b of None \<Rightarrow> of_nat (unat rate) | Some b \<Rightarrow> tokens b) +
     of_nat (unat rate) * (of_nat (t1 - (case b of None \<Rightarrow> t0 | Some b \<Rightarrow> last_refill b)) / 1000000000)"

abbreviation event_times :: "rrl_event list \<Rightarrow> instant list" where
  "event_times es \<equiv> concat (map (\<lambda>e. [ev_created e, ev_taken e]) es)"

lemma accounted_sends:
  assumes wf: "bucket_wf rate b" and acc: "accounted s rate now b = (b', d)"
    and le: "last_refill b \<le> now" "now \<le> t1"
  shows "(if d = Send then 1 else 0) + credit rate t0 (Some b') t1 \<le>
      credit rate t0 (Some b) t1 + of_nat (unat rate) * rounding_slack" "last_refill b' \<le> now"
proof -
  obtain b1 sent where t: "take_token rate now b = (b1, sent)" by fastforce
  note bound = take_token_bound [OF wf t le(1)]
  have b': "tokens b' = tokens b1" "last_refill b' = last_refill b1" "d = Send \<longleftrightarrow> sent"
    using acc t by (auto simp: accounted_def Let_def split: if_splits)
  show "last_refill b' \<le> now" using bound(3) b'(2) by simp
  have "real (t1 - last_refill b) = real (last_refill b1 - last_refill b) + real (t1 - last_refill b1)"
    using bound(2,3) le(2) by (simp add: of_nat_diff)
  then have "of_nat (unat rate) * (real (t1 - last_refill b) / 1000000000) =
      of_nat (unat rate) * (real (last_refill b1 - last_refill b) / 1000000000) +
      of_nat (unat rate) * (real (t1 - last_refill b1) / 1000000000)" by (simp add: add_divide_distrib distrib_left)
  with bound(1) show "(if d = Send then 1 else 0) + credit rate t0 (Some b') t1 \<le>
      credit rate t0 (Some b) t1 + of_nat (unat rate) * rounding_slack"
    unfolding credit_def option.case b' by linarith
qed

lemma credit_untracked:
  "t0 \<le> c \<Longrightarrow> credit rate t0 (Some (bucket_new rate ord c)) t1 \<le> credit rate t0 None t1"
  by (simp add: credit_def bucket_new_def divide_right_mono mult_left_mono)

lemma credit_touch [simp]: "credit rate t0 (Some (touch ord b)) t1 = credit rate t0 (Some b) t1"
  "last_refill (touch ord b) = last_refill b"
  by (simp_all add: credit_def touch_def)

text \<open>The first half of the step bound: the bucket the event is charged to.\<close>

lemma bucket_of_credit:
  assumes "rrl_inv st" "rate = for_category (rates st) (key_category k)"
    and "\<And>b. Mapping.lookup (buckets st) k = Some b \<Longrightarrow> last_refill b \<le> t0" "t0 \<le> c"
  shows "bucket_wf rate (bucket_of st k rate c)" "last_refill (bucket_of st k rate c) \<le> c"
    "credit rate t0 (Some (bucket_of st k rate c)) t1 \<le> credit rate t0 (Mapping.lookup (buckets st) k) t1"
proof -
  have wf: "bucket_wf rate b" if "Mapping.lookup (buckets st) k = Some b" for b
    using that assms(1,2) by (simp add: rrl_inv_def)
  show "bucket_wf rate (bucket_of st k rate c)" using wf by (auto simp: bucket_of_def bucket_wf_new split: option.splits)
  show "last_refill (bucket_of st k rate c) \<le> c"
    using assms(3,4) by (auto simp: bucket_of_def bucket_new_def touch_def intro: le_trans split: option.splits)
  show "credit rate t0 (Some (bucket_of st k rate c)) t1 \<le> credit rate t0 (Mapping.lookup (buckets st) k) t1"
    using credit_untracked [OF assms(4)] by (auto simp: bucket_of_def split: option.splits)
qed

lemma credit_later: "t0 \<le> t \<Longrightarrow> credit rate t b t1 \<le> credit rate t0 b t1"
  by (auto simp: credit_def divide_right_mono mult_left_mono split: option.splits)

text \<open>One event: what it sends for a key is paid out of the key's credit.\<close>

lemma rrl_step_credit:
  assumes budget: "rrl_budget (Suc n) s" and st: "st = fst s" "s1 = fst (rrl_step s e)"
    and rate: "rate = for_category (rates st) (key_category k)"
    and A: "set (lru st) \<union> {event_key st e} \<subseteq> A" "finite A" "card A \<le> max_keys st"
    and refill: "\<And>b. Mapping.lookup (buckets st) k = Some b \<Longrightarrow> last_refill b \<le> t0"
    and t: "t0 \<le> ev_created e" "ev_created e \<le> ev_taken e" "ev_taken e \<le> t1"
  shows "(if event_key st e = k \<and> snd (rrl_step s e) = Send then 1 else 0) +
      credit rate (ev_taken e) (Mapping.lookup (buckets (fst s1)) k) t1 \<le>
      credit rate t0 (Mapping.lookup (buckets st) k) t1 +
      (if event_key st e = k then of_nat (unat rate) * rounding_slack else 0)" (is ?credit)
    "\<And>b. Mapping.lookup (buckets (fst s1)) k = Some b \<Longrightarrow> last_refill b \<le> ev_taken e"
    "set (lru (fst s1)) = insert (event_key st e) (set (lru st))"
proof -
  define r where "r = for_category (rates st) (ev_category e)"
  define acc where "acc = accounted (slip st) r (ev_taken e) (bucket_of st (event_key st e) r (ev_created e))"
  note step = rrl_step_spec [OF budget st(1) refl refl r_def acc_def, folded st(2)]
  have inv: "rrl_inv st" using budget by (simp add: rrl_budget_def st)
  have c: "consistent (buckets st) (recency st)" using inv by (simp add: rrl_inv_def)
  show lru1: "set (lru (fst s1)) = insert (event_key st e) (set (lru st))"
    unfolding step(3) by (rule lru_touch_set [OF consistent_lru(2) [OF c] A])
  have "?credit \<and> (\<forall>b. Mapping.lookup (buckets (fst s1)) k = Some b \<longrightarrow> last_refill b \<le> ev_taken e)"
  proof (cases "event_key st e = k")
    case False
    then have "Mapping.lookup (buckets (fst s1)) k = Mapping.lookup (buckets st) k"
      using step(4) [of k] lru1 consistent_lookup_lru [OF c, of k] by auto
    moreover have "credit rate (ev_taken e) b t1 \<le> credit rate t0 b t1" for b using t by (intro credit_later) simp
    ultimately show ?thesis using False refill t by force
  next
    case True
    have r: "r = rate" using rate True r_def by (metis key_category_event)
    note b = bucket_of_credit [OF inv rate refill t(1)]
    have "accounted (slip st) rate (ev_taken e) (bucket_of st k rate (ev_created e)) = (fst acc, snd acc)"
      using True r by (simp add: acc_def)
    note acc1 = accounted_sends [OF b(1) this le_trans [OF b(2) t(2)] t(3)]
    have "Mapping.lookup (buckets (fst s1)) k = Some (fst acc)" using step(2) True by simp
    moreover have "credit rate (ev_taken e) (Some (fst acc)) t1 = credit rate t0 (Some (fst acc)) t1"
      by (simp add: credit_def)
    ultimately show ?thesis using acc1(1) [of t0] acc1(2) b(3) [of t1] True step(1) by simp
  qed
  then show ?credit "\<And>b. Mapping.lookup (buckets (fst s1)) k = Some b \<Longrightarrow> last_refill b \<le> ev_taken e"
    by blast+
qed

text \<open>The events that lie between two instants, and the responses sent for a key on them.\<close>

abbreviation in_window :: "instant \<Rightarrow> instant \<Rightarrow> rrl_event \<Rightarrow> bool" where
  "in_window t0 t1 e \<equiv> t0 \<le> ev_created e \<and> ev_taken e \<le> t1"

definition asked_between :: "rrl_state \<Rightarrow> rrl_key \<Rightarrow> instant \<Rightarrow> instant \<Rightarrow> rrl_event list \<Rightarrow> nat" where
  "asked_between st k t0 t1 es = length (filter (\<lambda>e. event_key st e = k \<and> in_window t0 t1 e) es)"

definition sent_between :: "rrl_state \<Rightarrow> rrl_key \<Rightarrow> instant \<Rightarrow> instant \<Rightarrow> rrl_event list \<Rightarrow> rrl_disposition list \<Rightarrow> nat" where
  "sent_between st k t0 t1 es ds =
     length (filter (\<lambda>(e, d). event_key st e = k \<and> in_window t0 t1 e \<and> d = Send) (zip es ds))"

lemma sent_between_Cons:
  "sent_between st k t0 t1 (e # es) (d # ds) =
     (if event_key st e = k \<and> in_window t0 t1 e \<and> d = Send then 1 else 0) + sent_between st k t0 t1 es ds"
  "asked_between st k t0 t1 (e # es) = (if event_key st e = k \<and> in_window t0 t1 e then 1 else 0) + asked_between st k t0 t1 es"
  by (simp_all add: sent_between_def asked_between_def)

lemma sent_between_same:
  "same_config st st' \<Longrightarrow> sent_between st' k t0 t1 es ds = sent_between st k t0 t1 es ds"
  "same_config st st' \<Longrightarrow> asked_between st' k t0 t1 es = asked_between st k t0 t1 es"
  by (simp_all add: sent_between_def asked_between_def event_key_same)

lemma sent_between_after: "\<forall>e\<in>set es. t1 < ev_taken e \<Longrightarrow> sent_between st k t0 t1 es ds = 0"
  by (auto simp: sent_between_def filter_empty_conv dest!: set_zip_leftD)

lemma credit_nonneg:
  "rrl_inv st \<Longrightarrow> rate = for_category (rates st) (key_category k) \<Longrightarrow> 0 \<le> credit rate t0 (Mapping.lookup (buckets st) k) t1"
  by (auto simp: credit_def rrl_inv_def bucket_wf_def split: option.splits)

text \<open>What holds of a run's state and the events to come.\<close>

definition run_ok :: "rrl_key set \<Rightarrow> rrl_state \<times> rrl_metrics \<Rightarrow> instant \<Rightarrow> rrl_event list \<Rightarrow> bool" where
  "run_ok A s now es \<longleftrightarrow> rrl_budget (length es) s \<and> finite A \<and> card A \<le> max_keys (fst s) \<and>
     set (lru (fst s)) \<union> event_key (fst s) ` set es \<subseteq> A \<and> sorted (now # event_times es)"

lemma run_ok_step:
  assumes ok: "run_ok A s now (e # es)"
  shows "run_ok A (fst (rrl_step s e)) (ev_taken e) es" "same_config (fst s) (fst (fst (rrl_step s e)))"
    "now \<le> ev_created e" "ev_created e \<le> ev_taken e"
    "k \<noteq> event_key (fst s) e \<Longrightarrow>
       Mapping.lookup (buckets (fst (fst (rrl_step s e)))) k = Mapping.lookup (buckets (fst s)) k"
proof -
  have budget: "rrl_budget (Suc (length es)) s" using ok by (simp add: run_ok_def)
  note step = rrl_step_spec [OF budget refl refl refl refl refl]
  have c: "consistent (buckets (fst s)) (recency (fst s))" using budget by (simp add: rrl_budget_def rrl_inv_def)
  have lru1: "set (lru (fst (fst (rrl_step s e)))) = insert (event_key (fst s) e) (set (lru (fst s)))"
    unfolding step(3) using ok by (intro lru_touch_set [OF consistent_lru(2) [OF c], of _ A]) (auto simp: run_ok_def)
  show conf: "same_config (fst s) (fst (fst (rrl_step s e)))" by (rule step(5))
  show "now \<le> ev_created e" "ev_created e \<le> ev_taken e" using ok by (auto simp: run_ok_def)
  show "run_ok A (fst (rrl_step s e)) (ev_taken e) es"
    using ok step(6) lru1 conf event_key_same [OF conf] by (auto simp: run_ok_def same_config_def)
  show "Mapping.lookup (buckets (fst (fst (rrl_step s e)))) k = Mapping.lookup (buckets (fst s)) k"
    if "k \<noteq> event_key (fst s) e"
    using step(4) [OF that] lru1 consistent_lookup_lru [OF c, of k] that by auto
qed

lemma window_bound_tracked:
  assumes "run_ok A s now es" "rate = for_category (rates (fst s)) (key_category k)" "t0 \<le> now"
    and "\<And>b. Mapping.lookup (buckets (fst s)) k = Some b \<Longrightarrow> last_refill b \<le> now"
  shows "of_nat (sent_between (fst s) k t0 t1 es (snd (run_steps rrl_step s es))) \<le>
    credit rate now (Mapping.lookup (buckets (fst s)) k) t1 +
    of_nat (asked_between (fst s) k t0 t1 es) * (of_nat (unat rate) * rounding_slack)"
  using assms
proof (induction es arbitrary: s now)
  case Nil
  then show ?case using credit_nonneg [of "fst s" rate k now t1] by (simp add: sent_between_def asked_between_def run_ok_def rrl_budget_def)
next
  case (Cons e es)
  define st s1 where "st = fst s" and "s1 = fst (rrl_step s e)"
  note ok = run_ok_step [OF Cons.prems(1)]
  have budget: "rrl_budget (Suc (length es)) s" and inv: "rrl_inv st"
    using Cons.prems(1) by (simp_all add: run_ok_def rrl_budget_def st_def)
  show ?case
  proof (cases "ev_taken e \<le> t1")
    case True
    have "finite A" "card A \<le> max_keys st" "set (lru st) \<union> {event_key st e} \<subseteq> A"
      using Cons.prems(1) by (auto simp: run_ok_def st_def)
    note step = rrl_step_credit [OF budget st_def s1_def Cons.prems(2) [folded st_def] this(3,1,2)
        Cons.prems(4) [folded st_def] ok(3,4) True]
    have "rate = for_category (rates (fst s1)) (key_category k)"
      using Cons.prems(2) ok(2) by (simp add: same_config_def s1_def)
    note IH = Cons.IH [OF ok(1) [folded s1_def] this _ step(2)]
    have IH: "of_nat (sent_between st k t0 t1 es (snd (run_steps rrl_step s1 es))) \<le>
        credit rate (ev_taken e) (Mapping.lookup (buckets (fst s1)) k) t1 +
        of_nat (asked_between st k t0 t1 es) * (of_nat (unat rate) * rounding_slack)"
      using IH Cons.prems(3) ok(2-4) by (simp add: sent_between_same st_def s1_def)
    have "real (asked_between st k t0 t1 (e # es)) * (real (unat rate) * rounding_slack) =
        real (asked_between st k t0 t1 es) * (real (unat rate) * rounding_slack) +
        (if event_key st e = k then of_nat (unat rate) * rounding_slack else 0)"
      using True Cons.prems(3) ok(3) by (simp add: sent_between_Cons distrib_right)
    moreover have "real (sent_between st k t0 t1 (e # es) (snd (run_steps rrl_step s (e # es)))) =
        (if event_key st e = k \<and> snd (rrl_step s e) = Send then 1 else 0) + real (sent_between st k t0 t1 es (snd (run_steps rrl_step s1 es)))"
      using True Cons.prems(3) ok(3) by (simp add: Let_def sent_between_Cons s1_def)
    ultimately show ?thesis using IH step(1) unfolding st_def [symmetric] by linarith
  next
    case False
    then have "\<forall>e'\<in>set (e # es). t1 < ev_taken e'"
      using Cons.prems(1) by (force simp: run_ok_def)
    then have "sent_between st k t0 t1 (e # es) (snd (run_steps rrl_step s (e # es))) = 0" by (rule sent_between_after)
    moreover have "0 \<le> credit rate now (Mapping.lookup (buckets st) k) t1"
      using inv Cons.prems(2) by (intro credit_nonneg) (simp_all add: st_def)
    ultimately show ?thesis unfolding st_def [symmetric] by simp
  qed
qed

text \<open>Whatever a bucket held before, a refill caps it at the rate.\<close>

lemma accounted_cap:
  assumes wf: "bucket_wf rate b" and acc: "accounted s rate now b = (b', d)" and t: "t0 \<le> now" "now \<le> t1"
  shows "(if d = Send then 1 else 0) + credit rate now (Some b') t1 \<le> credit rate t0 None t1" "last_refill b' \<le> max now (last_refill b)"
proof -
  define r where "r = real (unat rate)"
  obtain a where a: "a \<le> r" "tokens b' = (if d = Send then a - 1 else a)"
    "last_refill b' = (if rate = 0 then last_refill b else now)"
    using accounted_level [OF wf acc] unfolding r_def by blast
  have "r * (real (t1 - last_refill b') / 1000000000) \<le> r * (real (t1 - t0) / 1000000000)"
  proof (cases "rate = 0")
    case False
    then have "real (t1 - last_refill b') \<le> real (t1 - t0)" using a(3) t by simp
    then show ?thesis by (intro mult_left_mono divide_right_mono) (simp_all add: r_def)
  qed (simp add: r_def)
  then show "(if d = Send then 1 else 0) + credit rate now (Some b') t1 \<le> credit rate t0 None t1"
    using a(1,2) by (auto simp: credit_def r_def)
  show "last_refill b' \<le> max now (last_refill b)" using a(3) by simp
qed

lemma run_ok_refill:
  assumes ok: "run_ok A s now (e # es)"
    and refill: "\<And>b. Mapping.lookup (buckets (fst s)) k = Some b \<Longrightarrow> last_refill b \<le> now"
    and b: "Mapping.lookup (buckets (fst (fst (rrl_step s e)))) k = Some b"
  shows "last_refill b \<le> ev_taken e"
proof (cases "event_key (fst s) e = k")
  case True
  define st where "st = fst s"
  define r where "r = for_category (rates st) (key_category k)"
  note step = run_ok_step [OF ok]
  have budget: "rrl_budget (Suc (length es)) s" and inv: "rrl_inv st"
    using ok by (simp_all add: run_ok_def rrl_budget_def st_def)
  have cat: "ev_category e = key_category k" using True by (metis key_category_event)
  note b0 = bucket_of_credit(1,2) [OF inv r_def refill [folded st_def] step(3)]
  have "accounted (slip st) r (ev_taken e) (bucket_of st k r (ev_created e)) =
      (b, snd (accounted (slip st) r (ev_taken e) (bucket_of st k r (ev_created e))))"
    using rrl_step_spec(2) [OF budget refl refl refl refl refl, of e] b True cat
    by (simp add: st_def r_def prod_eq_iff)
  note accounted_sends(2) [OF b0(1) this le_trans [OF b0(2) step(4)] order_refl]
  then show ?thesis .
next
  case False
  then have "last_refill b \<le> now" using b run_ok_step(5) [OF ok] refill by simp
  then show ?thesis using run_ok_step(3,4) [OF ok] by simp
qed

lemma window_bound:
  assumes "run_ok A s now es" "rate = for_category (rates (fst s)) (key_category k)"
    and "\<And>b. Mapping.lookup (buckets (fst s)) k = Some b \<Longrightarrow> last_refill b \<le> now"
  shows "of_nat (sent_between (fst s) k t0 t1 es (snd (run_steps rrl_step s es))) \<le>
    credit rate t0 None t1 + of_nat (asked_between (fst s) k t0 t1 es) * (of_nat (unat rate) * rounding_slack)"
  using assms
proof (induction es arbitrary: s now)
  case Nil
  then show ?case by (simp add: sent_between_def asked_between_def credit_def)
next
  case (Cons e es)
  define st s1 where "st = fst s" and "s1 = fst (rrl_step s e)"
  note ok = run_ok_step [OF Cons.prems(1)]
  have budget: "rrl_budget (Suc (length es)) s" and inv: "rrl_inv st"
    using Cons.prems(1) by (simp_all add: run_ok_def rrl_budget_def st_def)
  have rate: "rate = for_category (rates (fst s1)) (key_category k)"
    using Cons.prems(2) ok(2) by (simp add: same_config_def s1_def)
  have counts: "real (sent_between st k t0 t1 (e # es) (snd (run_steps rrl_step s (e # es)))) =
      (if event_key st e = k \<and> in_window t0 t1 e \<and> snd (rrl_step s e) = Send then 1 else 0) +
      real (sent_between st k t0 t1 es (snd (run_steps rrl_step s1 es)))"
    by (simp add: Let_def sent_between_Cons s1_def)
  have slack: "0 \<le> real (unat rate) * rounding_slack" by simp
  have refill: "last_refill b \<le> ev_taken e" if "Mapping.lookup (buckets (fst s1)) k = Some b" for b
    using run_ok_refill [OF Cons.prems(1), of k b] Cons.prems(3) that by (simp add: s1_def)
  show ?case
  proof (cases "event_key st e = k \<and> in_window t0 t1 e")
    case False
    then show ?thesis
      using Cons.IH [OF ok(1) [folded s1_def] rate refill] counts ok(2) sent_between_Cons(2) [of st k t0 t1 e es]
      by (auto simp: sent_between_same st_def [symmetric] s1_def [symmetric])
  next
    case True
    define acc where "acc = accounted (slip st) rate (ev_taken e) (bucket_of st k rate (ev_created e))"
    have r: "rate = for_category (rates st) (ev_category e)"
      using Cons.prems(2) True key_category_event [of st e] by (simp add: st_def)
    note step = rrl_step_spec(1,2) [OF budget refl refl refl refl refl, of e]
    have now: "snd (rrl_step s e) = snd acc" "Mapping.lookup (buckets (fst s1)) k = Some (fst acc)"
      using step True r by (simp_all add: acc_def st_def s1_def)
    have wf: "bucket_wf rate (bucket_of st k rate (ev_created e))"
      using bucket_of_credit(1) [OF inv _ Cons.prems(3) [folded st_def] ok(3)] Cons.prems(2) by (simp add: st_def)
    have "t0 \<le> ev_taken e" "ev_taken e \<le> t1" using True ok(4) by simp_all
    note cap = accounted_cap(1) [OF wf, of "slip st" "ev_taken e" "fst acc" "snd acc" t0 t1, OF _ this]
    have "of_nat (sent_between (fst s1) k t0 t1 es (snd (run_steps rrl_step s1 es))) \<le>
        credit rate (ev_taken e) (Some (fst acc)) t1 + of_nat (asked_between (fst s1) k t0 t1 es) * (of_nat (unat rate) * rounding_slack)"
      using window_bound_tracked [OF ok(1) [folded s1_def] rate \<open>t0 \<le> ev_taken e\<close> refill, of t1] now(2) by simp
    then have "real (sent_between st k t0 t1 (e # es) (snd (run_steps rrl_step s (e # es)))) \<le>
        credit rate t0 None t1 + of_nat (asked_between st k t0 t1 es) * (of_nat (unat rate) * rounding_slack)"
      using cap counts now True ok(2) by (simp add: acc_def sent_between_same st_def s1_def)
    moreover have "real (asked_between st k t0 t1 (e # es)) * (real (unat rate) * rounding_slack) =
        real (unat rate) * rounding_slack + real (asked_between st k t0 t1 es) * (real (unat rate) * rounding_slack)"
      using True by (simp add: sent_between_Cons distrib_right)
    ultimately show ?thesis using slack unfolding st_def [symmetric] by linarith
  qed
qed

section \<open>Runs of the NOTIFY log limiter\<close>

lemma run_steps_snoc: "fst (run_steps step s (es @ [e])) = fst (step (fst (run_steps step s es)) e)"
  by (induction es arbitrary: s) (simp_all add: Let_def)

lemma notify_step_emit:
  assumes "notify_step st e = (st', Emit)"
  shows "Mapping.lookup (log_keys st') (notify_key e) = Some (nv_now e)" "window st' = window st"
  using assms by (auto simp: notify_step_def observe_def notify_key_def Let_def lookup_update expire_old_keys_def split: if_splits)

lemma log_keys_record_suppressed [simp]:
  "log_keys (record_suppressed c p st) = log_keys st" "window (record_suppressed c p st) = window st"
  by (simp_all add: record_suppressed_def Let_def split: notify_log_category.splits)

lemma notify_step_window: "window (fst (notify_step st e)) = window st"
  by (simp add: notify_step_def observe_def Let_def expire_old_keys_def)

text \<open>A key seen less than a window ago is still there: its events are suppressed.\<close>

lemma notify_step_recent:
  assumes "Mapping.lookup (log_keys st) k = Some t" "nv_now e - t < window st"
  shows "Mapping.lookup (log_keys (fst (notify_step st e))) k = Some t"
    "notify_key e = k \<Longrightarrow> snd (notify_step st e) = Suppress"
proof -
  have keep: "Mapping.lookup (log_keys (expire_old_keys (nv_now e) st)) k = Some t"
    using assms by (simp add: expire_old_keys_def lookup_filter)
  then show "Mapping.lookup (log_keys (fst (notify_step st e))) k = Some t"
    by (auto simp: notify_step_def observe_def Let_def lookup_update')
  show "snd (notify_step st e) = Suppress" if "notify_key e = k"
    using keep that by (auto simp: notify_step_def observe_def notify_key_def Let_def)
qed

lemma notify_run_window: "window (fst (run_steps notify_step st es)) = window st"
  by (induction es arbitrary: st) (simp_all add: Let_def notify_step_window)

lemma notify_run_recent:
  assumes "Mapping.lookup (log_keys st) k = Some t" "\<forall>e \<in> set es. nv_now e - t < window st"
  shows "Mapping.lookup (log_keys (fst (run_steps notify_step st es))) k = Some t"
  using assms
proof (induction es arbitrary: st)
  case (Cons e es)
  then have "Mapping.lookup (log_keys (fst (notify_step st e))) k = Some t"
    by (intro notify_step_recent(1)) simp_all
  with Cons show ?case by (simp add: Let_def notify_step_window)
qed simp

lemma run_steps_append_fst:
  "fst (run_steps step s (es @ fs)) = fst (run_steps step (fst (run_steps step s es)) fs)"
  by (induction es arbitrary: s) (simp_all add: Let_def)

lemma notify_spacing:
  assumes "sorted (map nv_now es)" "i < j" "j < length es" "notify_key (es ! i) = notify_key (es ! j)"
    and "snd (run_steps notify_step st es) ! i = Emit" "snd (run_steps notify_step st es) ! j = Emit"
  shows "nv_now (es ! i) + window st \<le> nv_now (es ! j)"
proof (rule ccontr)
  assume early: "\<not> ?thesis"
  let ?at = "\<lambda>n. fst (run_steps notify_step st (take n es))"
  let ?mid = "take (j - Suc i) (drop (Suc i) es)"
  have "snd (notify_step (?at i) (es ! i)) = Emit" using notify.nth_step [of i es st] assms(2,3,5) by simp
  then obtain st1 where st1: "notify_step (?at i) (es ! i) = (st1, Emit)" by (metis prod.collapse)
  have at_i: "?at (Suc i) = st1" using assms(2,3) st1 by (simp add: take_Suc_conv_app_nth run_steps_snoc)
  have "take j es = take (Suc i) es @ ?mid" using assms(2) by (metis Suc_leI add_diff_cancel_left' le_Suc_ex take_add)
  then have at_j: "?at j = fst (run_steps notify_step st1 ?mid)" using at_i by (simp add: run_steps_append_fst)
  have w: "window st1 = window st" using notify_step_emit(2) [OF st1] by (simp add: notify_run_window)
  have "nv_now e \<le> nv_now (es ! j)" if e: "e \<in> set ?mid" for e
  proof -
    from e obtain m where m: "m < j - Suc i" "e = es ! (Suc i + m)" using assms(2,3) by (auto simp: in_set_conv_nth)
    then show ?thesis using sorted_nth_mono [OF assms(1), of "Suc i + m" j] assms(3) by simp
  qed
  moreover have "nv_now (es ! i) \<le> nv_now (es ! j)" using sorted_nth_mono [OF assms(1), of i j] assms(2,3) by simp
  ultimately have recent: "nv_now e - nv_now (es ! i) < window st1" if "e \<in> insert (es ! j) (set ?mid)" for e
    using that early w by fastforce
  have "Mapping.lookup (log_keys (?at j)) (notify_key (es ! i)) = Some (nv_now (es ! i))"
    unfolding at_j using notify_step_emit(1) [OF st1] recent by (intro notify_run_recent) simp_all
  then have "snd (notify_step (?at j) (es ! j)) = Suppress"
    using recent [of "es ! j"] assms(4) w by (intro notify_step_recent(2)) (simp_all add: notify_run_window)
  then show False using notify.nth_step [of j es st] assms(3,6) by simp
qed

lemma log_max_keys_step: "log_max_keys (fst (notify_step st e)) = log_max_keys st"
  by (simp add: notify_step_def observe_def record_suppressed_def expire_old_keys_def Let_def
      split: notify_log_category.splits)

lemma log_max_keys_run: "log_max_keys (fst (run_steps notify_step st es)) = log_max_keys st"
  by (induction es arbitrary: st) (simp_all add: Let_def log_max_keys_step)

lemma rrl_budget_init: "length es < 2 ^ 128 \<Longrightarrow> rrl_budget (length es) (rrl_state_from_config config, mt)"
  by (simp add: rrl_budget_def rrl_inv_init) (simp add: rrl_state_from_config_def)

lemma lru_init: "lru (rrl_state_from_config config) = []"
  by (simp add: rrl_state_from_config_def lru_of_def Mapping.ordered_keys_def)

abbreviation sample_config :: "u32 \<Rightarrow> u32 \<Rightarrow> nat \<Rightarrow> rrl_config" where
  "sample_config p s n \<equiv> \<lparr> cfg_enabled = True, cfg_ipv4_prefix_len = 24, cfg_ipv6_prefix_len = 56,
     cfg_rates = \<lparr> positive_rate = p, nxdomain_rate = 5, nodata_rate = 5, referral_rate = 5, error_rate = 5 \<rparr>,
     cfg_slip = s, cfg_max_keys = n \<rparr>"

abbreviation zero_metrics :: rrl_metrics where
  "zero_metrics \<equiv> \<lparr> rrl_subject = 0, rrl_dropped = 0, rrl_truncated = 0, rrl_tracked_keys = 0, rrl_key_evictions = 0 \<rparr>"

section \<open>Properties\<close>

text \<open>
  C25: accounting prefixes name networks.  Two sources share an accounting prefix exactly when
  they are of one address family and agree on the configured number of leading bits, and those
  are the addresses an allow-list entry with that network and length contains.
\<close>

theorem prefix_identifies_network:
  "(ip_prefix_new a len = ip_prefix_new b len \<longleftrightarrow> same_network len a b) \<and>
   (prefix_contains (ip_prefix_new a len) b \<longleftrightarrow> same_network len a b)"
  by (simp add: prefix_new_eq_iff prefix_contains_new_iff)

text \<open>
  C26: the limiter's tables stay bounded and in step.  Whatever fewer than \<open>2\<^sup>1\<^sup>2\<^sup>8\<close> decisions are
  made, the bucket table and the recency table describe the same keys, no more than the
  configured maximum (at least one), and every bucket holds between zero and its rate's tokens.
\<close>

theorem rrl_tables_bounded:
  assumes "length es < 2 ^ 128"
    and "st = fst (fst (run_steps rrl_step (rrl_state_from_config config, mt) es))"
  shows "consistent (buckets st) (recency st) \<and> Mapping.size (buckets st) \<le> max 1 (cfg_max_keys config) \<and>
    (\<forall>k b. Mapping.lookup (buckets st) k = Some b \<longrightarrow>
       0 \<le> tokens b \<and> tokens b \<le> of_nat (unat (for_category (cfg_rates config) (key_category k))))"
proof -
  have b: "rrl_budget (length es + 0) (rrl_state_from_config config, mt)" using rrl_budget_init [OF assms(1)] by simp
  have inv: "rrl_inv st" using rrl.run_inv [OF b] assms(2) by (simp add: rrl_budget_def)
  have "same_config (rrl_state_from_config config) st"
    using rrl_run_lru [OF rrl_budget_init [OF assms(1)], of st config mt] assms(2) by simp
  then have "rates st = cfg_rates config" "max_keys st = cfg_max_keys config"
    by (simp_all add: same_config_def rrl_state_from_config_def)
  then show ?thesis using inv consistent_lru(3) [of "buckets st" "recency st"]
    by (auto simp: rrl_inv_def bucket_wf_def)
qed

theorem rrl_tables_bounded_witness:
  "Mapping.size (buckets (fst (fst (run_steps rrl_step (rrl_state_from_config (sample_config 5 2 1), zero_metrics)
     [\<lparr> ev_source = V4 1, ev_category = Positive, ev_created = 3, ev_taken = 4 \<rparr>,
      \<lparr> ev_source = V4 (- 1), ev_category = Error, ev_created = 5, ev_taken = 5 \<rparr>])))) \<le> 1"
  using rrl_tables_bounded [of "[\<lparr> ev_source = V4 1, ev_category = Positive, ev_created = 3, ev_taken = 4 \<rparr>,
      \<lparr> ev_source = V4 (- 1), ev_category = Error, ev_created = 5, ev_taken = 5 \<rparr>]", OF _ refl,
      of "sample_config 5 2 1" zero_metrics]
  by (simp del: run_steps.simps)

text \<open>
  C27: the pair of tables is a least-recently-used queue.  After any run the keys ordered by
  their recency numbers are those of a queue in which each event moves its key to the back,
  dropping the front key only when the key is new and the queue is full.
\<close>

theorem rrl_tables_refine_lru_queue:
  assumes "length es < 2 ^ 128" "st0 = rrl_state_from_config config"
  shows "lru (fst (fst (run_steps rrl_step (st0, mt) es))) =
    foldl (\<lambda>ks e. lru_touch (cfg_max_keys config) (event_key st0 e) ks) [] es"
proof -
  have "max_keys st0 = cfg_max_keys config" by (simp add: assms(2) rrl_state_from_config_def)
  then show ?thesis
    using rrl_run_lru [OF rrl_budget_init [OF assms(1)] refl, of config mt] lru_init [of config] assms(2) by simp
qed

theorem rrl_tables_refine_lru_queue_witness:
  "let ev = (\<lambda>c. \<lparr> ev_source = V4 0, ev_category = c, ev_created = 3, ev_taken = 4 \<rparr>)
   in map key_category (lru (fst (fst (run_steps rrl_step (rrl_state_from_config (sample_config 5 2 2), zero_metrics)
        [ev Positive, ev NoData, ev Positive, ev Error])))) = [Positive, Error]"
  unfolding Let_def
  by (subst rrl_tables_refine_lru_queue [OF _ refl])
    (simp_all add: lru_touch_def event_key_def rrl_key_new_def)

text \<open>
  C28: a decision charges one bucket.  Let the key hold \<open>held\<close> tokens since the instant \<open>since\<close>
  after \<open>refused\<close> refusals (a key not tracked starts with as many tokens as its rate).  The tokens
  available are the held ones plus the rate for each second passed, at most the rate, up to
  \<open>5 / 2\<^sup>5\<^sup>3\<close> of the rate for the rounding of \<open>f64\<close>.  The response is sent exactly when a whole
  token is available, and that token is spent; a refusal spends none and is counted, and it is
  slipped exactly when the slip value is positive and divides that count, and dropped otherwise.
  Every other key still tracked keeps its bucket, and each metric counts its own outcome.
\<close>

theorem rrl_decision_exact:
  assumes "rrl_inv st" "key = rrl_key_new source (prefix_len st source) category"
    and "rate = for_category (rates st) category"
    and "decide st mt source category created taken = (st', mt', d)"
    and "(held, since, refused) = (case Mapping.lookup (buckets st) key of
           None \<Rightarrow> (of_nat (unat rate), created, 0) | Some b \<Rightarrow> (tokens b, last_refill b, limited_count b))"
  shows "(\<exists>available b. Mapping.lookup (buckets st') key = Some b \<and>
      \<bar>available - min (held + of_nat (unat rate) * (of_nat (taken - since) / 1000000000)) (of_nat (unat rate))\<bar>
        \<le> of_nat (unat rate) * (5 / 2 ^ 53) \<and>
      (d = Send \<longleftrightarrow> 1 \<le> available) \<and> tokens b = (if d = Send then available - 1 else available) \<and>
      last_refill b = (if rate = 0 then since else taken) \<and>
      unat (limited_count b) = (if d = Send then unat refused else min (unat refused + 1) (2 ^ 64 - 1)) \<and>
      (d = Slip \<longleftrightarrow> d \<noteq> Send \<and> 0 < slip st \<and> unat (slip st) dvd unat (limited_count b))) \<and>
    (\<forall>k. k \<noteq> key \<longrightarrow> k \<in> set (lru st') \<longrightarrow> Mapping.lookup (buckets st') k = Mapping.lookup (buckets st) k) \<and>
    rrl_subject mt' = rrl_subject mt + 1 \<and>
    rrl_dropped mt' = rrl_dropped mt + (if d = Drop then 1 else 0) \<and>
    rrl_truncated mt' = rrl_truncated mt + (if d = Slip then 1 else 0)"
proof -
  let ?b = "bucket_of st key rate created"
  have b: "tokens ?b = held" "last_refill ?b = since" "limited_count ?b = refused"
    using assms(5) by (auto simp: bucket_of_def bucket_new_def touch_def split: option.splits)
  have "key_category key = category" by (simp add: assms(2) rrl_key_new_def)
  then have wf: "bucket_wf rate ?b"
    using assms(1,3) by (auto simp: bucket_of_def bucket_wf_new rrl_inv_def split: option.splits)
  obtain b' d' where acc: "accounted (slip st) rate taken ?b = (b', d')" by fastforce
  then have "d' = d" "Mapping.lookup (buckets st') key = Some b'" using decide_spec(1,2) [OF assms(1-4)] by simp_all
  moreover note accounted_level [OF wf acc, unfolded b]
  moreover have "\<forall>k. k \<noteq> key \<longrightarrow> k \<in> set (lru st') \<longrightarrow> Mapping.lookup (buckets st') k = Mapping.lookup (buckets st) k"
    using decide_spec(4) [OF assms(1-4)] by simp
  ultimately show ?thesis using decide_counters [OF assms(4)] by blast
qed

theorem rrl_decision_exact_witness:
  "snd (snd (decide (rrl_state_from_config (sample_config 0 1 2)) zero_metrics (V4 1) Positive 0 0)) = Slip"
proof -
  let ?st = "rrl_state_from_config (sample_config 0 1 2)"
  obtain st' mt' d where d: "decide ?st zero_metrics (V4 1) Positive 0 0 = (st', mt', d)"
    by (metis prod_cases3)
  have "(0, 0, 0) = (case Mapping.lookup (buckets ?st) (rrl_key_new (V4 1) (prefix_len ?st (V4 1)) Positive) of
           None \<Rightarrow> (real (unat (for_category (rates ?st) Positive)), 0 :: instant, 0 :: u64)
         | Some b \<Rightarrow> (tokens b, last_refill b, limited_count b))"
    by (simp add: rrl_state_from_config_def)
  from rrl_decision_exact [OF rrl_inv_init refl refl d this]
  have "d = Slip" by (auto simp: rrl_state_from_config_def)
  then show ?thesis using d by simp
qed

text \<open>
  C29: the configured rate is a rate.  In any run of a fresh limiter with a clock that does not go
  back, as long as the keys seen fit the table, and for any two instants of that run: the responses
  sent for one key to the events between them number at most the key's rate times one plus
  the seconds between them, plus, for the rounding of \<open>f64\<close> arithmetic, \<open>5 / 2\<^sup>5\<^sup>3\<close> of the rate
  for each response asked for between them.  What the key used or left unused before the first
  instant never raises this bound.
\<close>

theorem rrl_rate_is_respected:
  assumes "length es < 2 ^ 128" "st0 = rrl_state_from_config config"
    and "card (event_key st0 ` set es) \<le> cfg_max_keys config" "sorted (event_times es)"
  shows "real (sent_between st0 k t0 t1 es (snd (run_steps rrl_step (st0, mt) es))) \<le>
    of_nat (unat (for_category (cfg_rates config) (key_category k))) *
      (1 + of_nat (t1 - t0) / 1000000000 + of_nat (asked_between st0 k t0 t1 es) * (5 / 2 ^ 53))"
proof -
  define rate where "rate = for_category (cfg_rates config) (key_category k)"
  have st0: "rates st0 = cfg_rates config" "max_keys st0 = cfg_max_keys config" "Mapping.lookup (buckets st0) k = None"
    by (simp_all add: assms(2) rrl_state_from_config_def)
  have "run_ok (event_key st0 ` set es) (st0, mt) 0 es"
    using rrl_budget_init [OF assms(1)] assms(2-4) st0(2) lru_init [of config] by (simp add: run_ok_def)
  from window_bound [OF this, of rate k t0 t1]
  have "real (sent_between st0 k t0 t1 es (snd (run_steps rrl_step (st0, mt) es))) \<le>
      credit rate t0 None t1 + of_nat (asked_between st0 k t0 t1 es) * (of_nat (unat rate) * rounding_slack)"
    using st0 by (simp add: rate_def)
  also have "\<dots> = of_nat (unat rate) * (1 + of_nat (t1 - t0) / 1000000000 + of_nat (asked_between st0 k t0 t1 es) * rounding_slack)"
    unfolding credit_def option.case distrib_left mult_1_right by (simp only: mult.left_commute)
  finally show ?thesis by (simp only: rate_def)
qed

theorem rrl_rate_is_respected_witness:
  "let ev = (\<lambda>n. \<lparr> ev_source = V4 0, ev_category = Positive, ev_created = n, ev_taken = n \<rparr>);
       st0 = rrl_state_from_config (sample_config 1 2 2); es = [ev 4, ev 3000000000, ev 3000000000]
   in real (sent_between st0 (event_key st0 (ev 0)) 3000000000 3000000000 es (snd (run_steps rrl_step (st0, zero_metrics) es))) < 2"
proof -
  let ?ev = "\<lambda>n. \<lparr> ev_source = V4 0, ev_category = Positive, ev_created = n, ev_taken = n \<rparr>"
  let ?st0 = "rrl_state_from_config (sample_config 1 2 2)"
  show ?thesis
    using rrl_rate_is_respected [of "[?ev 4, ?ev 3000000000, ?ev 3000000000]", OF _ refl, of "sample_config 1 2 2"
        "event_key ?st0 (?ev 0)" 3000000000 3000000000 zero_metrics]
    by (simp add: Let_def event_key_def rrl_key_new_def asked_between_def del: run_steps.simps)
qed

text \<open>
  C30: a NOTIFY log line is not repeated within the window.  In any run with a clock that does
  not go back, two events of one prefix, zone and category that are both logged lie at least a
  window apart.
\<close>

theorem notify_log_not_repeated:
  assumes "sorted (map nv_now es)" "i < j" "j < length es" "notify_key (es ! i) = notify_key (es ! j)"
    and "snd (run_steps notify_step st es) ! i = Emit" "snd (run_steps notify_step st es) ! j = Emit"
  shows "nv_now (es ! i) + window st \<le> nv_now (es ! j)"
  by (rule notify_spacing [OF assms])

theorem notify_log_not_repeated_witness:
  "let e = \<lparr> nv_category = Unauthorized, nv_source = V4 0, nv_zone = [], nv_now = 0 \<rparr>;
       es = [e, e \<lparr> nv_now := 5 \<rparr>, e \<lparr> nv_now := 10 \<rparr>]; st = notify_log_state_new 10 4
   in snd (run_steps notify_step st es) = [Emit, Suppress, Emit] \<and> nv_now (es ! 0) + window st \<le> nv_now (es ! 2)"
proof -
  let ?e = "\<lparr> nv_category = Unauthorized, nv_source = V4 0, nv_zone = [], nv_now = 0 \<rparr>"
  let ?es = "[?e, ?e \<lparr> nv_now := 5 \<rparr>, ?e \<lparr> nv_now := 10 \<rparr>]"
  have "snd (run_steps notify_step (notify_log_state_new 10 4) ?es) = [Emit, Suppress, Emit]" by code_simp
  with notify_log_not_repeated [of ?es 0 2 "notify_log_state_new 10 4"] show ?thesis
    by (simp add: Let_def notify_key_def del: run_steps.simps)
qed

text \<open>
  C31: the NOTIFY log limiter stays bounded: after any run, from a limiter made for \<open>n\<close> keys, it
  holds at most \<open>n\<close> keys (one when \<open>n\<close> is zero), and its set of suppressed prefixes is finite and as
  bounded.
\<close>

theorem notify_log_bounded:
  "let st = fst (run_steps notify_step (notify_log_state_new w n) es)
   in Mapping.size (log_keys st) \<le> max n 1 \<and>
      finite (suppressed_prefixes st) \<and> card (suppressed_prefixes st) \<le> max n 1"
proof -
  have "notify_inv (length es + 0) (notify_log_state_new w n)"
    by (simp add: notify_inv_def notify_log_state_new_def Mapping.size_def)
  moreover have "log_max_keys (fst (run_steps notify_step (notify_log_state_new w n) es)) = max n 1"
    by (simp add: log_max_keys_run) (simp add: notify_log_state_new_def)
  ultimately show ?thesis using notify.run_inv [of es 0 "notify_log_state_new w n"] by (simp add: notify_inv_def Let_def)
qed

end
