(* ===== verification/Cookie_Store.thy ===== *)
theory Cookie_Store
  imports Rate_Limit
begin

text \<open>
  The DNS Cookie secret store and settings, \<open>crates/borondns-server/src/dns_cookie.rs\<close>.  The
  store is shared by all worker threads: readers load an immutable snapshot, and a reader that
  finds a rotation due takes the rotation lock, looks again and publishes a new snapshot.  The
  method is modelled as a function and, for the interleavings of its callers, as a step relation
  with one step for each access to the shared snapshot and the lock.  The secret generator is the
  operating system's; its result is an argument.
\<close>

section \<open>Settings\<close>

datatype cookie_policy_config = PolicyDisabled | PolicyLenient | PolicyStrict

record cookie_config =
  cfg_policy :: cookie_policy_config
  timestamp_past_tolerance_seconds :: u32
  timestamp_future_tolerance_seconds :: u32
  secret_rotation_interval_secs :: u64

record dns_cookie_runtime_settings =
  set_policy :: "dns_cookie_policy option"
  set_past_window_secs :: u32
  set_future_window_secs :: u32
  secret_rotation_interval :: "nat option"

definition dns_cookie_settings :: "cookie_config \<Rightarrow> dns_cookie_runtime_settings" where
  "dns_cookie_settings config =
     \<lparr> set_policy = (case cfg_policy config of
          PolicyDisabled \<Rightarrow> None | PolicyLenient \<Rightarrow> Some Lenient | PolicyStrict \<Rightarrow> Some Strict),
       set_past_window_secs = timestamp_past_tolerance_seconds config,
       set_future_window_secs = timestamp_future_tolerance_seconds config,
       secret_rotation_interval =
         (if 0 < secret_rotation_interval_secs config
          then Some (unat (secret_rotation_interval_secs config) * 1000000000) else None) \<rparr>"

record dns_cookie_secrets =
  secret_current :: bytes
  secret_previous :: "bytes option"

definition dns_cookie_context_of ::
  "ip_addr \<Rightarrow> dns_cookie_secrets \<Rightarrow> dns_cookie_runtime_settings \<Rightarrow> u32 \<Rightarrow> dns_cookie_context option" where
  "dns_cookie_context_of peer_ip secrets settings now =
     (let context = cookie_context_new peer_ip (secret_current secrets) now;
          context = context \<lparr> previous_server_secret := secret_previous secrets \<rparr>
      in case set_policy settings of
           None \<Rightarrow> None
         | Some p \<Rightarrow> Some (context \<lparr> policy := p, past_window_secs := set_past_window_secs settings,
                                   future_window_secs := set_future_window_secs settings \<rparr>))"

record cookie_prefix_metric_settings =
  metric_ipv4_prefix_len :: u8
  metric_ipv6_prefix_len :: u8

definition cookie_metric_prefix :: "ip_addr \<Rightarrow> cookie_prefix_metric_settings \<Rightarrow> ip_prefix" where
  "cookie_metric_prefix source settings =
     ip_prefix_new source (case source of V4 _ \<Rightarrow> metric_ipv4_prefix_len settings
                                        | V6 _ \<Rightarrow> metric_ipv6_prefix_len settings)"

definition hex_digit :: "u8 \<Rightarrow> u8" where
  "hex_digit n = (if n < 10 then 0x30 + n else 0x61 + (n - 10))"

definition lower_hex :: "bytes \<Rightarrow> bytes" where
  "lower_hex bs = concat (map (\<lambda>b. [hex_digit (drop_bit 4 b), hex_digit (b AND 0x0f)]) bs)"

definition dns_cookie_secret_fingerprint :: "(bytes \<Rightarrow> bytes) \<Rightarrow> bytes \<Rightarrow> bytes" where
  "dns_cookie_secret_fingerprint sha256 secret = lower_hex (take 8 (sha256 secret))"

section \<open>The secret store\<close>

record secret_state =
  state_current :: bytes
  state_previous :: "bytes option"
  generated_at :: instant

record secret_store =
  store_state :: secret_state
  rotation_interval :: "nat option"

definition store_new_at :: "bytes \<Rightarrow> bytes option \<Rightarrow> nat option \<Rightarrow> instant \<Rightarrow> secret_store" where
  "store_new_at cur prev interval generated =
     \<lparr> store_state = \<lparr> state_current = cur, state_previous = prev, generated_at = generated \<rparr>,
       rotation_interval = interval \<rparr>"

definition store_new :: "bytes \<Rightarrow> nat option \<Rightarrow> instant \<Rightarrow> secret_store" where
  "store_new cur interval now = store_new_at cur None interval now"

definition store_configured :: "bytes \<Rightarrow> bytes option \<Rightarrow> instant \<Rightarrow> secret_store" where
  "store_configured cur prev now = store_new_at cur prev None now"

definition rotation_due :: "nat option \<Rightarrow> secret_state \<Rightarrow> instant \<Rightarrow> bool" where
  "rotation_due interval st now = (case interval of None \<Rightarrow> False | Some i \<Rightarrow> i \<le> now - generated_at st)"

definition secrets_of :: "secret_state \<Rightarrow> dns_cookie_secrets" where
  "secrets_of st = \<lparr> secret_current = state_current st, secret_previous = state_previous st \<rparr>"

text \<open>The state a due rotation publishes; \<open>None\<close> is a failed generator.\<close>

definition rotated :: "secret_state \<Rightarrow> bytes option \<Rightarrow> instant \<Rightarrow> secret_state" where
  "rotated st generated now =
     (case generated of
        Some secret \<Rightarrow> \<lparr> state_current = secret, state_previous = Some (state_current st), generated_at = now \<rparr>
      | None \<Rightarrow> st \<lparr> generated_at := now \<rparr>)"

text \<open>
  One call with nothing in between: the clock is read for the first look, for the second and for
  the time stamp.
\<close>

definition current_with_generator ::
  "secret_store \<Rightarrow> bytes option \<Rightarrow> instant \<Rightarrow> instant \<Rightarrow> instant \<Rightarrow> secret_store \<times> dns_cookie_secrets" where
  "current_with_generator s generated now1 now2 now3 =
     (if \<not> rotation_due (rotation_interval s) (store_state s) now1 then (s, secrets_of (store_state s))
      else if rotation_due (rotation_interval s) (store_state s) now2 then
        let st = rotated (store_state s) generated now3 in (s \<lparr> store_state := st \<rparr>, secrets_of st)
      else (s, secrets_of (store_state s)))"

section \<open>Concurrent callers\<close>

text \<open>Where a caller stands: before the first look, waiting for the lock, holding it, having
  loaded the snapshot under it, and returned.\<close>

datatype reader = Start | WaitLock | Locked | Loaded secret_state | Returned dns_cookie_secrets

record store_config =
  shared :: secret_state
  lock_holder :: "nat option"
  readers :: "nat \<Rightarrow> reader"
  clock :: instant
  published :: "secret_state list"

definition store_initial :: "secret_state \<Rightarrow> store_config" where
  "store_initial st = \<lparr> shared = st, lock_holder = None, readers = (\<lambda>_. Start),
     clock = generated_at st, published = [st] \<rparr>"

inductive store_step :: "nat option \<Rightarrow> store_config \<Rightarrow> store_config \<Rightarrow> bool" for interval where
  read_current:
    "readers c t = Start \<Longrightarrow> clock c \<le> now \<Longrightarrow> \<not> rotation_due interval (shared c) now \<Longrightarrow>
     store_step interval c (c \<lparr> readers := (readers c) (t := Returned (secrets_of (shared c))), clock := now \<rparr>)"
| read_due:
    "readers c t = Start \<Longrightarrow> clock c \<le> now \<Longrightarrow> rotation_due interval (shared c) now \<Longrightarrow>
     store_step interval c (c \<lparr> readers := (readers c) (t := WaitLock), clock := now \<rparr>)"
| acquire:
    "readers c t = WaitLock \<Longrightarrow> lock_holder c = None \<Longrightarrow>
     store_step interval c (c \<lparr> readers := (readers c) (t := Locked), lock_holder := Some t \<rparr>)"
| load:
    "readers c t = Locked \<Longrightarrow>
     store_step interval c (c \<lparr> readers := (readers c) (t := Loaded (shared c)) \<rparr>)"
| found_fresh:
    "readers c t = Loaded st \<Longrightarrow> clock c \<le> now \<Longrightarrow> \<not> rotation_due interval st now \<Longrightarrow>
     store_step interval c (c \<lparr> readers := (readers c) (t := Returned (secrets_of st)),
       lock_holder := None, clock := now \<rparr>)"
| rotate_secret:
    "readers c t = Loaded st \<Longrightarrow> clock c \<le> now2 \<Longrightarrow> now2 \<le> now3 \<Longrightarrow> rotation_due interval st now2 \<Longrightarrow>
     store_step interval c (c \<lparr> readers := (readers c) (t := Returned (secrets_of (rotated st generated now3))),
       lock_holder := None, clock := now3, shared := rotated st generated now3,
       published := rotated st generated now3 # published c \<rparr>)"

inductive_cases store_stepE: "store_step interval c c'"

section \<open>What every interleaving keeps\<close>

text \<open>Publications follow each other at least an interval apart, and each keeps the secret that
  was current before as the previous one, or fails and keeps both.\<close>

definition follows :: "nat \<Rightarrow> secret_state \<Rightarrow> secret_state \<Rightarrow> bool" where
  "follows i older newer \<longleftrightarrow> generated_at older + i \<le> generated_at newer \<and>
     (state_previous newer = Some (state_current older) \<or> secrets_of newer = secrets_of older)"

fun publication_chain :: "nat \<Rightarrow> secret_state list \<Rightarrow> bool" where
  "publication_chain i (newer # older # sts) \<longleftrightarrow> follows i older newer \<and> publication_chain i (older # sts)"
| "publication_chain i _ \<longleftrightarrow> True"

definition holds_lock :: "reader \<Rightarrow> bool" where
  "holds_lock r = (case r of Locked \<Rightarrow> True | Loaded _ \<Rightarrow> True | _ \<Rightarrow> False)"

definition lock_inv :: "store_config \<Rightarrow> bool" where
  "lock_inv c \<longleftrightarrow> (\<forall>t. holds_lock (readers c t) = (lock_holder c = Some t))"

definition loaded_inv :: "store_config \<Rightarrow> bool" where
  "loaded_inv c \<longleftrightarrow> (\<forall>t st. readers c t = Loaded st \<longrightarrow> st = shared c)"

definition returned_inv :: "store_config \<Rightarrow> bool" where
  "returned_inv c \<longleftrightarrow> (\<forall>t p. readers c t = Returned p \<longrightarrow> p \<in> secrets_of ` set (published c))"

definition history_inv :: "nat \<Rightarrow> secret_state \<Rightarrow> store_config \<Rightarrow> bool" where
  "history_inv i st0 c \<longleftrightarrow> (\<exists>older. published c = shared c # older) \<and> last (published c) = st0 \<and>
     publication_chain i (published c) \<and> generated_at (shared c) \<le> clock c"

definition store_inv :: "nat \<Rightarrow> secret_state \<Rightarrow> store_config \<Rightarrow> bool" where
  "store_inv i st0 c \<longleftrightarrow> lock_inv c \<and> loaded_inv c \<and> returned_inv c \<and> history_inv i st0 c"

lemma holds_lock_simps [simp]:
  "holds_lock Start = False" "holds_lock WaitLock = False" "holds_lock Locked = True"
  "holds_lock (Loaded st) = True" "holds_lock (Returned p) = False"
  by (simp_all add: holds_lock_def)

lemma lock_inv_step: "store_step interval c c' \<Longrightarrow> lock_inv c \<Longrightarrow> lock_inv c'"
  by (induction rule: store_step.induct) (simp_all add: lock_inv_def, (metis holds_lock_simps option.inject option.distinct(1))+)

lemma lock_unique: "lock_inv c \<Longrightarrow> holds_lock (readers c t) \<Longrightarrow> holds_lock (readers c u) \<Longrightarrow> t = u"
  by (simp add: lock_inv_def)

lemma loaded_inv_step:
  assumes "store_step interval c c'" "lock_inv c" "loaded_inv c"
  shows "loaded_inv c'"
  using assms
proof (induction rule: store_step.induct)
  case (rotate_secret c t st now2 now3 generated)
  then have "readers c u \<noteq> Loaded st'" if "u \<noteq> t" for u st'
    using that lock_unique [of c t u] by (metis holds_lock_simps(4))
  then show ?case by (simp add: loaded_inv_def)
qed (auto simp: loaded_inv_def)

lemma returned_inv_step:
  assumes "store_step interval c c'" "loaded_inv c" "shared c \<in> set (published c)" "returned_inv c"
  shows "returned_inv c'"
  using assms by (induction rule: store_step.induct) (auto simp: returned_inv_def loaded_inv_def)

lemma rotated_follows:
  "rotation_due (Some i) st now2 \<Longrightarrow> 0 < i \<Longrightarrow> now2 \<le> now3 \<Longrightarrow> follows i st (rotated st generated now3)"
  by (auto simp: follows_def rotated_def rotation_due_def secrets_of_def split: option.splits)

lemma generated_at_rotated [simp]: "generated_at (rotated st generated now) = now"
  by (simp add: rotated_def split: option.splits)

lemma history_inv_step:
  assumes "store_step (Some i) c c'" "0 < i" "loaded_inv c" "history_inv i st0 c"
  shows "history_inv i st0 c'"
  using assms
proof (induction rule: store_step.induct)
  case (rotate_secret c t st now2 now3 generated)
  then have "st = shared c" by (simp add: loaded_inv_def)
  moreover obtain older where "published c = shared c # older" using rotate_secret.prems(3) by (auto simp: history_inv_def)
  ultimately show ?case
    using rotate_secret.prems(3) rotated_follows [OF rotate_secret.hyps(4) rotate_secret.prems(1) rotate_secret.hyps(3)]
    by (simp add: history_inv_def)
qed (auto simp: history_inv_def)

lemma store_inv_initial: "store_inv i st (store_initial st)"
  by (simp add: store_inv_def lock_inv_def loaded_inv_def returned_inv_def history_inv_def store_initial_def)

lemma store_inv_step:
  assumes "store_step (Some i) c c'" "0 < i" "store_inv i st0 c"
  shows "store_inv i st0 c'"
proof -
  have "shared c \<in> set (published c)" using assms(3) by (auto simp: store_inv_def history_inv_def)
  with assms show ?thesis unfolding store_inv_def
    by (blast intro: lock_inv_step loaded_inv_step returned_inv_step history_inv_step)
qed

lemma store_inv_reachable:
  "(store_step (Some i))\<^sup>*\<^sup>* (store_initial st0) c \<Longrightarrow> 0 < i \<Longrightarrow> store_inv i st0 c"
  by (induction rule: rtranclp_induct) (auto intro: store_inv_initial store_inv_step)

lemma publication_chain_span:
  "publication_chain i (st # sts) \<Longrightarrow> generated_at (last (st # sts)) + length sts * i \<le> generated_at st"
proof (induction sts arbitrary: st)
  case (Cons st' sts)
  have "last (st # st' # sts) = last (st' # sts)" by simp
  moreover have "generated_at st' + i \<le> generated_at st" using Cons.prems by (simp add: follows_def)
  moreover have "generated_at (last (st' # sts)) + length sts * i \<le> generated_at st'"
    using Cons.prems by (intro Cons.IH) simp
  ultimately show ?case unfolding list.size mult_Suc by (simp only: add_0_right mult_Suc Suc_eq_plus1 add_mult_distrib)
qed simp

lemma publication_chain_nth:
  "publication_chain i sts \<Longrightarrow> Suc n < length sts \<Longrightarrow> follows i (sts ! Suc n) (sts ! n)"
proof (induction i sts arbitrary: n rule: publication_chain.induct)
  case (1 i newer older sts)
  then show ?case by (cases n) simp_all
qed simp_all

text \<open>The steps a caller still has to take.\<close>

fun steps_left :: "reader \<Rightarrow> nat" where
  "steps_left Start = 4"
| "steps_left WaitLock = 3"
| "steps_left Locked = 2"
| "steps_left (Loaded _) = 1"
| "steps_left (Returned _) = 0"

lemma store_step_decreases:
  "store_step interval c c' \<Longrightarrow>
     \<exists>t r. readers c' = (readers c) (t := r) \<and> steps_left r < steps_left (readers c t)"
  by (induction rule: store_step.induct) (simp, (rule exI)+, rule conjI, rule refl, simp)+

text \<open>A step of one of the readers of a group, the others standing still.\<close>

definition store_step_among :: "nat set \<Rightarrow> nat option \<Rightarrow> store_config \<Rightarrow> store_config \<Rightarrow> bool" where
  "store_step_among T interval c c' \<longleftrightarrow>
     store_step interval c c' \<and> (\<forall>u. u \<notin> T \<longrightarrow> readers c' u = readers c u)"

lemma reader_can_step:
  assumes "lock_inv c" "steps_left (readers c t) \<noteq> 0" "t \<in> T" "\<And>u. lock_holder c = Some u \<Longrightarrow> u \<in> T"
  shows "\<exists>c'. store_step_among T interval c c'"
proof -
  have among: "store_step_among T interval c c'" if "store_step interval c c'" "readers c' = (readers c) (u := r)" "u \<in> T" for c' u r
    using that by (auto simp: store_step_among_def)
  have holder: "\<exists>c'. store_step_among T interval c c'" if u: "u \<in> T" "holds_lock (readers c u)" for u
  proof (cases "readers c u")
    case Locked
    then show ?thesis using among [OF store_step.load] u(1) by fastforce
  next
    case (Loaded st)
    show ?thesis
    proof (cases "rotation_due interval st (clock c)")
      case True
      then show ?thesis using among [OF store_step.rotate_secret [OF Loaded order_refl order_refl True]] u(1) by fastforce
    next
      case False
      then show ?thesis using among [OF store_step.found_fresh [OF Loaded order_refl False]] u(1) by fastforce
    qed
  qed (use u in simp_all)
  show ?thesis
  proof (cases "readers c t")
    case Start
    then show ?thesis
      using among [OF store_step.read_current [OF Start order_refl]] among [OF store_step.read_due [OF Start order_refl]]
        assms(3) by (cases "rotation_due interval (shared c) (clock c)") fastforce+
  next
    case WaitLock
    show ?thesis
    proof (cases "lock_holder c")
      case None
      then show ?thesis using among [OF store_step.acquire [OF WaitLock None]] assms(3) by fastforce
    next
      case (Some u)
      then show ?thesis using assms(1,4) holder [of u] by (simp add: lock_inv_def)
    qed
  qed (use assms(2,3) holder [of t] in simp_all)
qed

lemma among_decreases:
  assumes "finite T" "store_step_among T interval c c'"
  shows "(\<Sum>t\<in>T. steps_left (readers c' t)) < (\<Sum>t\<in>T. steps_left (readers c t))"
proof -
  obtain t r where t: "readers c' = (readers c) (t := r)" "steps_left r < steps_left (readers c t)"
    using assms(2) store_step_decreases [of interval c c'] unfolding store_step_among_def by blast
  then have "readers c' t \<noteq> readers c t" by auto
  then have "t \<in> T" using assms(2) by (auto simp: store_step_among_def)
  then show ?thesis using t by (intro sum_strict_mono_ex1 [OF assms(1)]) auto
qed

text \<open>A single caller that finds a rotation due carries it out.\<close>

lemma rotation_due_later: "rotation_due interval st now \<Longrightarrow> now \<le> now' \<Longrightarrow> rotation_due interval st now'"
  by (auto simp: rotation_due_def split: option.splits)

lemma one_rotation:
  assumes "rotation_due interval st now1" "generated_at st \<le> now1" "now1 \<le> now2" "now2 \<le> now"
  obtains c where "(store_step interval)\<^sup>*\<^sup>* (store_initial st) c"
    "published c = [rotated st generated now, st]" "shared c = rotated st generated now"
    "readers c 0 = Returned (secrets_of (rotated st generated now))"
proof -
  define c1 where "c1 = (store_initial st) \<lparr> readers := (\<lambda>_. Start) (0 := WaitLock), clock := now1 \<rparr>"
  define c2 where "c2 = c1 \<lparr> readers := (\<lambda>_. Start) (0 := Locked), lock_holder := Some 0 \<rparr>"
  define c3 where "c3 = c2 \<lparr> readers := (\<lambda>_. Start) (0 := Loaded st) \<rparr>"
  define c4 where "c4 = c3 \<lparr> readers := (\<lambda>_. Start) (0 := Returned (secrets_of (rotated st generated now))),
       lock_holder := None, clock := now, shared := rotated st generated now,
       published := [rotated st generated now, st] \<rparr>"
  have "store_step interval (store_initial st) c1"
    using store_step.read_due [of "store_initial st" 0 now1 interval] assms
    by (simp add: c1_def store_initial_def)
  moreover have "store_step interval c1 c2"
    using store_step.acquire [of c1 0 interval] by (simp add: c2_def c1_def store_initial_def)
  moreover have "store_step interval c2 c3"
    using store_step.load [of c2 0 interval] by (simp add: c3_def c2_def c1_def store_initial_def)
  moreover have "store_step interval c3 c4"
    using store_step.rotate_secret [of c3 0 st now2 now interval generated] assms rotation_due_later [OF assms(1,3)]
    by (simp add: c4_def c3_def c2_def c1_def store_initial_def)
  ultimately have "(store_step interval)\<^sup>*\<^sup>* (store_initial st) c4" by (meson converse_rtranclp_into_rtranclp rtranclp.rtrancl_refl)
  with that show ?thesis by (simp add: c4_def)
qed

text \<open>The sequential method is what a caller does that nobody interrupts.\<close>

lemma sequential_call_is_a_run:
  assumes "generated_at (store_state s) \<le> now1" "now1 \<le> now2" "now2 \<le> now3"
    and "current_with_generator s generated now1 now2 now3 = (s', pair)"
  shows "\<exists>c. (store_step (rotation_interval s))\<^sup>*\<^sup>* (store_initial (store_state s)) c \<and>
    shared c = store_state s' \<and> readers c 0 = Returned pair"
proof (cases "rotation_due (rotation_interval s) (store_state s) now1")
  case True
  then have "store_state s' = rotated (store_state s) generated now3"
    "pair = secrets_of (rotated (store_state s) generated now3)"
    using assms(2,4) rotation_due_later [OF True assms(2)] by (auto simp: current_with_generator_def Let_def)
  with one_rotation [OF True assms(1-3), of generated] show ?thesis by metis
next
  case False
  let ?c = "(store_initial (store_state s)) \<lparr> readers := (\<lambda>_. Start) (0 := Returned (secrets_of (store_state s))), clock := now1 \<rparr>"
  have "store_step (rotation_interval s) (store_initial (store_state s)) ?c"
    using store_step.read_current [of "store_initial (store_state s)" 0 now1 "rotation_interval s"] False assms(1)
    by (simp add: store_initial_def)
  moreover have "s' = s" "pair = secrets_of (store_state s)" using False assms(4) by (auto simp: current_with_generator_def)
  ultimately show ?thesis by (intro exI [of _ ?c]) (auto simp: store_initial_def)
qed

lemma among_run:
  assumes "finite T" "(store_step_among T (Some i) ^^ n) (store_initial st0) c"
  shows "(store_step (Some i))\<^sup>*\<^sup>* (store_initial st0) c \<and> (\<forall>u. u \<notin> T \<longrightarrow> readers c u = Start) \<and>
    n + (\<Sum>t\<in>T. steps_left (readers c t)) \<le> 4 * card T"
  using assms(2)
proof (induction n arbitrary: c)
  case 0
  then show ?case by (auto simp: store_initial_def)
next
  case (Suc n)
  then obtain d where d: "(store_step_among T (Some i) ^^ n) (store_initial st0) d" "store_step_among T (Some i) d c" by auto
  from d(2) have "store_step (Some i) d c" "\<forall>u. u \<notin> T \<longrightarrow> readers c u = readers d u" by (auto simp: store_step_among_def)
  then show ?case using Suc.IH [OF d(1)] among_decreases [OF assms(1) d(2)] by (auto intro: rtranclp.rtrancl_into_rtrancl)
qed

section \<open>Properties\<close>

text \<open>
  C32: in every interleaving of readers of the secret store, at most one is inside the rotation
  lock, every pair a reader returns was published as a pair, and publications after the first
  number at most one for each rotation interval that has passed.
\<close>

theorem secret_rotation_once_per_interval:
  assumes "(store_step (Some i))\<^sup>*\<^sup>* (store_initial st0) c" "0 < i"
  shows "(\<forall>t u. holds_lock (readers c t) \<longrightarrow> holds_lock (readers c u) \<longrightarrow> t = u) \<and>
    (\<forall>t p. readers c t = Returned p \<longrightarrow> p \<in> secrets_of ` set (published c)) \<and>
    generated_at st0 + (length (published c) - 1) * i \<le> clock c"
proof -
  have inv: "lock_inv c" "returned_inv c" "history_inv i st0 c"
    using store_inv_reachable [OF assms] by (simp_all add: store_inv_def)
  from inv(3) obtain older where p: "published c = shared c # older" by (auto simp: history_inv_def)
  then have "generated_at st0 + length older * i \<le> generated_at (shared c)"
    using inv(3) publication_chain_span [of i "shared c" older] by (simp add: history_inv_def)
  then show ?thesis
    using inv p lock_unique [OF inv(1)] by (auto simp: returned_inv_def history_inv_def)
qed

theorem secret_rotation_once_per_interval_witness:
  "\<exists>c. (store_step (Some 5))\<^sup>*\<^sup>* (store_initial \<lparr> state_current = [1], state_previous = None, generated_at = 0 \<rparr>) c \<and>
     length (published c) = 2 \<and> 5 \<le> clock c"
proof -
  let ?st = "\<lparr> state_current = [1], state_previous = None, generated_at = 0 \<rparr> :: secret_state"
  obtain c where c: "(store_step (Some 5))\<^sup>*\<^sup>* (store_initial ?st) c" "published c = [rotated ?st (Some [2]) 6, ?st]"
    using one_rotation [of "Some 5" ?st 6 6 6 "Some [2]"] by (auto simp: rotation_due_def)
  with secret_rotation_once_per_interval [OF c(1)] show ?thesis by (intro exI [of _ c]) simp
qed

text \<open>
  C33: rotation does not cut clients off.  A server cookie minted with one published pair is
  accepted under the pair published next, for a client that comes back from the same address
  within the past window.
\<close>

theorem cookies_survive_published_rotation:
  assumes "(store_step (Some i))\<^sup>*\<^sup>* (store_initial st0) c" "0 < i" "Suc n < length (published c)"
    and "dns_cookie_context_of ip (secrets_of (published c ! Suc n)) settings now = Some ctx"
    and "dns_cookie_context_of ip (secrets_of (published c ! n)) settings (now + age) = Some later"
    and "age \<le> set_past_window_secs settings" "length cl = 8"
  shows "accepts_cookie_option sip (cl @ compute_dns_server_cookie sip cl ctx) later"
proof -
  have "publication_chain i (published c)"
    using store_inv_reachable [OF assms(1,2)] by (simp add: store_inv_def history_inv_def)
  from publication_chain_nth [OF this assms(3)]
  have "usable_secret later (server_secret ctx)"
    using assms(4,5) by (auto simp: follows_def dns_cookie_context_of_def secrets_of_def cookie_context_new_def Let_def
        split: option.splits)
  moreover have "client_ip later = client_ip ctx" "now_unix_secs later = now_unix_secs ctx + age"
    "past_window_secs later = set_past_window_secs settings"
    using assms(4,5) by (auto simp: dns_cookie_context_of_def cookie_context_new_def Let_def split: option.splits)
  ultimately show ?thesis using assms(6,7) by (intro minted_cookie_accepted) (auto simp: timestamp_window_iff)
qed

theorem cookies_survive_published_rotation_witness:
  "let st = \<lparr> state_current = replicate 16 7, state_previous = None, generated_at = 0 \<rparr>;
       settings = dns_cookie_settings \<lparr> cfg_policy = PolicyStrict, timestamp_past_tolerance_seconds = 3600,
         timestamp_future_tolerance_seconds = 300, secret_rotation_interval_secs = 60 \<rparr>;
       sip = (\<lambda>k0 k1 bs. of_nat (length bs)); cl = replicate 8 5
   in \<exists>ctx later. dns_cookie_context_of (V4 1) (secrets_of st) settings 100 = Some ctx \<and>
        dns_cookie_context_of (V4 1) (secrets_of (rotated st (Some (replicate 16 9)) 6)) settings 110 = Some later \<and>
        accepts_cookie_option sip (cl @ compute_dns_server_cookie sip cl ctx) later"
proof -
  let ?st = "\<lparr> state_current = replicate 16 7, state_previous = None, generated_at = 0 \<rparr> :: secret_state"
  let ?settings = "dns_cookie_settings \<lparr> cfg_policy = PolicyStrict, timestamp_past_tolerance_seconds = 3600,
         timestamp_future_tolerance_seconds = 300, secret_rotation_interval_secs = 60 \<rparr>"
  let ?new = "rotated ?st (Some (replicate 16 9)) 6"
  obtain c where c: "(store_step (Some 5))\<^sup>*\<^sup>* (store_initial ?st) c" "published c = [?new, ?st]"
    using one_rotation [of "Some 5" ?st 6 6 6 "Some (replicate 16 9)"] by (auto simp: rotation_due_def)
  obtain ctx later where "dns_cookie_context_of (V4 1) (secrets_of ?st) ?settings 100 = Some ctx"
    "dns_cookie_context_of (V4 1) (secrets_of ?new) ?settings 110 = Some later"
    by (simp add: dns_cookie_context_of_def dns_cookie_settings_def Let_def)
  with cookies_survive_published_rotation [OF c(1), of 0 "V4 1" ?settings 100 ctx 10 later "replicate 8 5"] c(2)
  show ?thesis unfolding Let_def by (simp add: dns_cookie_settings_def)
qed

text \<open>
  C34: a group of readers always finishes.  However the calls of finitely many readers are
  interleaved, they take at most four steps each, and when none of them can take another step all
  of them have returned a published pair: none is left waiting for the rotation lock.
\<close>

theorem secret_store_readers_return:
  assumes "finite T" "0 < i" "(store_step_among T (Some i) ^^ n) (store_initial st0) c"
  shows "n \<le> 4 * card T \<and>
    ((\<forall>c'. \<not> store_step_among T (Some i) c c') \<longrightarrow>
       (\<forall>t\<in>T. \<exists>st\<in>set (published c). readers c t = Returned (secrets_of st)))"
proof -
  note run = among_run [OF assms(1,3)]
  have inv: "lock_inv c" "returned_inv c" using store_inv_reachable [OF _ assms(2)] run by (auto simp: store_inv_def)
  have holder: "u \<in> T" if "lock_holder c = Some u" for u
    using that inv(1) run by (metis holds_lock_simps(1) lock_inv_def)
  have "\<exists>st\<in>set (published c). readers c t = Returned (secrets_of st)"
    if "\<forall>c'. \<not> store_step_among T (Some i) c c'" "t \<in> T" for t
  proof -
    have "steps_left (readers c t) = 0" using reader_can_step [OF inv(1) _ that(2) holder] that(1) by blast
    then obtain p where "readers c t = Returned p" by (cases "readers c t") simp_all
    then show ?thesis using inv(2) by (auto simp: returned_inv_def)
  qed
  then show ?thesis using run by auto
qed

theorem secret_store_readers_return_witness:
  "let st = \<lparr> state_current = [1], state_previous = None, generated_at = 0 \<rparr>
   in \<exists>c. (store_step_among {7} (Some 5) ^^ 1) (store_initial st) c \<and> readers c 7 = Returned (secrets_of st)"
proof -
  let ?st = "\<lparr> state_current = [1], state_previous = None, generated_at = 0 \<rparr> :: secret_state"
  let ?c = "(store_initial ?st) \<lparr> readers := (\<lambda>_. Start) (7 := Returned (secrets_of ?st)), clock := 0 \<rparr>"
  have "store_step (Some 5) (store_initial ?st) ?c"
    using store_step.read_current [of "store_initial ?st" 7 0 "Some 5"] by (simp add: store_initial_def rotation_due_def)
  then have "store_step_among {7} (Some 5) (store_initial ?st) ?c"
    by (simp add: store_step_among_def store_initial_def)
  then have run: "(store_step_among {7} (Some 5) ^^ 1) (store_initial ?st) ?c" by (simp only: relpowp_1)
  have "\<not> store_step_among {7} (Some 5) ?c c'" for c'
    using among_decreases [of "{7}" "Some 5" ?c c'] by auto
  then have "\<exists>st\<in>set (published ?c). readers ?c 7 = Returned (secrets_of st)"
    using secret_store_readers_return [OF _ _ run] by simp
  then show ?thesis unfolding Let_def using run by (intro exI [of _ ?c]) (simp add: store_initial_def)
qed

end
