(* ===== verification/Transfer_Rdata.thy ===== *)
theory Transfer_Rdata
  imports Dns_Compress
begin

text \<open>
  Records of zone transfers, from \<open>crates/borondns-core/src/axfr.rs\<close>: parsing a record with its
  rdata normalised to uncompressed names, the identity under which records are compared, and the
  checks of the rdata of known types.
\<close>

section \<open>Errors\<close>

record transfer_extended_dns_error =
  ede_info_code :: u16
  ede_extra_text :: bytes

datatype axfr_error = EmptyResponse | MalformedMessage | MismatchedQid | NotResponse | MismatchedOpcode
  | ErrorRcode u8 | ErrorRcodeWithEde u8 transfer_extended_dns_error | MismatchedQuestion
  | MissingInitialSoa | MissingTerminatingSoa | MismatchedTerminatingSoa | MiddleSoa | TrailingRecords
  | ClassMismatch | OutOfZoneOwner | ReservedType | ProhibitedType | InvalidRdata | InvalidZoneSoa
  | MissingApexNs | CnameCoexistsWithOtherData | MultipleCnameRecords | DnameCoexistsWithCname
  | MultipleDnameRecords | DnameCoexistsWithNs

section \<open>Normalised rdata\<close>

definition parse_rdata_name :: "bytes \<Rightarrow> nat \<Rightarrow> nat \<Rightarrow> dns_parse_error + (domain_name \<times> nat)" where
  "parse_rdata_name message offset rdata_end =
     (if rdata_end \<le> offset then Inl FormErr
      else and_then (parse_name message offset) (\<lambda>(name, consumed).
        if rdata_end < offset + consumed then Inl FormErr else Inr (name, consumed)))"

definition normalize_two_name_rdata :: "bytes \<Rightarrow> nat \<Rightarrow> nat \<Rightarrow> dns_parse_error + bytes" where
  "normalize_two_name_rdata message rdata_start rdata_end =
     and_then (parse_rdata_name message rdata_start rdata_end) (\<lambda>(first, consumed_first).
       let second_offset = rdata_start + consumed_first in
       and_then (parse_rdata_name message second_offset rdata_end) (\<lambda>(second, consumed_second).
         if second_offset + consumed_second \<noteq> rdata_end then Inl FormErr
         else Inr (to_wire first @ to_wire second)))"

definition normalize_soa_rdata :: "bytes \<Rightarrow> nat \<Rightarrow> nat \<Rightarrow> dns_parse_error + bytes" where
  "normalize_soa_rdata message rdata_start rdata_end =
     and_then (parse_rdata_name message rdata_start rdata_end) (\<lambda>(mname, consumed_mname).
       let rname_offset = rdata_start + consumed_mname in
       and_then (parse_rdata_name message rname_offset rdata_end) (\<lambda>(rname, consumed_rname).
         let timers_offset = rname_offset + consumed_rname in
         if timers_offset + 20 \<noteq> rdata_end then Inl FormErr
         else Inr (to_wire mname @ to_wire rname @ sub_slice message timers_offset rdata_end)))"

definition normalize_mx_rdata :: "bytes \<Rightarrow> nat \<Rightarrow> nat \<Rightarrow> dns_parse_error + bytes" where
  "normalize_mx_rdata message rdata_start rdata_end =
     (let exchange_offset = rdata_start + 2 in
      if rdata_end < exchange_offset then Inl FormErr
      else and_then (parse_rdata_name message exchange_offset rdata_end) (\<lambda>(exchange, consumed).
        if exchange_offset + consumed \<noteq> rdata_end then Inl FormErr
        else Inr (sub_slice message rdata_start exchange_offset @ to_wire exchange)))"

definition is_normalized_single_name_type :: "u16 \<Rightarrow> bool" where
  "is_normalized_single_name_type rt \<longleftrightarrow> rt = type_code RT_Ns \<or> rt = 3 \<or> rt = 4 \<or> rt = type_code RT_Cname
     \<or> rt = 7 \<or> rt = 8 \<or> rt = 9 \<or> rt = type_code RT_Ptr"

definition normalize_transfer_rdata :: "bytes \<Rightarrow> u16 \<Rightarrow> nat \<Rightarrow> nat \<Rightarrow> dns_parse_error + bytes" where
  "normalize_transfer_rdata message rt rdata_start rdlength =
     (let rdata_end = rdata_start + rdlength in
      case get_slice message rdata_start rdata_end of
        None \<Rightarrow> Inl FormErr
      | Some raw_rdata \<Rightarrow>
          if is_normalized_single_name_type rt then
            and_then (parse_rdata_name message rdata_start rdata_end) (\<lambda>(name, consumed).
              if rdata_start + consumed = rdata_end then Inr (to_wire name) else Inl FormErr)
          else if rt = type_code RT_Soa then normalize_soa_rdata message rdata_start rdata_end
          else if rt = type_code RT_Mx then normalize_mx_rdata message rdata_start rdata_end
          else if rt = 14 then normalize_two_name_rdata message rdata_start rdata_end
          else Inr raw_rdata)"

definition parse_record :: "bytes \<Rightarrow> nat \<Rightarrow> dns_parse_error + (resource_record \<times> nat)" where
  "parse_record message start =
     and_then (parse_name message start) (\<lambda>(owner', consumed).
       let offset = start + consumed in
       if length message < offset + 10 then Inl FormErr
       else
         let rt = be16 (message ! offset) (message ! (offset + 1));
             class' = be16 (message ! (offset + 2)) (message ! (offset + 3));
             wire_ttl = be32 (message ! (offset + 4)) (message ! (offset + 5))
                          (message ! (offset + 6)) (message ! (offset + 7));
             ttl' = (if wire_ttl AND 0x80000000 \<noteq> 0 then 0 else wire_ttl);
             rdlength = unat (be16 (message ! (offset + 8)) (message ! (offset + 9)));
             offset = offset + 10
         in if length message < offset + rdlength then Inl FormErr
            else and_then (normalize_transfer_rdata message rt offset rdlength) (\<lambda>rd.
              Inr (\<lparr> owner = owner', rec_type = rt, rec_class = class', rec_ttl = ttl', rec_rdata = rd \<rparr>,
                   offset + rdlength - start)))"

section \<open>Record identity\<close>

definition append_canonical_rdata_name :: "bytes \<Rightarrow> nat \<Rightarrow> bytes \<Rightarrow> (nat \<times> bytes) option" where
  "append_canonical_rdata_name rd offset output =
     (case parse_name rd offset of
        Inl _ \<Rightarrow> None
      | Inr (name, consumed) \<Rightarrow> Some (offset + consumed, output @ to_wire (to_ascii_lowercased name)))"

text \<open>A fixed prefix, one or two names, and what may follow them.\<close>

definition canonical_one_name :: "bytes \<Rightarrow> nat \<Rightarrow> bool \<Rightarrow> bytes option" where
  "canonical_one_name rd prefix_len trailing =
     (if length rd < prefix_len then None
      else case append_canonical_rdata_name rd prefix_len (take prefix_len rd) of
        None \<Rightarrow> None
      | Some (stop, canonical) \<Rightarrow>
          if trailing then Some (canonical @ drop stop rd)
          else if stop = length rd then Some canonical else None)"

definition canonical_two_names :: "bytes \<Rightarrow> nat \<Rightarrow> nat \<Rightarrow> bytes option" where
  "canonical_two_names rd prefix_len timers =
     (if length rd < prefix_len then None
      else case append_canonical_rdata_name rd prefix_len (take prefix_len rd) of
        None \<Rightarrow> None
      | Some (second, canonical) \<Rightarrow>
          (case append_canonical_rdata_name rd second canonical of
             None \<Rightarrow> None
           | Some (stop, canonical) \<Rightarrow>
               if stop + timers = length rd then Some (canonical @ drop stop rd) else None))"

fun naptr_replacement_offset :: "nat \<Rightarrow> bytes \<Rightarrow> nat \<Rightarrow> nat option" where
  "naptr_replacement_offset 0 rd replacement = Some replacement"
| "naptr_replacement_offset (Suc n) rd replacement =
     (case get_at rd replacement of
        None \<Rightarrow> None
      | Some len \<Rightarrow>
          if length rd < replacement + (1 + unat len) then None
          else naptr_replacement_offset n rd (replacement + (1 + unat len)))"

definition canonical_domain_name_rdata_identity :: "u16 \<Rightarrow> bytes \<Rightarrow> bytes option" where
  "canonical_domain_name_rdata_identity rt rd =
     (if rt \<in> {2, 3, 4, 5, 7, 8, 9, 12, 39} then canonical_one_name rd 0 False
      else if rt \<in> {14, 17, 58} then canonical_two_names rd 0 0
      else if rt = 6 then canonical_two_names rd 0 20
      else if rt \<in> {15, 18, 21, 36, 107} then canonical_one_name rd 2 False
      else if rt = 26 then canonical_two_names rd 2 0
      else if rt \<in> {24, 46} then canonical_one_name rd 18 False
      else if rt \<in> {30, 47} then canonical_one_name rd 0 True
      else if rt = 33 then canonical_one_name rd 6 False
      else if rt = 35 then
        (case naptr_replacement_offset 3 rd 4 of
           None \<Rightarrow> None | Some replacement \<Rightarrow> canonical_one_name rd replacement False)
      else if rt \<in> {64, 65} then canonical_one_name rd 2 True
      else None)"

definition canonical_rdata_identity :: "u16 \<Rightarrow> bytes \<Rightarrow> bytes" where
  "canonical_rdata_identity rt rd =
     (case canonical_domain_name_rdata_identity rt rd of None \<Rightarrow> rd | Some canonical \<Rightarrow> canonical)"

datatype record_key = RecordKey domain_name u16 u16 u32 bytes

definition record_key_of :: "resource_record \<Rightarrow> record_key" where
  "record_key_of r = RecordKey (to_ascii_lowercased (owner r)) (rec_type r) (rec_class r) (rec_ttl r)
     (canonical_rdata_identity (rec_type r) (rec_rdata r))"

definition resource_records_semantically_equal :: "resource_record \<Rightarrow> resource_record \<Rightarrow> bool" where
  "resource_records_semantically_equal l r \<longleftrightarrow> record_key_of l = record_key_of r"

definition normalize_record_owner :: "resource_record \<Rightarrow> resource_record" where
  "normalize_record_owner r = r \<lparr> owner := to_ascii_lowercased (owner r) \<rparr>"

definition soa_serial :: "bytes \<Rightarrow> axfr_error + u32" where
  "soa_serial rd =
     and_then (map_err (\<lambda>_. MalformedMessage) (parse_name rd 0)) (\<lambda>(_, consumed_mname).
     and_then (map_err (\<lambda>_. MalformedMessage) (parse_name rd consumed_mname)) (\<lambda>(_, consumed_rname).
       let serial_offset = consumed_mname + consumed_rname in
       if serial_offset + 20 \<noteq> length rd then Inl MalformedMessage
       else Inr (be32 (rd ! serial_offset) (rd ! (serial_offset + 1)) (rd ! (serial_offset + 2))
                   (rd ! (serial_offset + 3)))))"

section \<open>Checks of known rdata\<close>

definition validate_fixed_rdata :: "resource_record \<Rightarrow> nat \<Rightarrow> axfr_error + unit" where
  "validate_fixed_rdata r expected_len = ensure (length (rec_rdata r) = expected_len) InvalidRdata"

definition validate_min_rdata :: "bytes \<Rightarrow> nat \<Rightarrow> axfr_error + unit" where
  "validate_min_rdata rd min_len = ensure (min_len \<le> length rd) InvalidRdata"

definition skip_character_string :: "bytes \<Rightarrow> nat \<Rightarrow> axfr_error + nat" where
  "skip_character_string rd offset =
     (case get_at rd offset of
        None \<Rightarrow> Inl InvalidRdata
      | Some len \<Rightarrow>
          let next = offset + 1 + unat len in
          if next \<le> length rd then Inr next else Inl InvalidRdata)"

lemma skip_character_string_less: "skip_character_string rd offset = Inr next \<Longrightarrow> offset < next \<and> next \<le> length rd"
  by (auto simp: skip_character_string_def Let_def split: option.splits if_splits)

function count_character_strings :: "bytes \<Rightarrow> nat \<Rightarrow> nat \<Rightarrow> axfr_error + nat" where
  "count_character_strings rd offset count =
     (if length rd \<le> offset then Inr count
      else (case skip_character_string rd offset of
              Inl e \<Rightarrow> Inl e
            | Inr next \<Rightarrow> count_character_strings rd next (count + 1)))"
  by pat_completeness auto
termination
  by (relation "measure (\<lambda>(rd, offset, count). length rd - offset)")
    (auto dest!: skip_character_string_less)

declare count_character_strings.simps [simp del]

definition validate_character_strings_from :: "bytes \<Rightarrow> nat \<Rightarrow> nat option \<Rightarrow> axfr_error + unit" where
  "validate_character_strings_from rd offset expected_count =
     (if length rd \<le> offset then Inl InvalidRdata
      else and_then (count_character_strings rd offset 0) (\<lambda>count.
        ensure (case expected_count of None \<Rightarrow> True | Some expected \<Rightarrow> count = expected) InvalidRdata))"

definition validate_character_strings :: "bytes \<Rightarrow> nat option \<Rightarrow> axfr_error + unit" where
  "validate_character_strings rd expected_count = validate_character_strings_from rd 0 expected_count"

function uncompressed_name_loop :: "bytes \<Rightarrow> nat \<Rightarrow> nat \<Rightarrow> nat \<Rightarrow> axfr_error + nat" where
  "uncompressed_name_loop rd offset pos total_len =
     (case get_at rd pos of
        None \<Rightarrow> Inl InvalidRdata
      | Some len \<Rightarrow>
          if len AND 0xc0 \<noteq> 0 then Inl InvalidRdata
          else
            let pos = pos + 1 in
            if len = 0 then Inr (pos - offset)
            else
              let label_len = unat len in
              if 63 < label_len \<or> length rd < pos + label_len then Inl InvalidRdata
              else
                let total_len = total_len + (1 + label_len) in
                if 255 < total_len then Inl InvalidRdata
                else uncompressed_name_loop rd offset (pos + label_len) total_len)"
  by pat_completeness auto
termination
  by (relation "measure (\<lambda>(rd, offset, pos, total_len). length rd - pos)")
    (auto simp: get_at_Some_iff)

declare uncompressed_name_loop.simps [simp del]

definition validate_uncompressed_domain_name_at :: "bytes \<Rightarrow> nat \<Rightarrow> axfr_error + nat" where
  "validate_uncompressed_domain_name_at rd offset = uncompressed_name_loop rd offset offset 1"

definition validate_uncompressed_domain_name_at_end :: "bytes \<Rightarrow> nat \<Rightarrow> axfr_error + unit" where
  "validate_uncompressed_domain_name_at_end rd offset =
     and_then (validate_uncompressed_domain_name_at rd offset) (\<lambda>consumed.
       ensure (offset + consumed = length rd) InvalidRdata)"

definition validate_uncompressed_domain_name_rdata :: "bytes \<Rightarrow> axfr_error + unit" where
  "validate_uncompressed_domain_name_rdata rd =
     and_then (validate_uncompressed_domain_name_at rd 0) (\<lambda>consumed.
       ensure (consumed = length rd) InvalidRdata)"

fun skip_character_strings :: "nat \<Rightarrow> bytes \<Rightarrow> nat \<Rightarrow> axfr_error + nat" where
  "skip_character_strings 0 rd offset = Inr offset"
| "skip_character_strings (Suc n) rd offset =
     and_then (skip_character_string rd offset) (skip_character_strings n rd)"

definition validate_uncompressed_domain_name_with_trailing :: "bytes \<Rightarrow> nat \<Rightarrow> axfr_error + nat" where
  "validate_uncompressed_domain_name_with_trailing rd offset = validate_uncompressed_domain_name_at rd offset"

definition validate_naptr_rdata :: "bytes \<Rightarrow> axfr_error + unit" where
  "validate_naptr_rdata rd =
     (if length rd < 8 then Inl InvalidRdata
      else and_then (skip_character_strings 3 rd 4) (validate_uncompressed_domain_name_at_end rd))"

definition validate_dnskey_rdata :: "bytes \<Rightarrow> axfr_error + unit" where
  "validate_dnskey_rdata rd =
     and_then (validate_min_rdata rd 4) (\<lambda>_. ensure (rd ! 2 = 3) InvalidRdata)"

function type_bit_maps_loop :: "bytes \<Rightarrow> nat \<Rightarrow> u8 option \<Rightarrow> axfr_error + unit" where
  "type_bit_maps_loop bit_maps offset last_window =
     (if length bit_maps \<le> offset then Inr ()
      else if length bit_maps < offset + 2 then Inl InvalidRdata
      else
        let window = bit_maps ! offset; bitmap_len = unat (bit_maps ! (offset + 1)); offset = offset + 2 in
        if bitmap_len = 0 \<or> 32 < bitmap_len \<or> length bit_maps < offset + bitmap_len then Inl InvalidRdata
        else if (case last_window of None \<Rightarrow> False | Some previous \<Rightarrow> window \<le> previous) then Inl InvalidRdata
        else if bit_maps ! (offset + bitmap_len - 1) = 0 then Inl InvalidRdata
        else type_bit_maps_loop bit_maps (offset + bitmap_len) (Some window))"
  by pat_completeness auto
termination
  by (relation "measure (\<lambda>(bit_maps, offset, last_window). length bit_maps - offset)") auto

declare type_bit_maps_loop.simps [simp del]

definition validate_type_bit_maps :: "bytes \<Rightarrow> bool \<Rightarrow> axfr_error + unit" where
  "validate_type_bit_maps bit_maps allow_empty =
     (if bit_maps = [] then ensure allow_empty InvalidRdata
      else type_bit_maps_loop bit_maps 0 None)"

definition validate_nsec_rdata :: "bytes \<Rightarrow> axfr_error + unit" where
  "validate_nsec_rdata rd =
     and_then (validate_uncompressed_domain_name_with_trailing rd 0) (\<lambda>next_name_len.
       validate_type_bit_maps (drop next_name_len rd) False)"

definition validate_nsec3_rdata :: "bytes \<Rightarrow> axfr_error + unit" where
  "validate_nsec3_rdata rd =
     (if length rd < 6 then Inl InvalidRdata
      else
        let salt_len = unat (rd ! 4); hash_len_offset = 5 + salt_len in
        case get_at rd hash_len_offset of
          None \<Rightarrow> Inl InvalidRdata
        | Some hash_len \<Rightarrow>
            if hash_len = 0 then Inl InvalidRdata
            else
              let bit_maps_offset = hash_len_offset + 1 + unat hash_len in
              if length rd < bit_maps_offset then Inl InvalidRdata
              else validate_type_bit_maps (drop bit_maps_offset rd) True)"

definition validate_nsec3param_rdata :: "bytes \<Rightarrow> axfr_error + unit" where
  "validate_nsec3param_rdata rd =
     (if length rd < 5 then Inl InvalidRdata
      else ensure (5 + unat (rd ! 4) = length rd) InvalidRdata)"

definition validate_uri_rdata :: "bytes \<Rightarrow> axfr_error + unit" where
  "validate_uri_rdata rd = ensure (5 \<le> length rd) InvalidRdata"

function svc_params_loop :: "bytes \<Rightarrow> nat \<Rightarrow> u16 option \<Rightarrow> axfr_error + unit" where
  "svc_params_loop rd offset last_key =
     (if length rd \<le> offset then Inr ()
      else if length rd < offset + 4 then Inl InvalidRdata
      else
        let key = be16 (rd ! offset) (rd ! (offset + 1));
            len = unat (be16 (rd ! (offset + 2)) (rd ! (offset + 3)));
            offset = offset + 4 in
        if length rd < offset + len then Inl InvalidRdata
        else if (case last_key of None \<Rightarrow> False | Some previous \<Rightarrow> key \<le> previous) then Inl InvalidRdata
        else svc_params_loop rd (offset + len) (Some key))"
  by pat_completeness auto
termination
  by (relation "measure (\<lambda>(rd, offset, last_key). length rd - offset)") auto

declare svc_params_loop.simps [simp del]

definition validate_svcb_like_rdata :: "bytes \<Rightarrow> axfr_error + unit" where
  "validate_svcb_like_rdata rd =
     (if length rd < 3 then Inl InvalidRdata
      else and_then (validate_uncompressed_domain_name_with_trailing rd 2) (\<lambda>target_len.
        if be16 (rd ! 0) (rd ! 1) = 0 then Inr () else svc_params_loop rd (2 + target_len) None))"

definition validate_known_rdata :: "resource_record \<Rightarrow> axfr_error + unit" where
  "validate_known_rdata r =
     (let rt = rec_type r; rd = rec_rdata r in
      if rt = type_code RT_A then validate_fixed_rdata r 4
      else if rt = type_code RT_Aaaa then validate_fixed_rdata r 16
      else if rt = type_code RT_Ds then validate_min_rdata rd 4
      else if rt = type_code RT_Hinfo then validate_character_strings rd (Some 2)
      else if rt = type_code RT_Txt then validate_character_strings rd None
      else if rt = type_code RT_Srv then validate_uncompressed_domain_name_at_end rd 6
      else if rt = type_code RT_Naptr then validate_naptr_rdata rd
      else if rt = type_code RT_Dname then validate_uncompressed_domain_name_rdata rd
      else if rt = type_code RT_Rrsig then and_then (validate_uncompressed_domain_name_with_trailing rd 18) (\<lambda>_. Inr ())
      else if rt = type_code RT_Dnskey then validate_dnskey_rdata rd
      else if rt = type_code RT_Nsec then validate_nsec_rdata rd
      else if rt = type_code RT_Nsec3 then validate_nsec3_rdata rd
      else if rt = type_code RT_Nsec3Param then validate_nsec3param_rdata rd
      else if rt = type_code RT_Tlsa then validate_min_rdata rd 3
      else if rt = type_code RT_Svcb \<or> rt = type_code RT_Https then validate_svcb_like_rdata rd
      else if rt = type_code RT_Uri then validate_uri_rdata rd
      else Inr ())"

definition is_prohibited_transfer_content_type :: "u16 \<Rightarrow> bool" where
  "is_prohibited_transfer_content_type rt \<longleftrightarrow> rt = type_code RT_Opt \<or> rt = type_code RT_Tkey \<or>
     rt = type_code RT_Tsig \<or> rt = type_code RT_Ixfr \<or> rt = type_code RT_Axfr \<or> rt = 253 \<or> rt = 254 \<or> rt = 255"

definition validate_record_scope :: "resource_record \<Rightarrow> domain_name \<Rightarrow> u16 \<Rightarrow> axfr_error + unit" where
  "validate_record_scope r zone_apex qclass' =
     (if rec_class r \<noteq> qclass' then Inl ClassMismatch
      else if rec_type r = 0 \<or> rec_type r = 65535 then Inl ReservedType
      else if is_prohibited_transfer_content_type (rec_type r) then Inl ProhibitedType
      else and_then (validate_known_rdata r) (\<lambda>_.
        ensure (is_equal_or_subdomain_of (owner r) zone_apex) OutOfZoneOwner))"

text \<open>
  The identity of a signature record folds the case of its signer only when nothing follows the signer
  name; a signature always does, so records of type SIG and RRSIG are compared octet by octet.
\<close>

lemma signature_identity_is_raw:
  assumes "parse_name rd 18 = Inr (signer, consumed)" "18 + consumed < length rd" "rt \<in> {24, 46}"
  shows "canonical_rdata_identity rt rd = rd"
  using assms
  by (auto simp: canonical_rdata_identity_def canonical_domain_name_rdata_identity_def canonical_one_name_def
      append_canonical_rdata_name_def)

end
