(* ===== verification/Zone_Transfer.thy ===== *)
theory Zone_Transfer
  imports Transfer_Rdata "HOL-Library.Mapping" "HOL-Library.AList_Mapping"
begin

text \<open>
  Zone transfers of \<open>crates/borondns-core/src/axfr.rs\<close>: the queries and their TCP frame, the checks
  of a response's header and question, the AXFR and SOA response parsers, the checks of the whole
  record set, and the grouping of records into RRsets.  A transferred zone is the triple of
  arguments that \<open>ZoneSnapshot::active\<close> is called with.  The standard library's hasher, which
  only speeds up the search for duplicate rdata, is the parameter \<open>hash\<close>.
\<close>

section \<open>Queries and framing\<close>

datatype tcp_frame_error = MessageTooLong nat

definition build_query :: "u16 \<Rightarrow> domain_name \<Rightarrow> u16 \<Rightarrow> u16 \<Rightarrow> bytes" where
  "build_query qid zone_apex qtype' qclass' =
     u16_bytes qid @ u16_bytes 0 @ u16_bytes 1 @ u16_bytes 0 @ u16_bytes 0 @ u16_bytes 0 @
     to_wire zone_apex @ u16_bytes qtype' @ u16_bytes qclass'"

definition build_axfr_query :: "u16 \<Rightarrow> domain_name \<Rightarrow> u16 \<Rightarrow> bytes" where
  "build_axfr_query qid zone_apex qclass' = build_query qid zone_apex (type_code RT_Axfr) qclass'"

definition build_soa_query :: "u16 \<Rightarrow> domain_name \<Rightarrow> u16 \<Rightarrow> bytes" where
  "build_soa_query qid zone_apex qclass' = build_query qid zone_apex (type_code RT_Soa) qclass'"

text \<open>\<open>arcount.saturating_add(1)\<close>, written over octets 10 and 11.\<close>

definition append_xot_opt :: "bytes \<Rightarrow> bytes" where
  "append_xot_opt message =
     (let count = be16 (message ! 10) (message ! 11);
          count = (if count = 0xffff then 0xffff else count + 1)
      in take 10 message @ u16_bytes count @ drop 12 message @
         [0] @ u16_bytes (type_code RT_Opt) @ u16_bytes 1232 @ u32_bytes 0 @ u16_bytes 0)"

definition append_record_parts :: "bytes \<Rightarrow> domain_name \<Rightarrow> u16 \<Rightarrow> u16 \<Rightarrow> u32 \<Rightarrow> bytes \<Rightarrow> bytes" where
  "append_record_parts message owner' rt class' ttl' rd =
     message @ to_wire owner' @ u16_bytes rt @ u16_bytes class' @ u32_bytes ttl' @
     u16_bytes (of_nat (length rd)) @ rd"

definition build_ixfr_query_message :: "u16 \<Rightarrow> domain_name \<Rightarrow> u16 \<Rightarrow> domain_name \<Rightarrow> u32 \<Rightarrow> bytes \<Rightarrow> bytes" where
  "build_ixfr_query_message qid zone_apex qclass' soa_owner soa_ttl soa_rdata =
     append_record_parts
       (u16_bytes qid @ u16_bytes 0 @ u16_bytes 1 @ u16_bytes 0 @ u16_bytes 1 @ u16_bytes 0 @
        to_wire zone_apex @ u16_bytes (type_code RT_Ixfr) @ u16_bytes qclass')
       soa_owner (type_code RT_Soa) qclass' soa_ttl soa_rdata"

definition frame_tcp_message :: "bytes \<Rightarrow> tcp_frame_error + bytes" where
  "frame_tcp_message message =
     (if 65535 < length message then Inl (MessageTooLong (length message))
      else Inr (u16_bytes (of_nat (length message)) @ message))"

section \<open>Questions, tails and extended errors\<close>

datatype response_question_error = QuestionMalformed | QuestionMismatched

definition validate_response_question ::
  "bytes \<Rightarrow> u16 \<Rightarrow> domain_name \<Rightarrow> u16 \<Rightarrow> u16 \<Rightarrow> response_question_error + nat" where
  "validate_response_question message qd zone_apex qtype' qclass' =
     (if qd \<noteq> 1 then Inl QuestionMismatched
      else and_then (map_err (\<lambda>_. QuestionMalformed) (parse_name message DNS_HEADER_LEN)) (\<lambda>(qname', consumed).
        let offset = DNS_HEADER_LEN + consumed in
        if length message < offset + 4 then Inl QuestionMalformed
        else if canonical_key qname' \<noteq> canonical_key zone_apex \<or>
                be16 (message ! offset) (message ! (offset + 1)) \<noteq> qtype' \<or>
                be16 (message ! (offset + 2)) (message ! (offset + 3)) \<noteq> qclass'
        then Inl QuestionMismatched
        else Inr (offset + 4)))"

definition validate_axfr_response_question ::
  "bytes \<Rightarrow> u16 \<Rightarrow> domain_name \<Rightarrow> u16 \<Rightarrow> u16 \<Rightarrow> bool \<Rightarrow> axfr_error + nat" where
  "validate_axfr_response_question message qd zone_apex qtype' qclass' require_question =
     (if qd = 0 \<and> \<not> require_question then Inr DNS_HEADER_LEN
      else map_err (\<lambda>e. case e of QuestionMalformed \<Rightarrow> MalformedMessage | QuestionMismatched \<Rightarrow> MismatchedQuestion)
             (validate_response_question message qd zone_apex qtype' qclass'))"

function option_walk :: "bytes \<Rightarrow> nat \<Rightarrow> nat \<Rightarrow> dns_parse_error + unit" where
  "option_walk message option_offset rdata_end =
     (if rdata_end \<le> option_offset then Inr ()
      else if rdata_end < option_offset + 4 then Inl FormErr
      else
        let next = option_offset + (4 + unat (be16 (message ! (option_offset + 2)) (message ! (option_offset + 3)))) in
        if rdata_end < next then Inl FormErr else option_walk message next rdata_end)"
  by pat_completeness auto
termination
  by (relation "measure (\<lambda>(message, option_offset, rdata_end). rdata_end - option_offset)") auto

declare option_walk.simps [simp del]

definition ensure_no_authority_and_only_opt_additional ::
  "bytes \<Rightarrow> nat \<Rightarrow> u16 \<Rightarrow> u16 \<Rightarrow> dns_parse_error + unit" where
  "ensure_no_authority_and_only_opt_additional message offset ns ar =
     (if ns \<noteq> 0 \<or> 1 < ar then Inl FormErr
      else
        and_then
          (if ar = 1 then
             and_then (parse_name message offset) (\<lambda>(owner', consumed).
               let offset = offset + consumed in
               if label_count owner' \<noteq> 0 \<or> length message < offset + 10 then Inl FormErr
               else
                 let rt = be16 (message ! offset) (message ! (offset + 1));
                     rdata_end = offset + 10 + unat (be16 (message ! (offset + 8)) (message ! (offset + 9)))
                 in if length message < rdata_end then Inl FormErr
                    else if rt \<noteq> type_code RT_Opt then Inl FormErr
                    else and_then (option_walk message (offset + 10) rdata_end) (\<lambda>_. Inr rdata_end))
           else Inr offset)
          (\<lambda>offset. ensure (offset = length message) FormErr))"

text \<open>\<open>std::str::from_utf8\<close>: the well-formed byte sequences of the Unicode standard.\<close>

definition continuation_byte :: "u8 \<Rightarrow> bool" where
  "continuation_byte b \<longleftrightarrow> 0x80 \<le> b \<and> b \<le> 0xbf"

fun utf8_valid :: "bytes \<Rightarrow> bool" where
  "utf8_valid [] = True"
| "utf8_valid (a # rest) =
     (if a \<le> 0x7f then utf8_valid rest
      else if 0xc2 \<le> a \<and> a \<le> 0xdf then
        (case rest of b # rest \<Rightarrow> continuation_byte b \<and> utf8_valid rest | _ \<Rightarrow> False)
      else if 0xe0 \<le> a \<and> a \<le> 0xef then
        (case rest of
           b # c # rest \<Rightarrow>
             continuation_byte b \<and> continuation_byte c \<and> (a = 0xe0 \<longrightarrow> 0xa0 \<le> b) \<and> (a = 0xed \<longrightarrow> b \<le> 0x9f) \<and>
             utf8_valid rest
         | _ \<Rightarrow> False)
      else if 0xf0 \<le> a \<and> a \<le> 0xf4 then
        (case rest of
           b # c # d # rest \<Rightarrow>
             continuation_byte b \<and> continuation_byte c \<and> continuation_byte d \<and>
             (a = 0xf0 \<longrightarrow> 0x90 \<le> b) \<and> (a = 0xf4 \<longrightarrow> b \<le> 0x8f) \<and> utf8_valid rest
         | _ \<Rightarrow> False)
      else False)"

text \<open>
  The search for an extended error stops at the first error option or at the first malformed part;
  \<open>None\<close> as the result of the outer option means that the search goes on.
\<close>

function ede_option :: "bytes \<Rightarrow> nat \<Rightarrow> transfer_extended_dns_error option option" where
  "ede_option rd option_offset =
     (if length rd \<le> option_offset then None
      else if length rd < option_offset + 4 then Some None
      else
        let option_code = be16 (rd ! option_offset) (rd ! (option_offset + 1));
            option_len = unat (be16 (rd ! (option_offset + 2)) (rd ! (option_offset + 3)));
            option_offset = option_offset + 4
        in case get_slice rd option_offset (option_offset + option_len) of
             None \<Rightarrow> Some None
           | Some opt \<Rightarrow>
               if option_code = 15 \<and> 2 \<le> length opt then
                 Some (if utf8_valid (drop 2 opt)
                       then Some \<lparr> ede_info_code = be16 (opt ! 0) (opt ! 1), ede_extra_text = drop 2 opt \<rparr>
                       else None)
               else ede_option rd (option_offset + option_len))"
  by pat_completeness auto
termination
  by (relation "measure (\<lambda>(rd, option_offset). length rd - option_offset)") auto

declare ede_option.simps [simp del]

fun skip_questions :: "nat \<Rightarrow> bytes \<Rightarrow> nat \<Rightarrow> nat option" where
  "skip_questions 0 message offset = Some offset"
| "skip_questions (Suc n) message offset =
     (case parse_name message offset of
        Inl _ \<Rightarrow> None
      | Inr (_, consumed) \<Rightarrow>
          let offset = offset + (consumed + 4) in
          if length message < offset then None else skip_questions n message offset)"

definition skip_raw_dns_record :: "bytes \<Rightarrow> nat \<Rightarrow> nat option" where
  "skip_raw_dns_record message offset =
     (case parse_name message offset of
        Inl _ \<Rightarrow> None
      | Inr (_, consumed) \<Rightarrow>
          let fixed_offset = offset + consumed in
          if length message < fixed_offset + 10 then None
          else
            let stop = fixed_offset +
              (10 + unat (be16 (message ! (fixed_offset + 8)) (message ! (fixed_offset + 9)))) in
            if stop \<le> length message then Some stop else None)"

fun skip_raw_dns_records :: "nat \<Rightarrow> bytes \<Rightarrow> nat \<Rightarrow> nat option" where
  "skip_raw_dns_records 0 message offset = Some offset"
| "skip_raw_dns_records (Suc n) message offset =
     (case skip_raw_dns_record message offset of
        None \<Rightarrow> None | Some offset \<Rightarrow> skip_raw_dns_records n message offset)"

fun ede_additional :: "nat \<Rightarrow> bytes \<Rightarrow> nat \<Rightarrow> transfer_extended_dns_error option" where
  "ede_additional 0 message offset = None"
| "ede_additional (Suc n) message offset =
     (case parse_name message offset of
        Inl _ \<Rightarrow> None
      | Inr (owner', consumed) \<Rightarrow>
          let offset = offset + consumed in
          case get_slice message offset (offset + 10) of
            None \<Rightarrow> None
          | Some fixed \<Rightarrow>
              let rt = be16 (fixed ! 0) (fixed ! 1); rdlength = unat (be16 (fixed ! 8) (fixed ! 9)); offset = offset + 10 in
              case get_slice message offset (offset + rdlength) of
                None \<Rightarrow> None
              | Some rd \<Rightarrow>
                  if label_count owner' \<noteq> 0 \<or> rt \<noteq> type_code RT_Opt
                  then ede_additional n message (offset + rdlength)
                  else (case ede_option rd 0 of
                          None \<Rightarrow> ede_additional n message (offset + rdlength)
                        | Some found \<Rightarrow> found))"

definition transfer_extended_dns_error_of :: "bytes \<Rightarrow> header \<Rightarrow> transfer_extended_dns_error option" where
  "transfer_extended_dns_error_of message h =
     (case skip_questions (unat (qdcount h)) message DNS_HEADER_LEN of
        None \<Rightarrow> None
      | Some offset \<Rightarrow>
          (case skip_raw_dns_records (unat (ancount h) + unat (nscount h)) message offset of
             None \<Rightarrow> None
           | Some offset \<Rightarrow> ede_additional (unat (arcount h)) message offset))"

definition axfr_rcode_error :: "u8 \<Rightarrow> bytes \<Rightarrow> header \<Rightarrow> axfr_error" where
  "axfr_rcode_error code message h =
     (case transfer_extended_dns_error_of message h of
        None \<Rightarrow> ErrorRcode code | Some ede \<Rightarrow> ErrorRcodeWithEde code ede)"

section \<open>The record set of a zone\<close>

definition validate_exact_apex_soa :: "domain_name \<Rightarrow> resource_record list \<Rightarrow> axfr_error + unit" where
  "validate_exact_apex_soa zone_apex records =
     (let soa_records = filter (\<lambda>r. rec_type r = type_code RT_Soa) records in
      ensure (length soa_records = 1 \<and>
              to_ascii_lowercased (owner (soa_records ! 0)) = to_ascii_lowercased zone_apex) InvalidZoneSoa)"

definition validate_apex_ns :: "domain_name \<Rightarrow> resource_record list \<Rightarrow> axfr_error + unit" where
  "validate_apex_ns zone_apex records =
     ensure (list_ex (\<lambda>r. to_ascii_lowercased (owner r) = to_ascii_lowercased zone_apex \<and>
                          rec_type r = type_code RT_Ns) records) MissingApexNs"

record owner_record_kinds =
  has_cname :: bool
  has_dname :: bool
  has_ns :: bool
  has_cname_incompatible_data :: bool
  cname_target :: "bytes option"
  dname_target :: "bytes option"

definition owner_record_kinds_default :: owner_record_kinds where
  "owner_record_kinds_default = \<lparr> has_cname = False, has_dname = False, has_ns = False,
     has_cname_incompatible_data = False, cname_target = None, dname_target = None \<rparr>"

definition is_dnssec_cname_exception_type :: "u16 \<Rightarrow> bool" where
  "is_dnssec_cname_exception_type rt \<longleftrightarrow>
     rt = type_code RT_Rrsig \<or> rt = type_code RT_Nsec \<or> rt = type_code RT_Nsec3"

definition note_record :: "resource_record \<Rightarrow> owner_record_kinds \<Rightarrow> axfr_error + owner_record_kinds" where
  "note_record r kinds =
     (if rec_type r = type_code RT_Dname then
        and_then (map_err (\<lambda>_. InvalidRdata) (from_uncompressed_wire (rec_rdata r))) (\<lambda>name.
          let target = canonical_key name in
          if (case dname_target kinds of None \<Rightarrow> False | Some existing \<Rightarrow> existing \<noteq> target)
          then Inl MultipleDnameRecords
          else Inr (kinds \<lparr> dname_target := Some target, has_dname := True \<rparr>))
      else if rec_type r = type_code RT_Cname then
        and_then (map_err (\<lambda>_. InvalidRdata) (from_uncompressed_wire (rec_rdata r))) (\<lambda>name.
          let target = canonical_key name in
          if (case cname_target kinds of None \<Rightarrow> False | Some existing \<Rightarrow> existing \<noteq> target)
          then Inl MultipleCnameRecords
          else Inr (kinds \<lparr> cname_target := Some target, has_cname := True \<rparr>))
      else if rec_type r = type_code RT_Ns then
        Inr (kinds \<lparr> has_ns := True, has_cname_incompatible_data := True \<rparr>)
      else if \<not> is_dnssec_cname_exception_type (rec_type r) then
        Inr (kinds \<lparr> has_cname_incompatible_data := True \<rparr>)
      else Inr kinds)"

fun collect_owner_kinds ::
  "resource_record list \<Rightarrow> (domain_name, owner_record_kinds) mapping
     \<Rightarrow> axfr_error + (domain_name, owner_record_kinds) mapping" where
  "collect_owner_kinds [] owner_kinds = Inr owner_kinds"
| "collect_owner_kinds (r # records) owner_kinds =
     (let owner_key = to_ascii_lowercased (owner r);
          kinds = (case Mapping.lookup owner_kinds owner_key of None \<Rightarrow> owner_record_kinds_default | Some kinds \<Rightarrow> kinds)
      in and_then (note_record r kinds) (\<lambda>kinds.
           collect_owner_kinds records (Mapping.update owner_key kinds owner_kinds)))"

definition some_owner :: "(domain_name \<Rightarrow> owner_record_kinds \<Rightarrow> bool) \<Rightarrow> (domain_name, owner_record_kinds) mapping \<Rightarrow> bool" where
  "some_owner P owner_kinds \<longleftrightarrow>
     (\<exists>owner'\<in>Mapping.keys owner_kinds.
        case Mapping.lookup owner_kinds owner' of None \<Rightarrow> False | Some kinds \<Rightarrow> P owner' kinds)"

definition validate_cname_and_dname_coexistence :: "domain_name \<Rightarrow> resource_record list \<Rightarrow> axfr_error + unit" where
  "validate_cname_and_dname_coexistence zone_apex records =
     and_then (collect_owner_kinds records Mapping.empty) (\<lambda>owner_kinds.
       if some_owner (\<lambda>_ kinds. has_dname kinds \<and> has_cname kinds) owner_kinds then Inl DnameCoexistsWithCname
       else if some_owner (\<lambda>owner' kinds. has_dname kinds \<and> has_ns kinds \<and>
                             owner' \<noteq> to_ascii_lowercased zone_apex) owner_kinds then Inl DnameCoexistsWithNs
       else if some_owner (\<lambda>_ kinds. has_cname kinds \<and> has_cname_incompatible_data kinds) owner_kinds
            then Inl CnameCoexistsWithOtherData
       else Inr ())"

definition validate_zone_record_set :: "domain_name \<Rightarrow> resource_record list \<Rightarrow> axfr_error + unit" where
  "validate_zone_record_set zone_apex records =
     and_then (validate_exact_apex_soa zone_apex records) (\<lambda>_.
     and_then (validate_apex_ns zone_apex records) (\<lambda>_.
       validate_cname_and_dname_coexistence zone_apex records))"

section \<open>RRsets\<close>

record rrset =
  rrset_owner :: domain_name
  rrset_type :: u16
  rrset_class :: u16
  rrset_ttl :: u32
  rrset_rdatas :: "bytes list"

record rrset_accumulator = rrset +
  seen_rdata_hashes :: "(u64, nat list) mapping"

type_synonym rrset_index = "(domain_name \<times> u16 \<times> u16, nat) mapping"

definition canonical_rdata_hash :: "(bytes \<Rightarrow> u64) \<Rightarrow> u16 \<Rightarrow> bytes \<Rightarrow> u64" where
  "canonical_rdata_hash hash rt rd = hash (canonical_rdata_identity rt rd)"

definition accumulate_rdata :: "(bytes \<Rightarrow> u64) \<Rightarrow> resource_record \<Rightarrow> rrset_accumulator \<Rightarrow> rrset_accumulator" where
  "accumulate_rdata hash r existing =
     (let existing = existing \<lparr> rrset_ttl := min (rrset_ttl existing) (rec_ttl r) \<rparr>;
          rdata_hash = canonical_rdata_hash hash (rec_type r) (rec_rdata r);
          indexes = (case Mapping.lookup (seen_rdata_hashes existing) rdata_hash of None \<Rightarrow> [] | Some ix \<Rightarrow> ix);
          duplicate = list_ex (\<lambda>index.
            canonical_rdata_identity (rec_type r) (rrset_rdatas existing ! index) =
            canonical_rdata_identity (rec_type r) (rec_rdata r)) indexes
      in if duplicate then existing
         else existing \<lparr> rrset_rdatas := rrset_rdatas existing @ [rec_rdata r],
                seen_rdata_hashes := Mapping.update rdata_hash (indexes @ [length (rrset_rdatas existing)])
                  (seen_rdata_hashes existing) \<rparr>)"

definition new_accumulator :: "(bytes \<Rightarrow> u64) \<Rightarrow> resource_record \<Rightarrow> rrset_accumulator" where
  "new_accumulator hash r =
     \<lparr> rrset_owner = owner r, rrset_type = rec_type r, rrset_class = rec_class r, rrset_ttl = rec_ttl r,
       rrset_rdatas = [rec_rdata r],
       seen_rdata_hashes = Mapping.update (canonical_rdata_hash hash (rec_type r) (rec_rdata r)) [0] Mapping.empty \<rparr>"

definition accumulate_record ::
  "(bytes \<Rightarrow> u64) \<Rightarrow> rrset_index \<times> rrset_accumulator list \<Rightarrow> resource_record
     \<Rightarrow> rrset_index \<times> rrset_accumulator list" where
  "accumulate_record hash = (\<lambda>(rrset_indexes, rrsets) r.
     let r = normalize_record_owner r; key = (owner r, rec_type r, rec_class r) in
     case Mapping.lookup rrset_indexes key of
       Some index \<Rightarrow> (rrset_indexes, rrsets[index := accumulate_rdata hash r (rrsets ! index)])
     | None \<Rightarrow> (Mapping.update key (length rrsets) rrset_indexes, rrsets @ [new_accumulator hash r]))"

definition rrsets_from_records :: "(bytes \<Rightarrow> u64) \<Rightarrow> resource_record list \<Rightarrow> rrset list" where
  "rrsets_from_records hash records =
     map rrset.truncate (snd (foldl (accumulate_record hash) (Mapping.empty, []) records))"

section \<open>The AXFR stream\<close>

record transferred_zone =
  zone_origin :: domain_name
  zone_serial :: "u32 option"
  zone_rrsets :: "rrset list"

record axfr_stream =
  initial_soa :: "resource_record option"
  stream_serial :: "u32 option"
  zone_records :: "resource_record list"
  complete :: bool
  saw_response_question :: bool

definition axfr_stream_start :: axfr_stream where
  "axfr_stream_start = \<lparr> initial_soa = None, stream_serial = None, zone_records = [], complete = False,
     saw_response_question = False \<rparr>"

definition axfr_record :: "domain_name \<Rightarrow> resource_record \<Rightarrow> axfr_stream \<Rightarrow> axfr_error + axfr_stream" where
  "axfr_record zone_apex r st =
     (if rec_type r = type_code RT_Soa then
        (case initial_soa st of
           None \<Rightarrow>
             if canonical_key (owner r) \<noteq> canonical_key zone_apex then Inl MissingInitialSoa
             else and_then (soa_serial (rec_rdata r)) (\<lambda>serial.
               Inr (st \<lparr> stream_serial := Some serial, initial_soa := Some r, zone_records := zone_records st @ [r] \<rparr>))
         | Some initial \<Rightarrow>
             if resource_records_semantically_equal r initial then Inr (st \<lparr> complete := True \<rparr>)
             else Inl MismatchedTerminatingSoa)
      else if initial_soa st = None then Inl MissingInitialSoa
      else Inr (st \<lparr> zone_records := zone_records st @ [r] \<rparr>))"

fun axfr_answers ::
  "nat \<Rightarrow> bytes \<Rightarrow> domain_name \<Rightarrow> u16 \<Rightarrow> nat \<Rightarrow> axfr_stream \<Rightarrow> axfr_error + (axfr_stream \<times> nat)" where
  "axfr_answers 0 message zone_apex qclass' offset st = Inr (st, offset)"
| "axfr_answers (Suc n) message zone_apex qclass' offset st =
     (if complete st then Inl TrailingRecords
      else and_then (map_err (\<lambda>_. MalformedMessage) (parse_record message offset)) (\<lambda>(r, consumed).
        and_then (validate_record_scope r zone_apex qclass') (\<lambda>_.
        and_then (axfr_record zone_apex r st) (\<lambda>st.
          axfr_answers n message zone_apex qclass' (offset + consumed) st))))"

definition header_rcode :: "header \<Rightarrow> u8" where
  "header_rcode h = ucast (flags h AND 0x000f)"

definition check_axfr_header :: "u16 \<Rightarrow> bytes \<Rightarrow> axfr_error + header" where
  "check_axfr_header qid message =
     and_then (map_err (\<lambda>_. MalformedMessage) (parse_header message)) (\<lambda>h.
       if header_id h \<noteq> qid then Inl MismatchedQid
       else if \<not> is_response h then Inl NotResponse
       else if opcode_value h \<noteq> 0 then Inl MismatchedOpcode
       else if header_rcode h \<noteq> 0 then Inl (axfr_rcode_error (header_rcode h) message h)
       else Inr h)"

definition axfr_message ::
  "u16 \<Rightarrow> domain_name \<Rightarrow> u16 \<Rightarrow> u16 \<Rightarrow> bytes \<Rightarrow> axfr_stream \<Rightarrow> axfr_error + axfr_stream" where
  "axfr_message qid zone_apex qclass' qtype' message st =
     and_then (check_axfr_header qid message) (\<lambda>h.
     and_then (validate_axfr_response_question message (qdcount h) zone_apex qtype' qclass'
                 (\<not> saw_response_question st)) (\<lambda>offset.
     and_then (axfr_answers (unat (ancount h)) message zone_apex qclass' offset
                 (if qdcount h = 1 then st \<lparr> saw_response_question := True \<rparr> else st)) (\<lambda>(st, offset).
     and_then (map_err (\<lambda>_. MalformedMessage)
                 (ensure_no_authority_and_only_opt_additional message offset (nscount h) (arcount h))) (\<lambda>_.
       Inr st))))"

fun axfr_messages ::
  "u16 \<Rightarrow> domain_name \<Rightarrow> u16 \<Rightarrow> u16 \<Rightarrow> bytes list \<Rightarrow> axfr_stream \<Rightarrow> axfr_error + axfr_stream" where
  "axfr_messages qid zone_apex qclass' qtype' [] st = Inr st"
| "axfr_messages qid zone_apex qclass' qtype' (message # messages) st =
     and_then (axfr_message qid zone_apex qclass' qtype' message st)
       (axfr_messages qid zone_apex qclass' qtype' messages)"

definition parse_axfr_response_with_question ::
  "(bytes \<Rightarrow> u64) \<Rightarrow> u16 \<Rightarrow> domain_name \<Rightarrow> u16 \<Rightarrow> u16 \<Rightarrow> bytes list \<Rightarrow> axfr_error + transferred_zone" where
  "parse_axfr_response_with_question hash qid zone_apex qclass' qtype' messages =
     (if messages = [] then Inl EmptyResponse
      else and_then (axfr_messages qid zone_apex qclass' qtype' messages axfr_stream_start) (\<lambda>st.
        if initial_soa st = None then Inl MissingInitialSoa
        else if \<not> complete st then Inl MissingTerminatingSoa
        else and_then (validate_zone_record_set zone_apex (zone_records st)) (\<lambda>_.
          Inr \<lparr> zone_origin = zone_apex, zone_serial = stream_serial st,
                zone_rrsets = rrsets_from_records hash (zone_records st) \<rparr>)))"

definition parse_axfr_response ::
  "(bytes \<Rightarrow> u64) \<Rightarrow> u16 \<Rightarrow> domain_name \<Rightarrow> u16 \<Rightarrow> bytes list \<Rightarrow> axfr_error + transferred_zone" where
  "parse_axfr_response hash qid zone_apex qclass' messages =
     parse_axfr_response_with_question hash qid zone_apex qclass' (type_code RT_Axfr) messages"

section \<open>Restoration and probes\<close>

fun normalize_checked_records :: "domain_name \<Rightarrow> u16 \<Rightarrow> resource_record list \<Rightarrow> axfr_error + resource_record list" where
  "normalize_checked_records zone_apex qclass' [] = Inr []"
| "normalize_checked_records zone_apex qclass' (r # records) =
     and_then (validate_record_scope r zone_apex qclass') (\<lambda>_.
     and_then (normalize_checked_records zone_apex qclass' records) (\<lambda>records.
       Inr (normalize_record_owner r # records)))"

definition validated_persisted_zone_snapshot ::
  "(bytes \<Rightarrow> u64) \<Rightarrow> domain_name \<Rightarrow> u16 \<Rightarrow> u32 option \<Rightarrow> resource_record list \<Rightarrow> axfr_error + transferred_zone" where
  "validated_persisted_zone_snapshot hash zone_apex qclass' serial records =
     and_then (normalize_checked_records zone_apex qclass' records) (\<lambda>records.
     and_then (validate_zone_record_set zone_apex records) (\<lambda>_.
     and_then (case List.find (\<lambda>r. rec_type r = type_code RT_Soa \<and>
                                canonical_key (owner r) = canonical_key zone_apex) records of
                 None \<Rightarrow> Inl InvalidZoneSoa | Some r \<Rightarrow> soa_serial (rec_rdata r)) (\<lambda>found.
       if serial \<noteq> Some found then Inl InvalidZoneSoa
       else Inr \<lparr> zone_origin = to_ascii_lowercased zone_apex, zone_serial = Some found,
                  zone_rrsets = rrsets_from_records hash records \<rparr>)))"

record axfr_message_probe =
  apex_soa_count :: nat
  probe_saw_question :: bool

fun count_apex_soas :: "nat \<Rightarrow> bytes \<Rightarrow> domain_name \<Rightarrow> u16 \<Rightarrow> nat \<Rightarrow> nat \<Rightarrow> axfr_error + nat" where
  "count_apex_soas 0 message zone_apex qclass' offset count = Inr count"
| "count_apex_soas (Suc n) message zone_apex qclass' offset count =
     and_then (map_err (\<lambda>_. MalformedMessage) (parse_record message offset)) (\<lambda>(r, consumed).
       count_apex_soas n message zone_apex qclass' (offset + consumed)
         (if rec_type r = type_code RT_Soa \<and> rec_class r = qclass' \<and>
             canonical_key (owner r) = canonical_key zone_apex then count + 1 else count))"

definition axfr_response_message_probe ::
  "u16 \<Rightarrow> domain_name \<Rightarrow> u16 \<Rightarrow> bytes \<Rightarrow> bool \<Rightarrow> axfr_error + axfr_message_probe" where
  "axfr_response_message_probe qid zone_apex qclass' message require_question =
     and_then (check_axfr_header qid message) (\<lambda>h.
     and_then (validate_axfr_response_question message (qdcount h) zone_apex (type_code RT_Axfr) qclass'
                 require_question) (\<lambda>offset.
     and_then (count_apex_soas (unat (ancount h)) message zone_apex qclass' offset 0) (\<lambda>count.
       Inr \<lparr> apex_soa_count = count, probe_saw_question = (qdcount h = 1) \<rparr>)))"

definition axfr_response_message_apex_soa_count ::
  "u16 \<Rightarrow> domain_name \<Rightarrow> u16 \<Rightarrow> bytes \<Rightarrow> bool \<Rightarrow> axfr_error + nat" where
  "axfr_response_message_apex_soa_count qid zone_apex qclass' message require_question =
     and_then (axfr_response_message_probe qid zone_apex qclass' message require_question)
       (\<lambda>probe. Inr (apex_soa_count probe))"

section \<open>SOA polls\<close>

datatype soa_query_error = SoaMalformedMessage | SoaNotResponse | SoaMismatchedQid | SoaMismatchedOpcode
  | SoaErrorRcode u8 | SoaErrorRcodeWithEde u8 transfer_extended_dns_error | SoaMismatchedQuestion
  | SoaTruncated | MissingSoa | SoaClassMismatch | SoaOutOfZoneOwner | SoaReservedType
  | SoaProhibitedType | SoaInvalidRdata

definition soa_rcode_error :: "u8 \<Rightarrow> bytes \<Rightarrow> header \<Rightarrow> soa_query_error" where
  "soa_rcode_error code message h =
     (case transfer_extended_dns_error_of message h of
        None \<Rightarrow> SoaErrorRcode code | Some ede \<Rightarrow> SoaErrorRcodeWithEde code ede)"

definition validate_soa_response_question :: "bytes \<Rightarrow> u16 \<Rightarrow> domain_name \<Rightarrow> u16 \<Rightarrow> soa_query_error + nat" where
  "validate_soa_response_question message qd zone_apex qclass' =
     map_err (\<lambda>e. case e of QuestionMalformed \<Rightarrow> SoaMalformedMessage | QuestionMismatched \<Rightarrow> SoaMismatchedQuestion)
       (validate_response_question message qd zone_apex (type_code RT_Soa) qclass')"

definition validate_soa_answer_scope :: "resource_record \<Rightarrow> domain_name \<Rightarrow> u16 \<Rightarrow> soa_query_error + unit" where
  "validate_soa_answer_scope r zone_apex qclass' =
     (if rec_class r \<noteq> qclass' then Inl SoaClassMismatch
      else if rec_type r = 0 \<or> rec_type r = 65535 then Inl SoaReservedType
      else if is_prohibited_transfer_content_type (rec_type r) then Inl SoaProhibitedType
      else and_then (map_err (\<lambda>_. SoaInvalidRdata) (validate_known_rdata r)) (\<lambda>_.
        ensure (is_equal_or_subdomain_of (owner r) zone_apex) SoaOutOfZoneOwner))"

fun soa_answers ::
  "nat \<Rightarrow> bytes \<Rightarrow> domain_name \<Rightarrow> u16 \<Rightarrow> nat \<Rightarrow> u32 option \<Rightarrow> soa_query_error + (u32 option \<times> nat)" where
  "soa_answers 0 message zone_apex qclass' offset serial = Inr (serial, offset)"
| "soa_answers (Suc n) message zone_apex qclass' offset serial =
     and_then (map_err (\<lambda>_. SoaMalformedMessage) (parse_record message offset)) (\<lambda>(r, consumed).
     and_then (validate_soa_answer_scope r zone_apex qclass') (\<lambda>_.
     and_then
       (if canonical_key (owner r) = canonical_key zone_apex \<and> rec_type r = type_code RT_Soa
        then and_then (map_err (\<lambda>_. SoaMalformedMessage) (soa_serial (rec_rdata r))) (\<lambda>s. Inr (Some s))
        else Inr serial)
       (\<lambda>serial. soa_answers n message zone_apex qclass' (offset + consumed) serial)))"

fun skip_parsed_records :: "nat \<Rightarrow> bytes \<Rightarrow> nat \<Rightarrow> dns_parse_error + nat" where
  "skip_parsed_records 0 message offset = Inr offset"
| "skip_parsed_records (Suc n) message offset =
     and_then (parse_record message offset) (\<lambda>(_, consumed). skip_parsed_records n message (offset + consumed))"

definition skip_authority_additional_and_ensure_end :: "bytes \<Rightarrow> nat \<Rightarrow> u16 \<Rightarrow> u16 \<Rightarrow> dns_parse_error + unit" where
  "skip_authority_additional_and_ensure_end message offset ns ar =
     and_then (skip_parsed_records (unat ns + unat ar) message offset) (\<lambda>offset.
       ensure (offset = length message) FormErr)"

definition parse_soa_response :: "u16 \<Rightarrow> domain_name \<Rightarrow> u16 \<Rightarrow> bytes \<Rightarrow> soa_query_error + u32" where
  "parse_soa_response qid zone_apex qclass' message =
     and_then (map_err (\<lambda>_. SoaMalformedMessage) (parse_header message)) (\<lambda>h.
       if header_id h \<noteq> qid then Inl SoaMismatchedQid
       else if \<not> is_response h then Inl SoaNotResponse
       else if opcode_value h \<noteq> 0 then Inl SoaMismatchedOpcode
       else if flags h AND 0x0200 \<noteq> 0 then Inl SoaTruncated
       else if header_rcode h \<noteq> 0 then Inl (soa_rcode_error (header_rcode h) message h)
       else
         and_then (validate_soa_response_question message (qdcount h) zone_apex qclass') (\<lambda>offset.
         and_then (soa_answers (unat (ancount h)) message zone_apex qclass' offset None) (\<lambda>(serial, offset).
         and_then (map_err (\<lambda>_. SoaMalformedMessage)
                     (skip_authority_additional_and_ensure_end message offset (nscount h) (arcount h))) (\<lambda>_.
           case serial of None \<Rightarrow> Inl MissingSoa | Some s \<Rightarrow> Inr s))))"

section \<open>Coexistence of records at one owner\<close>

definition alias_target :: "resource_record \<Rightarrow> bytes option" where
  "alias_target r =
     (case from_uncompressed_wire (rec_rdata r) of Inl _ \<Rightarrow> None | Inr name \<Rightarrow> Some (canonical_key name))"

abbreviation owned_by :: "domain_name \<Rightarrow> resource_record \<Rightarrow> bool" where
  "owned_by name r \<equiv> to_ascii_lowercased (owner r) = name"

abbreviation of_type :: "record_type \<Rightarrow> resource_record \<Rightarrow> bool" where
  "of_type rt r \<equiv> rec_type r = type_code rt"

text \<open>The data that no CNAME may stand beside.\<close>

definition excludes_cname :: "resource_record \<Rightarrow> bool" where
  "excludes_cname r \<longleftrightarrow> \<not> of_type RT_Cname r \<and> \<not> of_type RT_Dname r \<and> \<not> is_dnssec_cname_exception_type (rec_type r)"

text \<open>What each error of the record-set check says about the records.\<close>

fun violation :: "domain_name \<Rightarrow> resource_record list \<Rightarrow> axfr_error \<Rightarrow> bool" where
  "violation apex rs InvalidZoneSoa \<longleftrightarrow>
     (\<nexists>soa. filter (of_type RT_Soa) rs = [soa] \<and> owned_by (to_ascii_lowercased apex) soa)"
| "violation apex rs MissingApexNs \<longleftrightarrow>
     \<not> (\<exists>r\<in>set rs. of_type RT_Ns r \<and> owned_by (to_ascii_lowercased apex) r)"
| "violation apex rs InvalidRdata \<longleftrightarrow>
     (\<exists>r\<in>set rs. (of_type RT_Cname r \<or> of_type RT_Dname r) \<and> alias_target r = None)"
| "violation apex rs MultipleCnameRecords \<longleftrightarrow>
     (\<exists>r\<in>set rs. \<exists>r'\<in>set rs. of_type RT_Cname r \<and> of_type RT_Cname r' \<and>
        owned_by (to_ascii_lowercased (owner r)) r' \<and> alias_target r \<noteq> alias_target r')"
| "violation apex rs MultipleDnameRecords \<longleftrightarrow>
     (\<exists>r\<in>set rs. \<exists>r'\<in>set rs. of_type RT_Dname r \<and> of_type RT_Dname r' \<and>
        owned_by (to_ascii_lowercased (owner r)) r' \<and> alias_target r \<noteq> alias_target r')"
| "violation apex rs DnameCoexistsWithCname \<longleftrightarrow>
     (\<exists>r\<in>set rs. \<exists>r'\<in>set rs. of_type RT_Dname r \<and> of_type RT_Cname r' \<and> owned_by (to_ascii_lowercased (owner r)) r')"
| "violation apex rs DnameCoexistsWithNs \<longleftrightarrow>
     (\<exists>r\<in>set rs. \<exists>r'\<in>set rs. of_type RT_Dname r \<and> of_type RT_Ns r' \<and> owned_by (to_ascii_lowercased (owner r)) r' \<and>
        \<not> owned_by (to_ascii_lowercased apex) r)"
| "violation apex rs CnameCoexistsWithOtherData \<longleftrightarrow>
     (\<exists>r\<in>set rs. \<exists>r'\<in>set rs. of_type RT_Cname r \<and> excludes_cname r' \<and> owned_by (to_ascii_lowercased (owner r)) r')"
| "violation apex rs _ \<longleftrightarrow> False"

text \<open>The summary that the loop keeps for one owner.\<close>

definition summarises :: "resource_record list \<Rightarrow> domain_name \<Rightarrow> owner_record_kinds \<Rightarrow> bool" where
  "summarises rs name kinds \<longleftrightarrow>
     (has_cname kinds \<longleftrightarrow> (\<exists>r\<in>set rs. owned_by name r \<and> of_type RT_Cname r)) \<and>
     (has_dname kinds \<longleftrightarrow> (\<exists>r\<in>set rs. owned_by name r \<and> of_type RT_Dname r)) \<and>
     (has_ns kinds \<longleftrightarrow> (\<exists>r\<in>set rs. owned_by name r \<and> of_type RT_Ns r)) \<and>
     (has_cname_incompatible_data kinds \<longleftrightarrow> (\<exists>r\<in>set rs. owned_by name r \<and> excludes_cname r)) \<and>
     (has_cname kinds \<longleftrightarrow> cname_target kinds \<noteq> None) \<and>
     (has_dname kinds \<longleftrightarrow> dname_target kinds \<noteq> None) \<and>
     (\<forall>r\<in>set rs. owned_by name r \<and> of_type RT_Cname r \<longrightarrow> alias_target r = cname_target kinds) \<and>
     (\<forall>r\<in>set rs. owned_by name r \<and> of_type RT_Dname r \<longrightarrow> alias_target r = dname_target kinds)"

lemma summarises_default: "\<forall>r\<in>set rs. \<not> owned_by name r \<Longrightarrow> summarises rs name owner_record_kinds_default"
  by (auto simp: summarises_def owner_record_kinds_default_def)

lemma summarises_other: "\<not> owned_by name r \<Longrightarrow> summarises (rs @ [r]) name kinds \<longleftrightarrow> summarises rs name kinds"
  by (auto simp: summarises_def)

lemma type_code_distinct [simp]:
  "type_code RT_Cname \<noteq> type_code RT_Dname" "type_code RT_Ns \<noteq> type_code RT_Dname"
  "type_code RT_Ns \<noteq> type_code RT_Cname"
  by simp_all

lemma note_record_cases:
  obtains
    (dname) "of_type RT_Dname r" "alias_target r = None" "note_record r kinds = Inl InvalidRdata"
  | (dname_clash) t t' where "of_type RT_Dname r" "alias_target r = Some t" "dname_target kinds = Some t'" "t' \<noteq> t"
      "note_record r kinds = Inl MultipleDnameRecords"
  | (dname_ok) t where "of_type RT_Dname r" "alias_target r = Some t" "dname_target kinds = None \<or> dname_target kinds = Some t"
      "note_record r kinds = Inr (kinds \<lparr> dname_target := Some t, has_dname := True \<rparr>)"
  | (cname) "of_type RT_Cname r" "alias_target r = None" "note_record r kinds = Inl InvalidRdata"
  | (cname_clash) t t' where "of_type RT_Cname r" "alias_target r = Some t" "cname_target kinds = Some t'" "t' \<noteq> t"
      "note_record r kinds = Inl MultipleCnameRecords"
  | (cname_ok) t where "of_type RT_Cname r" "alias_target r = Some t" "cname_target kinds = None \<or> cname_target kinds = Some t"
      "note_record r kinds = Inr (kinds \<lparr> cname_target := Some t, has_cname := True \<rparr>)"
  | (ns) "of_type RT_Ns r" "excludes_cname r"
      "note_record r kinds = Inr (kinds \<lparr> has_ns := True, has_cname_incompatible_data := True \<rparr>)"
  | (other) "\<not> of_type RT_Ns r" "excludes_cname r"
      "note_record r kinds = Inr (kinds \<lparr> has_cname_incompatible_data := True \<rparr>)"
  | (proof_data) "\<not> of_type RT_Ns r" "\<not> of_type RT_Cname r" "\<not> of_type RT_Dname r" "\<not> excludes_cname r"
      "note_record r kinds = Inr kinds"
proof -
  consider "of_type RT_Dname r" | "of_type RT_Cname r" | "of_type RT_Ns r"
    | "\<not> of_type RT_Dname r" "\<not> of_type RT_Cname r" "\<not> of_type RT_Ns r" by blast
  then show thesis
  proof cases
    case 1
    then show thesis
      using dname dname_clash dname_ok
      by (cases "from_uncompressed_wire (rec_rdata r)"; cases "dname_target kinds")
        (auto simp: note_record_def alias_target_def Let_def split: if_splits)
  next
    case 2
    then show thesis
      using cname cname_clash cname_ok
      by (cases "from_uncompressed_wire (rec_rdata r)"; cases "cname_target kinds")
        (auto simp: note_record_def alias_target_def Let_def split: if_splits)
  next
    case 3
    then show thesis using ns by (simp add: note_record_def excludes_cname_def is_dnssec_cname_exception_type_def)
  next
    case 4
    then show thesis
      using other proof_data
      by (cases "is_dnssec_cname_exception_type (rec_type r)") (simp_all add: note_record_def excludes_cname_def)
  qed
qed

lemma bex_snoc: "(\<exists>x\<in>set (xs @ [y]). P x) \<longleftrightarrow> (\<exists>x\<in>set xs. P x) \<or> P y"
  by auto

lemma ball_snoc: "(\<forall>x\<in>set (xs @ [y]). P x) \<longleftrightarrow> (\<forall>x\<in>set xs. P x) \<and> P y"
  by auto

lemma note_record_ok:
  assumes "note_record r kinds = Inr kinds'" "summarises rs (to_ascii_lowercased (owner r)) kinds"
  shows "summarises (rs @ [r]) (to_ascii_lowercased (owner r)) kinds'"
  using assms(2) assms(1) unfolding summarises_def bex_snoc ball_snoc
  by (cases rule: note_record_cases [of r kinds]) (simp_all add: excludes_cname_def, force+)

lemma note_record_error:
  assumes "note_record r kinds = Inl e" "summarises rs (to_ascii_lowercased (owner r)) kinds"
    "set (rs @ [r]) \<subseteq> set all"
  shows "violation apex all e"
proof -
  have rs: "set rs \<subseteq> set all" and r: "r \<in> set all" using assms(3) by auto
  have "\<exists>r'\<in>set all. owned_by (to_ascii_lowercased (owner r)) r' \<and> of_type RT_Cname r' \<and> alias_target r' = Some t"
    if "cname_target kinds = Some t" for t
    using assms(2) rs that unfolding summarises_def by (metis option.discI subsetD)
  moreover have "\<exists>r'\<in>set all. owned_by (to_ascii_lowercased (owner r)) r' \<and> of_type RT_Dname r' \<and> alias_target r' = Some t"
    if "dname_target kinds = Some t" for t
    using assms(2) rs that unfolding summarises_def by (metis option.discI subsetD)
  ultimately show ?thesis
    using assms(1) r by (cases rule: note_record_cases [of r kinds]) force+
qed

definition kinds_at :: "(domain_name, owner_record_kinds) mapping \<Rightarrow> domain_name \<Rightarrow> owner_record_kinds" where
  "kinds_at m name = (case Mapping.lookup m name of None \<Rightarrow> owner_record_kinds_default | Some kinds \<Rightarrow> kinds)"

definition collected :: "resource_record list \<Rightarrow> (domain_name, owner_record_kinds) mapping \<Rightarrow> bool" where
  "collected rs m \<longleftrightarrow>
     (\<forall>name. summarises rs name (kinds_at m name) \<and>
        (Mapping.lookup m name \<noteq> None \<longleftrightarrow> (\<exists>r\<in>set rs. owned_by name r)))"

lemma collected_empty: "collected [] Mapping.empty"
  by (simp add: collected_def kinds_at_def summarises_default)

lemma collected_step:
  assumes "collected rs m" "note_record r (kinds_at m (to_ascii_lowercased (owner r))) = Inr kinds"
  shows "collected (rs @ [r]) (Mapping.update (to_ascii_lowercased (owner r)) kinds m)"
proof -
  have "summarises rs (to_ascii_lowercased (owner r)) (kinds_at m (to_ascii_lowercased (owner r)))"
    using assms(1) by (simp add: collected_def)
  from note_record_ok [OF assms(2) this] show ?thesis
    using assms(1) by (auto simp: collected_def kinds_at_def lookup_update' summarises_other)
qed

lemma collect_owner_kinds_correct:
  "collected rs m \<Longrightarrow>
    (\<forall>m'. collect_owner_kinds rs' m = Inr m' \<longrightarrow> collected (rs @ rs') m') \<and>
    (\<forall>e. collect_owner_kinds rs' m = Inl e \<longrightarrow> violation apex (rs @ rs') e)"
proof (induction rs' arbitrary: rs m)
  case (Cons r rs')
  let ?name = "to_ascii_lowercased (owner r)"
  show ?case
  proof (cases "note_record r (kinds_at m ?name)")
    case (Inl e)
    have "violation apex (rs @ r # rs') e"
      using Cons.prems by (intro note_record_error [OF Inl]) (auto simp: collected_def)
    with Inl show ?thesis by (simp add: kinds_at_def Let_def)
  next
    case (Inr kinds)
    from Cons.IH [OF collected_step [OF Cons.prems Inr]] Inr show ?thesis by (simp add: kinds_at_def Let_def)
  qed
qed simp

lemma some_owner_iff: "some_owner P m \<longleftrightarrow> (\<exists>name kinds. Mapping.lookup m name = Some kinds \<and> P name kinds)"
  by (force simp: some_owner_def keys_dom_lookup split: option.splits)

lemma collected_some_owner:
  assumes "collected rs m" "\<And>name. P name owner_record_kinds_default \<Longrightarrow> False"
  shows "some_owner P m \<longleftrightarrow> (\<exists>name. P name (kinds_at m name))"
  using assms(2) by (force simp: some_owner_iff kinds_at_def split: option.splits)

lemma collected_kinds:
  assumes "collected rs m"
  shows "has_cname (kinds_at m name) \<longleftrightarrow> (\<exists>r\<in>set rs. owned_by name r \<and> of_type RT_Cname r)"
    "has_dname (kinds_at m name) \<longleftrightarrow> (\<exists>r\<in>set rs. owned_by name r \<and> of_type RT_Dname r)"
    "has_ns (kinds_at m name) \<longleftrightarrow> (\<exists>r\<in>set rs. owned_by name r \<and> of_type RT_Ns r)"
    "has_cname_incompatible_data (kinds_at m name) \<longleftrightarrow> (\<exists>r\<in>set rs. owned_by name r \<and> excludes_cname r)"
proof -
  have "summarises rs name (kinds_at m name)" using assms by (simp add: collected_def)
  then show "has_cname (kinds_at m name) \<longleftrightarrow> (\<exists>r\<in>set rs. owned_by name r \<and> of_type RT_Cname r)"
    "has_dname (kinds_at m name) \<longleftrightarrow> (\<exists>r\<in>set rs. owned_by name r \<and> of_type RT_Dname r)"
    "has_ns (kinds_at m name) \<longleftrightarrow> (\<exists>r\<in>set rs. owned_by name r \<and> of_type RT_Ns r)"
    "has_cname_incompatible_data (kinds_at m name) \<longleftrightarrow> (\<exists>r\<in>set rs. owned_by name r \<and> excludes_cname r)"
    unfolding summarises_def by - (elim conjE, assumption)+
qed

lemma collected_targets:
  assumes "collected rs m" "r \<in> set rs"
  shows "of_type RT_Cname r \<Longrightarrow> alias_target r = cname_target (kinds_at m (to_ascii_lowercased (owner r))) \<and> alias_target r \<noteq> None"
    "of_type RT_Dname r \<Longrightarrow> alias_target r = dname_target (kinds_at m (to_ascii_lowercased (owner r))) \<and> alias_target r \<noteq> None"
  using assms unfolding collected_def summarises_def by (metis)+

text \<open>Which errors the three parts of the check can report.\<close>

lemma collected_clean:
  assumes "collected rs m"
  shows "\<not> violation apex rs InvalidRdata" "\<not> violation apex rs MultipleCnameRecords"
    "\<not> violation apex rs MultipleDnameRecords"
  using collected_targets [OF assms] by (auto simp del: type_code.simps)

lemma coexistence_owners:
  assumes "collected rs m"
  shows "some_owner (\<lambda>_ kinds. has_dname kinds \<and> has_cname kinds) m \<longleftrightarrow> violation apex rs DnameCoexistsWithCname"
    "some_owner (\<lambda>name kinds. has_dname kinds \<and> has_ns kinds \<and> name \<noteq> to_ascii_lowercased apex) m \<longleftrightarrow>
       violation apex rs DnameCoexistsWithNs"
    "some_owner (\<lambda>_ kinds. has_cname kinds \<and> has_cname_incompatible_data kinds) m \<longleftrightarrow>
       violation apex rs CnameCoexistsWithOtherData"
proof -
  have d: "\<not> has_dname owner_record_kinds_default" "\<not> has_cname owner_record_kinds_default"
    by (simp_all add: owner_record_kinds_default_def)
  show "some_owner (\<lambda>_ kinds. has_dname kinds \<and> has_cname kinds) m \<longleftrightarrow> violation apex rs DnameCoexistsWithCname"
    using d by (subst collected_some_owner [OF assms]) (auto simp: collected_kinds [OF assms])
  show "some_owner (\<lambda>name kinds. has_dname kinds \<and> has_ns kinds \<and> name \<noteq> to_ascii_lowercased apex) m \<longleftrightarrow>
       violation apex rs DnameCoexistsWithNs"
    using d by (subst collected_some_owner [OF assms]) (auto simp: collected_kinds [OF assms])
  show "some_owner (\<lambda>_ kinds. has_cname kinds \<and> has_cname_incompatible_data kinds) m \<longleftrightarrow>
       violation apex rs CnameCoexistsWithOtherData"
    using d by (subst collected_some_owner [OF assms]) (auto simp: collected_kinds [OF assms])
qed

lemma only_apex_violations:
  assumes "\<not> violation apex rs InvalidRdata" "\<not> violation apex rs MultipleCnameRecords"
    "\<not> violation apex rs MultipleDnameRecords" "\<not> violation apex rs DnameCoexistsWithCname"
    "\<not> violation apex rs DnameCoexistsWithNs" "\<not> violation apex rs CnameCoexistsWithOtherData"
  shows "\<forall>e. violation apex rs e \<longrightarrow> e = InvalidZoneSoa \<or> e = MissingApexNs"
proof (intro allI impI)
  fix e
  assume "violation apex rs e"
  with assms show "e = InvalidZoneSoa \<or> e = MissingApexNs" by (cases e) (simp_all only: violation.simps simp_thms)
qed

lemma coexistence_exact:
  "(\<forall>e. validate_cname_and_dname_coexistence apex rs = Inl e \<longrightarrow> violation apex rs e) \<and>
   (validate_cname_and_dname_coexistence apex rs = Inr () \<longrightarrow>
      (\<forall>e. violation apex rs e \<longrightarrow> e = InvalidZoneSoa \<or> e = MissingApexNs))"
proof (cases "collect_owner_kinds rs Mapping.empty")
  case (Inl e)
  with collect_owner_kinds_correct [OF collected_empty, of rs apex] show ?thesis
    by (simp add: validate_cname_and_dname_coexistence_def)
next
  case (Inr m)
  with collect_owner_kinds_correct [OF collected_empty, of rs apex] have m: "collected rs m" by simp
  show ?thesis
    using only_apex_violations [OF collected_clean [OF m, of apex]] coexistence_owners [OF m, where apex = apex] Inr
    by (simp add: validate_cname_and_dname_coexistence_def del: violation.simps)
qed

lemma singleton_iff: "(length xs = Suc 0 \<and> P (xs ! 0)) \<longleftrightarrow> (\<exists>x. xs = [x] \<and> P x)"
  by (cases xs) auto

lemma apex_soa_exact: "validate_exact_apex_soa apex rs = (if violation apex rs InvalidZoneSoa then Inl InvalidZoneSoa else Inr ())"
  unfolding validate_exact_apex_soa_def Let_def One_nat_def
    singleton_iff [where P = "owned_by (to_ascii_lowercased apex)"] by (simp add: ensure_def)

lemma apex_ns_exact: "validate_apex_ns apex rs = (if violation apex rs MissingApexNs then Inl MissingApexNs else Inr ())"
  by (auto simp: validate_apex_ns_def ensure_def list_ex_iff)

text \<open>
  C36: the check of a transferred record set accepts it exactly when it breaks none of the rules,
  and the error it reports names a rule that the records do break: one SOA and it is at the apex, an
  NS record at the apex, CNAME and DNAME rdata that are names, one target per alias owner, no CNAME
  beside a DNAME or beside data other than DNSSEC proofs, no DNAME beside NS below the apex.
\<close>

theorem zone_record_set_errors_exact:
  "(case validate_zone_record_set apex records of
      Inr _ \<Rightarrow> \<not> (\<exists>e. violation apex records e)
    | Inl e \<Rightarrow> violation apex records e)"
  using coexistence_exact [of apex records]
  by (auto simp: validate_zone_record_set_def apex_soa_exact apex_ns_exact simp del: violation.simps
      split: sum.splits if_splits)

section \<open>Grouping into RRsets\<close>

text \<open>The elements that are the first of their kind, in order.\<close>

fun firsts :: "('a \<Rightarrow> 'b) \<Rightarrow> 'b set \<Rightarrow> 'a list \<Rightarrow> 'a list" where
  "firsts f seen [] = []"
| "firsts f seen (x # xs) = (if f x \<in> seen then firsts f seen xs else x # firsts f (insert (f x) seen) xs)"

lemma firsts_snoc: "firsts f seen (xs @ [x]) = firsts f seen xs @ (if f x \<in> seen \<union> f ` set xs then [] else [x])"
  by (induction xs arbitrary: seen) auto

lemma firsts_keys: "f ` set (firsts f seen xs) = f ` set xs - seen"
  by (induction xs arbitrary: seen) auto

lemma firsts_distinct: "distinct (map f (firsts f seen xs))"
  by (induction xs arbitrary: seen) (auto simp: firsts_keys)

definition rrset_key :: "resource_record \<Rightarrow> domain_name \<times> u16 \<times> u16" where
  "rrset_key r = (to_ascii_lowercased (owner r), rec_type r, rec_class r)"

text \<open>
  The RRset of one key: the lowest TTL of its records, and the first spelling of each rdata that
  differs from the others under the record identity.
\<close>

definition grouped :: "resource_record list \<Rightarrow> domain_name \<times> u16 \<times> u16 \<Rightarrow> rrset" where
  "grouped rs = (\<lambda>(name, rt, cls).
     let g = filter (\<lambda>r. rrset_key r = (name, rt, cls)) rs in
     \<lparr> rrset_owner = name, rrset_type = rt, rrset_class = cls, rrset_ttl = Min (rec_ttl ` set g),
       rrset_rdatas = firsts (canonical_rdata_identity rt) {} (map rec_rdata g) \<rparr>)"

abbreviation rrset_keys :: "resource_record list \<Rightarrow> (domain_name \<times> u16 \<times> u16) list" where
  "rrset_keys rs \<equiv> map rrset_key (firsts rrset_key {} rs)"

definition indexes_with_hash :: "(bytes \<Rightarrow> u64) \<Rightarrow> u16 \<Rightarrow> bytes list \<Rightarrow> u64 \<Rightarrow> nat list" where
  "indexes_with_hash hash rt rds h = filter (\<lambda>i. canonical_rdata_hash hash rt (rds ! i) = h) [0..<length rds]"

definition accumulator_ok :: "(bytes \<Rightarrow> u64) \<Rightarrow> rrset \<Rightarrow> rrset_accumulator \<Rightarrow> bool" where
  "accumulator_ok hash rs acc \<longleftrightarrow> rrset.truncate acc = rs \<and>
     (\<forall>h. (case Mapping.lookup (seen_rdata_hashes acc) h of None \<Rightarrow> [] | Some ix \<Rightarrow> ix) =
        indexes_with_hash hash (rrset_type rs) (rrset_rdatas rs) h)"

lemma indexes_with_hash_snoc:
  "indexes_with_hash hash rt (rds @ [rd]) h =
    indexes_with_hash hash rt rds h @ (if canonical_rdata_hash hash rt rd = h then [length rds] else [])"
  by (auto simp: indexes_with_hash_def nth_append intro!: filter_cong)

text \<open>Equal identities have equal hashes, so the search among the rdata with the same hash is complete.\<close>

lemma duplicate_iff:
  "list_ex (\<lambda>i. canonical_rdata_identity rt (rds ! i) = canonical_rdata_identity rt rd)
     (indexes_with_hash hash rt rds (canonical_rdata_hash hash rt rd)) \<longleftrightarrow>
   canonical_rdata_identity rt rd \<in> canonical_rdata_identity rt ` set rds"
proof -
  have "list_ex (\<lambda>i. canonical_rdata_identity rt (rds ! i) = canonical_rdata_identity rt rd)
      (indexes_with_hash hash rt rds (canonical_rdata_hash hash rt rd)) \<longleftrightarrow>
    (\<exists>i<length rds. canonical_rdata_identity rt (rds ! i) = canonical_rdata_identity rt rd)"
    by (auto simp: list_ex_iff indexes_with_hash_def canonical_rdata_hash_def)
  also have "\<dots> \<longleftrightarrow> canonical_rdata_identity rt rd \<in> canonical_rdata_identity rt ` set rds"
    unfolding image_iff by (metis in_set_conv_nth)
  finally show ?thesis .
qed

lemma rrset_truncate_simps [simp]:
  "rrset_owner (rrset.truncate acc) = rrset_owner acc" "rrset_type (rrset.truncate acc) = rrset_type acc"
  "rrset_class (rrset.truncate acc) = rrset_class acc" "rrset_ttl (rrset.truncate acc) = rrset_ttl acc"
  "rrset_rdatas (rrset.truncate acc) = rrset_rdatas acc"
  by (simp_all add: rrset.truncate_def)

lemma accumulate_rdata_ok:
  assumes "accumulator_ok hash rs acc" "rec_type r = rrset_type rs"
  shows "accumulator_ok hash
    (rs \<lparr> rrset_ttl := min (rrset_ttl rs) (rec_ttl r),
          rrset_rdatas := rrset_rdatas rs @
            (if canonical_rdata_identity (rrset_type rs) (rec_rdata r) \<in>
                canonical_rdata_identity (rrset_type rs) ` set (rrset_rdatas rs) then [] else [rec_rdata r]) \<rparr>)
    (accumulate_rdata hash r acc)"
proof -
  have rs: "rs = rrset.truncate acc"
    and seen: "(case Mapping.lookup (seen_rdata_hashes acc) h of None \<Rightarrow> [] | Some ix \<Rightarrow> ix) =
        indexes_with_hash hash (rrset_type acc) (rrset_rdatas acc) h" for h
    using assms(1) by (auto simp: accumulator_ok_def)
  have rt: "rec_type r = rrset_type acc" using assms(2) by (simp add: rs)
  show ?thesis
    unfolding accumulate_rdata_def Let_def rt
    using seen
    by (auto simp: accumulator_ok_def rs duplicate_iff lookup_update' indexes_with_hash_snoc rrset.truncate_def)
qed

lemma Min_insert_ttl: "finite A \<Longrightarrow> A \<noteq> {} \<Longrightarrow> Min (insert x A) = min (Min A) (x :: u32)"
  by (simp add: Min_insert min.commute)

lemma grouped_other: "rrset_key r \<noteq> k \<Longrightarrow> grouped (rs @ [r]) k = grouped rs k"
  by (cases k) (simp add: grouped_def)

lemma grouped_snoc:
  assumes "rrset_key r \<in> rrset_key ` set rs"
  shows "grouped (rs @ [r]) (rrset_key r) =
    (let old = grouped rs (rrset_key r) in
     old \<lparr> rrset_ttl := min (rrset_ttl old) (rec_ttl r),
          rrset_rdatas := rrset_rdatas old @
            (if canonical_rdata_identity (rrset_type old) (rec_rdata r) \<in>
                canonical_rdata_identity (rrset_type old) ` set (rrset_rdatas old) then [] else [rec_rdata r]) \<rparr>)"
proof -
  let ?g = "filter (\<lambda>r'. rrset_key r' = rrset_key r) rs"
  have "set ?g \<noteq> {}" using assms by (auto simp: filter_empty_conv)
  then have "Min (insert (rec_ttl r) (rec_ttl ` set ?g)) = min (Min (rec_ttl ` set ?g)) (rec_ttl r)"
    by (intro Min_insert_ttl) auto
  then show ?thesis
    by (simp add: grouped_def rrset_key_def Let_def firsts_snoc firsts_keys image_image)
qed

lemma grouped_new:
  assumes "rrset_key r \<notin> rrset_key ` set rs"
  shows "grouped (rs @ [r]) (rrset_key r) =
    \<lparr> rrset_owner = to_ascii_lowercased (owner r), rrset_type = rec_type r, rrset_class = rec_class r,
      rrset_ttl = rec_ttl r, rrset_rdatas = [rec_rdata r] \<rparr>"
proof -
  have "filter (\<lambda>r'. rrset_key r' = rrset_key r) rs = []" using assms by (auto simp: filter_empty_conv image_iff)
  then show ?thesis by (simp add: grouped_def rrset_key_def Let_def del: set_filter)
qed

lemma new_accumulator_ok:
  "accumulator_ok hash
    \<lparr> rrset_owner = owner r, rrset_type = rec_type r, rrset_class = rec_class r, rrset_ttl = rec_ttl r,
      rrset_rdatas = [rec_rdata r] \<rparr> (new_accumulator hash r)"
  by (simp add: accumulator_ok_def new_accumulator_def rrset.truncate_def lookup_update' indexes_with_hash_def)

definition accumulated ::
  "(bytes \<Rightarrow> u64) \<Rightarrow> resource_record list \<Rightarrow> rrset_index \<times> rrset_accumulator list \<Rightarrow> bool" where
  "accumulated hash rs = (\<lambda>(ix, accs).
     list_all2 (\<lambda>k acc. accumulator_ok hash (grouped rs k) acc) (rrset_keys rs) accs \<and>
     (\<forall>k i. Mapping.lookup ix k = Some i \<longleftrightarrow> i < length (rrset_keys rs) \<and> rrset_keys rs ! i = k))"

lemma normalize_record_owner_simps [simp]:
  "owner (normalize_record_owner r) = to_ascii_lowercased (owner r)"
  "rec_type (normalize_record_owner r) = rec_type r" "rec_class (normalize_record_owner r) = rec_class r"
  "rec_ttl (normalize_record_owner r) = rec_ttl r" "rec_rdata (normalize_record_owner r) = rec_rdata r"
  by (simp_all add: normalize_record_owner_def)

lemma grouped_type: "rrset_type (grouped rs (rrset_key r)) = rec_type r"
  by (simp add: grouped_def rrset_key_def Let_def)

lemma accumulators_other:
  assumes "list_all2 (\<lambda>k acc. accumulator_ok hash (grouped rs k) acc) (rrset_keys rs) accs"
    "j < length (rrset_keys rs)" "rrset_keys rs ! j \<noteq> rrset_key r"
  shows "accumulator_ok hash (grouped (rs @ [r]) (rrset_keys rs ! j)) (accs ! j)"
  using assms by (metis grouped_other list_all2_nthD)

lemma accumulate_record_eq:
  "accumulate_record hash (ix, accs) r =
    (case Mapping.lookup ix (rrset_key r) of
       Some i \<Rightarrow> (ix, accs[i := accumulate_rdata hash (normalize_record_owner r) (accs ! i)])
     | None \<Rightarrow> (Mapping.update (rrset_key r) (length accs) ix, accs @ [new_accumulator hash (normalize_record_owner r)]))"
proof -
  have "(owner (normalize_record_owner r), rec_type (normalize_record_owner r), rec_class (normalize_record_owner r)) =
      rrset_key r" by (simp add: rrset_key_def)
  then show ?thesis by (simp only: accumulate_record_def prod.case Let_def)
qed

lemma set_rrset_keys: "set (rrset_keys rs) = rrset_key ` set rs"
  by (simp add: firsts_keys)

lemma accumulated_known:
  assumes "accumulated hash rs (ix, accs)" "rrset_key r \<in> rrset_key ` set rs"
  shows "accumulated hash (rs @ [r]) (accumulate_record hash (ix, accs) r)"
proof -
  let ?r = "normalize_record_owner r"
  have accs: "list_all2 (\<lambda>k acc. accumulator_ok hash (grouped rs k) acc) (rrset_keys rs) accs"
    and ix: "\<And>k i. Mapping.lookup ix k = Some i \<longleftrightarrow> i < length (rrset_keys rs) \<and> rrset_keys rs ! i = k"
    using assms(1) by (auto simp: accumulated_def)
  obtain i where i: "i < length (rrset_keys rs)" "rrset_keys rs ! i = rrset_key r"
    using assms(2) set_rrset_keys by (metis in_set_conv_nth)
  have ok: "accumulator_ok hash (grouped rs (rrset_key r)) (accs ! i)" using accs i by (metis list_all2_nthD)
  have "accumulator_ok hash (grouped (rs @ [r]) (rrset_key r)) (accumulate_rdata hash ?r (accs ! i))"
    using accumulate_rdata_ok [OF ok, of ?r] unfolding grouped_snoc [OF assms(2)] Let_def normalize_record_owner_simps
    by (simp only: grouped_type)
  moreover have "rrset_keys rs ! j \<noteq> rrset_key r" if "j < length (rrset_keys rs)" "j \<noteq> i" for j
    using that i firsts_distinct [of rrset_key "{}" rs] by (metis nth_eq_iff_index_eq)
  ultimately have "list_all2 (\<lambda>k acc. accumulator_ok hash (grouped (rs @ [r]) k) acc) (rrset_keys rs)
      (accs[i := accumulate_rdata hash ?r (accs ! i)])"
    using i list_all2_lengthD [OF accs] accumulators_other [OF accs]
    by (auto simp: list_all2_conv_all_nth nth_list_update simp del: nth_map length_map)
  moreover have "Mapping.lookup ix (rrset_key r) = Some i" using i ix by blast
  then have "accumulate_record hash (ix, accs) r = (ix, accs[i := accumulate_rdata hash ?r (accs ! i)])"
    by (simp add: accumulate_record_eq)
  moreover have "rrset_keys (rs @ [r]) = rrset_keys rs" using assms(2) by (simp add: firsts_snoc)
  ultimately show ?thesis using ix by (simp only: accumulated_def prod.case simp_thms)
qed

lemma accumulated_new:
  assumes "accumulated hash rs (ix, accs)" "rrset_key r \<notin> rrset_key ` set rs"
  shows "accumulated hash (rs @ [r]) (accumulate_record hash (ix, accs) r)"
proof -
  let ?r = "normalize_record_owner r"
  have accs: "list_all2 (\<lambda>k acc. accumulator_ok hash (grouped rs k) acc) (rrset_keys rs) accs"
    and ix: "\<And>k i. Mapping.lookup ix k = Some i \<longleftrightarrow> i < length (rrset_keys rs) \<and> rrset_keys rs ! i = k"
    using assms(1) by (auto simp: accumulated_def)
  have other: "rrset_keys rs ! j \<noteq> rrset_key r" if "j < length (rrset_keys rs)" for j
    using assms(2) set_rrset_keys nth_mem [OF that] by metis
  then have "list_all2 (\<lambda>k acc. accumulator_ok hash (grouped (rs @ [r]) k) acc) (rrset_keys rs) accs"
    using accumulators_other [OF accs] list_all2_lengthD [OF accs]
    by (simp add: list_all2_conv_all_nth del: nth_map)
  moreover have "accumulator_ok hash (grouped (rs @ [r]) (rrset_key r)) (new_accumulator hash ?r)"
    using new_accumulator_ok [of hash ?r] by (simp add: grouped_new [OF assms(2)])
  moreover have "Mapping.lookup ix (rrset_key r) = None"
    using ix other by (metis option.exhaust)
  then have "accumulate_record hash (ix, accs) r =
      (Mapping.update (rrset_key r) (length (rrset_keys rs)) ix, accs @ [new_accumulator hash ?r])"
    using list_all2_lengthD [OF accs] by (simp add: accumulate_record_eq)
  moreover have "rrset_keys (rs @ [r]) = rrset_keys rs @ [rrset_key r]" using assms(2) by (simp add: firsts_snoc)
  moreover have "Mapping.lookup (Mapping.update (rrset_key r) (length (rrset_keys rs)) ix) k = Some i \<longleftrightarrow>
      i < length (rrset_keys rs @ [rrset_key r]) \<and> (rrset_keys rs @ [rrset_key r]) ! i = k" for k i
    using ix [of k i] other [of i]
    by (auto simp: lookup_update' nth_append less_Suc_eq simp del: nth_map)
  ultimately show ?thesis
    by (simp only: accumulated_def prod.case simp_thms list_all2_append list_all2_Cons list_all2_Nil list_all2_appendI)
qed

lemma accumulated_step:
  "accumulated hash rs st \<Longrightarrow> accumulated hash (rs @ [r]) (accumulate_record hash st r)"
  by (cases st; cases "rrset_key r \<in> rrset_key ` set rs") (simp_all add: accumulated_known accumulated_new)

lemma rrsets_from_records_grouped:
  "rrsets_from_records hash records = map (grouped records) (rrset_keys records)"
proof -
  have "accumulated hash records (foldl (accumulate_record hash) (Mapping.empty, []) records)"
    by (induction records rule: rev_induct) (simp_all add: accumulated_step, simp add: accumulated_def)
  then obtain ix accs where st: "foldl (accumulate_record hash) (Mapping.empty, []) records = (ix, accs)"
    and accs: "list_all2 (\<lambda>k acc. accumulator_ok hash (grouped records k) acc) (rrset_keys records) accs"
    by (auto simp: accumulated_def split: prod.splits)
  from accs have "map rrset.truncate accs = map (grouped records) (rrset_keys records)"
    by (induction rule: list_all2_induct) (simp_all add: accumulator_ok_def)
  then show ?thesis by (simp add: rrsets_from_records_def st)
qed

text \<open>
  C37: grouping the records of a transfer yields one RRset per owner name (up to case), type and class,
  in the order of first appearance, with the lowest TTL of its records and the first
  spelling of each distinct rdata; the hash index that looks for duplicates never changes the result.
\<close>

theorem rrsets_group_records:
  "rrsets_from_records hash records = map (grouped records) (rrset_keys records)"
  by (rule rrsets_from_records_grouped)

section \<open>Accepted AXFR streams\<close>

fun read_records :: "nat \<Rightarrow> bytes \<Rightarrow> nat \<Rightarrow> (resource_record list \<times> nat) option" where
  "read_records 0 message offset = Some ([], offset)"
| "read_records (Suc n) message offset =
     (case parse_record message offset of
        Inl _ \<Rightarrow> None
      | Inr (r, consumed) \<Rightarrow> map_option (\<lambda>(rs, stop). (r # rs, stop)) (read_records n message (offset + consumed)))"

text \<open>
  A message of the stream holds the records \<open>rs\<close>: its header answers the query without an error, its
  question matches (only the first message must have one), and nothing but an OPT record follows
  the answers.
\<close>

definition message_holds ::
  "u16 \<Rightarrow> domain_name \<Rightarrow> u16 \<Rightarrow> u16 \<Rightarrow> bool \<Rightarrow> bytes \<Rightarrow> resource_record list \<Rightarrow> bool" where
  "message_holds qid apex cls qt needs_question message rs \<longleftrightarrow>
     (\<exists>h offset stop. check_axfr_header qid message = Inr h \<and>
        validate_axfr_response_question message (qdcount h) apex qt cls needs_question = Inr offset \<and>
        read_records (unat (ancount h)) message offset = Some (rs, stop) \<and>
        ensure_no_authority_and_only_opt_additional message stop (nscount h) (arcount h) = Inr ())"

text \<open>The answers of a complete stream: the SOA, the other records of the zone, the SOA again.\<close>

definition zone_stream :: "domain_name \<Rightarrow> resource_record \<Rightarrow> resource_record list \<Rightarrow> resource_record \<Rightarrow> u32 \<Rightarrow> bool" where
  "zone_stream apex soa body last_soa serial \<longleftrightarrow>
     rec_type soa = type_code RT_Soa \<and> canonical_key (owner soa) = canonical_key apex \<and>
     soa_serial (rec_rdata soa) = Inr serial \<and>
     (\<forall>r\<in>set body. rec_type r \<noteq> type_code RT_Soa) \<and>
     resource_records_semantically_equal last_soa soa"

fun stream_records :: "domain_name \<Rightarrow> resource_record list \<Rightarrow> axfr_stream \<Rightarrow> axfr_stream option" where
  "stream_records apex [] st = Some st"
| "stream_records apex (r # rs) st =
     (if complete st then None
      else (case axfr_record apex r st of Inl _ \<Rightarrow> None | Inr st \<Rightarrow> stream_records apex rs st))"

lemma stream_records_append:
  "stream_records apex (rs @ rs') st = Option.bind (stream_records apex rs st) (stream_records apex rs')"
  by (induction rs arbitrary: st) (auto split: sum.splits)

lemma axfr_answers_iff:
  "axfr_answers n message apex cls offset st = Inr (st', stop) \<longleftrightarrow>
    (\<exists>rs. read_records n message offset = Some (rs, stop) \<and>
       (\<forall>r\<in>set rs. validate_record_scope r apex cls = Inr ()) \<and> stream_records apex rs st = Some st')"
proof (induction n arbitrary: offset st)
  case (Suc n)
  show ?case
  proof (cases "parse_record message offset")
    case (Inr p)
    obtain r consumed where p: "p = (r, consumed)" by fastforce
    show ?thesis
      using Suc.IH [of "offset + consumed"] Inr p
      by (cases "axfr_record apex r st"; cases "complete st")
        (force simp: and_then_eq_Inr)+
  qed (auto simp: and_then_eq_Inr)
qed auto

lemma axfr_record_question:
  "axfr_record apex r (st \<lparr> saw_response_question := b \<rparr>) =
    and_then (axfr_record apex r st) (\<lambda>st. Inr (st \<lparr> saw_response_question := b \<rparr>))"
  by (cases "soa_serial (rec_rdata r)") (auto simp: axfr_record_def split: option.splits)

lemma axfr_record_keeps_question: "axfr_record apex r st = Inr st' \<Longrightarrow> saw_response_question st' = saw_response_question st"
  by (auto simp: axfr_record_def and_then_eq_Inr split: if_splits option.splits)

lemma stream_records_question:
  "stream_records apex rs (st \<lparr> saw_response_question := b \<rparr>) =
    map_option (\<lambda>st. st \<lparr> saw_response_question := b \<rparr>) (stream_records apex rs st)"
  by (induction rs arbitrary: st) (auto simp: axfr_record_question split: sum.splits)

lemma stream_records_keeps_question:
  "stream_records apex rs st = Some st' \<Longrightarrow> saw_response_question st' = saw_response_question st"
  by (induction rs arbitrary: st) (auto simp: axfr_record_keeps_question split: if_splits sum.splits)

lemma question_required:
  "validate_axfr_response_question message qd apex qt cls True = Inr offset \<Longrightarrow> qd = 1"
  by (auto simp: validate_axfr_response_question_def validate_response_question_def split: if_splits)

lemma ex_unit: "(\<exists>u :: unit. P u) \<longleftrightarrow> P ()"
  by auto

lemma axfr_message_iff:
  "axfr_message qid apex cls qt message st = Inr st' \<longleftrightarrow>
    (\<exists>h offset rs stop. check_axfr_header qid message = Inr h \<and>
       validate_axfr_response_question message (qdcount h) apex qt cls (\<not> saw_response_question st) = Inr offset \<and>
       read_records (unat (ancount h)) message offset = Some (rs, stop) \<and>
       (\<forall>r\<in>set rs. validate_record_scope r apex cls = Inr ()) \<and>
       stream_records apex rs (if qdcount h = 1 then st \<lparr> saw_response_question := True \<rparr> else st) = Some st' \<and>
       ensure_no_authority_and_only_opt_additional message stop (nscount h) (arcount h) = Inr ())"
  unfolding axfr_message_def and_then_eq_Inr
  by (simp only: and_then_eq_Inr axfr_answers_iff map_err_eq_Inr split_paired_Ex prod.case sum.inject ex_unit) blast

lemma axfr_message_first:
  assumes "\<not> saw_response_question st"
  shows "axfr_message qid apex cls qt message st = Inr st' \<longleftrightarrow>
      (\<exists>rs. message_holds qid apex cls qt True message rs \<and> (\<forall>r\<in>set rs. validate_record_scope r apex cls = Inr ()) \<and>
         stream_records apex rs (st \<lparr> saw_response_question := True \<rparr>) = Some st')"
proof
  assume "axfr_message qid apex cls qt message st = Inr st'"
  then obtain h offset rs stop where m: "check_axfr_header qid message = Inr h"
      "validate_axfr_response_question message (qdcount h) apex qt cls True = Inr offset"
      "read_records (unat (ancount h)) message offset = Some (rs, stop)"
      "\<forall>r\<in>set rs. validate_record_scope r apex cls = Inr ()"
      "ensure_no_authority_and_only_opt_additional message stop (nscount h) (arcount h) = Inr ()"
      "stream_records apex rs (if qdcount h = 1 then st \<lparr> saw_response_question := True \<rparr> else st) = Some st'"
    using assms unfolding axfr_message_iff by (simp only: not_False_eq_True) blast
  with question_required [OF m(2)] show "\<exists>rs. message_holds qid apex cls qt True message rs \<and>
      (\<forall>r\<in>set rs. validate_record_scope r apex cls = Inr ()) \<and>
      stream_records apex rs (st \<lparr> saw_response_question := True \<rparr>) = Some st'"
    unfolding message_holds_def by auto
next
  assume "\<exists>rs. message_holds qid apex cls qt True message rs \<and>
      (\<forall>r\<in>set rs. validate_record_scope r apex cls = Inr ()) \<and>
      stream_records apex rs (st \<lparr> saw_response_question := True \<rparr>) = Some st'"
  then obtain h offset rs stop where m: "check_axfr_header qid message = Inr h"
      "validate_axfr_response_question message (qdcount h) apex qt cls True = Inr offset"
      "read_records (unat (ancount h)) message offset = Some (rs, stop)"
      "\<forall>r\<in>set rs. validate_record_scope r apex cls = Inr ()"
      "ensure_no_authority_and_only_opt_additional message stop (nscount h) (arcount h) = Inr ()"
      "stream_records apex rs (st \<lparr> saw_response_question := True \<rparr>) = Some st'"
    unfolding message_holds_def by blast
  with question_required [OF m(2)] assms show "axfr_message qid apex cls qt message st = Inr st'"
    unfolding axfr_message_iff by (intro exI [of _ h] exI [of _ offset] exI [of _ rs] exI [of _ stop]) simp
qed

lemma axfr_message_later:
  assumes "saw_response_question st"
  shows "axfr_message qid apex cls qt message st = Inr st' \<longleftrightarrow>
      (\<exists>rs. message_holds qid apex cls qt False message rs \<and> (\<forall>r\<in>set rs. validate_record_scope r apex cls = Inr ()) \<and>
         stream_records apex rs st = Some st')"
proof -
  have "(if q then st \<lparr> saw_response_question := True \<rparr> else st) = st" for q using assms by simp
  with assms show ?thesis unfolding axfr_message_iff message_holds_def
    by (simp only: not_True_eq_False) blast
qed

lemma axfr_messages_iff:
  "saw_response_question st \<Longrightarrow>
    axfr_messages qid apex cls qt messages st = Inr st' \<longleftrightarrow>
      (\<exists>rss. list_all2 (message_holds qid apex cls qt False) messages rss \<and>
         (\<forall>r\<in>set (concat rss). validate_record_scope r apex cls = Inr ()) \<and>
         stream_records apex (concat rss) st = Some st')"
proof (induction messages arbitrary: st)
  case (Cons message messages)
  have "axfr_messages qid apex cls qt (message # messages) st = Inr st' \<longleftrightarrow>
    (\<exists>rs st''. message_holds qid apex cls qt False message rs \<and> (\<forall>r\<in>set rs. validate_record_scope r apex cls = Inr ()) \<and>
       stream_records apex rs st = Some st'' \<and> axfr_messages qid apex cls qt messages st'' = Inr st')"
    by (auto simp: and_then_eq_Inr axfr_message_later [OF Cons.prems])
  also have "\<dots> \<longleftrightarrow> (\<exists>rs rss. message_holds qid apex cls qt False message rs \<and>
       list_all2 (message_holds qid apex cls qt False) messages rss \<and>
       (\<forall>r\<in>set (concat (rs # rss)). validate_record_scope r apex cls = Inr ()) \<and>
       stream_records apex (concat (rs # rss)) st = Some st')"
    using Cons.IH stream_records_keeps_question Cons.prems
    by (auto simp: stream_records_append bind_eq_Some_conv ball_Un) (metis (no_types, lifting))+
  also have "\<dots> \<longleftrightarrow> (\<exists>rss. list_all2 (message_holds qid apex cls qt False) (message # messages) rss \<and>
       (\<forall>r\<in>set (concat rss). validate_record_scope r apex cls = Inr ()) \<and>
       stream_records apex (concat rss) st = Some st')"
    unfolding list_all2_Cons1 by blast
  finally show ?case .
qed auto

lemma axfr_messages_after:
  assumes "saw_response_question st"
  shows "(\<exists>st'. stream_records apex rs st = Some st' \<and> axfr_messages qid apex cls qt messages st' = Inr st'') \<longleftrightarrow>
    (\<exists>rss. list_all2 (message_holds qid apex cls qt False) messages rss \<and>
       (\<forall>r\<in>set (concat rss). validate_record_scope r apex cls = Inr ()) \<and>
       stream_records apex (rs @ concat rss) st = Some st'')"
proof (cases "stream_records apex rs st")
  case (Some st')
  with stream_records_keeps_question assms have "saw_response_question st'" by metis
  from axfr_messages_iff [OF this] Some show ?thesis by (simp add: stream_records_append)
qed (simp add: stream_records_append)

abbreviation stream_after :: "resource_record \<Rightarrow> resource_record list \<Rightarrow> u32 \<Rightarrow> bool \<Rightarrow> axfr_stream" where
  "stream_after soa body serial finished \<equiv>
     \<lparr> initial_soa = Some soa, stream_serial = Some serial, zone_records = soa # body, complete = finished,
       saw_response_question = True \<rparr>"

lemma semantically_equal_type: "resource_records_semantically_equal r r' \<Longrightarrow> rec_type r = rec_type r'"
  by (simp add: resource_records_semantically_equal_def record_key_of_def)

lemma stream_body_iff:
  assumes "rec_type soa = type_code RT_Soa"
  shows "(stream_records apex rs (stream_after soa body serial False) = Some st \<and> complete st) \<longleftrightarrow>
    (\<exists>rest final. rs = rest @ [final] \<and> (\<forall>r\<in>set rest. rec_type r \<noteq> type_code RT_Soa) \<and>
       resource_records_semantically_equal final soa \<and> st = stream_after soa (body @ rest) serial True)"
proof (induction rs arbitrary: body)
  case (Cons r rs)
  show ?case
  proof (cases "rec_type r = type_code RT_Soa")
    case True
    have "stream_records apex rs (stream_after soa body serial True) = (if rs = [] then Some (stream_after soa body serial True) else None)"
      by (cases rs) simp_all
    with True show ?thesis
      by (auto simp: axfr_record_def Cons_eq_append_conv)
  next
    case False
    then have "axfr_record apex r (stream_after soa body serial False) = Inr (stream_after soa (body @ [r]) serial False)"
      by (simp add: axfr_record_def)
    moreover have "\<not> resource_records_semantically_equal r soa"
      using False assms semantically_equal_type by metis
    ultimately show ?thesis
      using False Cons.IH [of "body @ [r]"] by (auto simp: Cons_eq_append_conv)
  qed
qed auto

lemma stream_zone_iff:
  "(\<exists>st. stream_records apex rs (axfr_stream_start \<lparr> saw_response_question := True \<rparr>) = Some st \<and>
      initial_soa st \<noteq> None \<and> complete st \<and> P st) \<longleftrightarrow>
   (\<exists>soa body final serial. rs = soa # body @ [final] \<and> zone_stream apex soa body final serial \<and>
      P (stream_after soa body serial True))"
proof (cases rs)
  case (Cons r rs')
  show ?thesis
  proof (cases "rec_type r = type_code RT_Soa \<and> canonical_key (owner r) = canonical_key apex \<and> (\<exists>s. soa_serial (rec_rdata r) = Inr s)")
    case True
    then obtain s where s: "soa_serial (rec_rdata r) = Inr s" by blast
    have "axfr_record apex r (axfr_stream_start \<lparr> saw_response_question := True \<rparr>) = Inr (stream_after r [] s False)"
      using True s by (simp add: axfr_record_def axfr_stream_start_def)
    then have "(\<exists>st. stream_records apex rs (axfr_stream_start \<lparr> saw_response_question := True \<rparr>) = Some st \<and>
        initial_soa st \<noteq> None \<and> complete st \<and> P st) \<longleftrightarrow>
      (\<exists>st. (stream_records apex rs' (stream_after r [] s False) = Some st \<and> complete st) \<and> initial_soa st \<noteq> None \<and> P st)"
      using Cons by (auto simp: axfr_stream_start_def)
    also have "\<dots> \<longleftrightarrow> (\<exists>body final. rs' = body @ [final] \<and> zone_stream apex r body final s \<and> P (stream_after r body s True))"
      using True s unfolding stream_body_iff [OF conjunct1 [OF True]] zone_stream_def by auto
    finally show ?thesis using Cons s by (auto simp: zone_stream_def)
  next
    case False
    then have "\<nexists>st. axfr_record apex r (axfr_stream_start \<lparr> saw_response_question := True \<rparr>) = Inr st"
      by (auto simp: axfr_record_def axfr_stream_start_def and_then_eq_Inr)
    with False Cons show ?thesis
      by (auto simp: zone_stream_def split: sum.splits)
  qed
qed (simp add: axfr_stream_start_def)

lemma axfr_stream_iff:
  "axfr_messages qid apex cls qt (message # rest) axfr_stream_start = Inr st \<longleftrightarrow>
    (\<exists>rs rss. message_holds qid apex cls qt True message rs \<and> list_all2 (message_holds qid apex cls qt False) rest rss \<and>
       list_all (\<lambda>r. validate_record_scope r apex cls = Inr ()) (rs @ concat rss) \<and>
       stream_records apex (rs @ concat rss) (axfr_stream_start \<lparr> saw_response_question := True \<rparr>) = Some st)"
proof -
  have "axfr_messages qid apex cls qt (message # rest) axfr_stream_start = Inr st \<longleftrightarrow>
    (\<exists>rs st'. message_holds qid apex cls qt True message rs \<and> (\<forall>r\<in>set rs. validate_record_scope r apex cls = Inr ()) \<and>
       stream_records apex rs (axfr_stream_start \<lparr> saw_response_question := True \<rparr>) = Some st' \<and>
       axfr_messages qid apex cls qt rest st' = Inr st)"
    using axfr_message_first [of axfr_stream_start] by (auto simp: and_then_eq_Inr axfr_stream_start_def)
  also have "\<dots> \<longleftrightarrow> (\<exists>rs rss. message_holds qid apex cls qt True message rs \<and> list_all2 (message_holds qid apex cls qt False) rest rss \<and>
     list_all (\<lambda>r. validate_record_scope r apex cls = Inr ()) (rs @ concat rss) \<and>
     stream_records apex (rs @ concat rss) (axfr_stream_start \<lparr> saw_response_question := True \<rparr>) = Some st)"
    using axfr_messages_after [of "axfr_stream_start \<lparr> saw_response_question := True \<rparr>" apex _ qid cls qt rest st]
    by (simp add: list_all_iff ball_Un) blast
  finally show ?thesis .
qed

text \<open>
  C35: an AXFR response is accepted exactly when its messages answer the query, the first one
  with the question, their answers together are the apex SOA, the other records of the zone, none of
  them an SOA, and the same SOA again, all of them in scope, and the record set is valid; the
  result is then the zone of these records under the serial of that SOA.
\<close>

theorem axfr_accepts_exactly:
  "parse_axfr_response_with_question hash qid apex cls qt messages = Inr zone \<longleftrightarrow>
    (\<exists>message rest rs rss soa body final serial.
       messages = message # rest \<and> message_holds qid apex cls qt True message rs \<and>
       list_all2 (message_holds qid apex cls qt False) rest rss \<and>
       rs @ concat rss = soa # body @ [final] \<and> zone_stream apex soa body final serial \<and>
       list_all (\<lambda>r. validate_record_scope r apex cls = Inr ()) (rs @ concat rss) \<and>
       validate_zone_record_set apex (soa # body) = Inr () \<and>
       zone = \<lparr> zone_origin = apex, zone_serial = Some serial, zone_rrsets = rrsets_from_records hash (soa # body) \<rparr>)"
proof (cases messages)
  case (Cons message rest)
  let ?P = "\<lambda>st. validate_zone_record_set apex (zone_records st) = Inr () \<and>
    zone = \<lparr> zone_origin = apex, zone_serial = stream_serial st,
             zone_rrsets = rrsets_from_records hash (zone_records st) \<rparr>"
  have "parse_axfr_response_with_question hash qid apex cls qt messages = Inr zone \<longleftrightarrow>
    (\<exists>st. axfr_messages qid apex cls qt messages axfr_stream_start = Inr st \<and>
       initial_soa st \<noteq> None \<and> complete st \<and> ?P st)"
    using Cons by (auto simp: parse_axfr_response_with_question_def and_then_eq_Inr split: if_splits)
  also have "\<dots> \<longleftrightarrow> (\<exists>rs rss. message_holds qid apex cls qt True message rs \<and> list_all2 (message_holds qid apex cls qt False) rest rss \<and>
       list_all (\<lambda>r. validate_record_scope r apex cls = Inr ()) (rs @ concat rss) \<and>
       (\<exists>st. stream_records apex (rs @ concat rss) (axfr_stream_start \<lparr> saw_response_question := True \<rparr>) = Some st \<and>
          initial_soa st \<noteq> None \<and> complete st \<and> ?P st))"
    unfolding Cons axfr_stream_iff by blast
  finally show ?thesis unfolding stream_zone_iff using Cons by (simp only: list.inject axfr_stream.simps) blast
qed (simp add: parse_axfr_response_with_question_def)
end
