(* ===== verification/Ixfr.thy ===== *)
theory Ixfr
  imports Zone_Transfer "HOL-Library.Multiset"
begin

text \<open>
  Incremental transfers of \<open>crates/borondns-core/src/axfr.rs\<close>: the IXFR query, the split of the
  answers into difference sequences, and the application of the differences to working copies of
  the RRsets they touch.  The zone that is held enters as the function \<open>current\<close>, the records
  that \<open>transfer_rrset_records_by_key\<close> returns for a key.
\<close>

section \<open>Deltas\<close>

type_synonym rrset_id = "bytes \<times> u16 \<times> u16"

datatype ixfr_error = InvalidCurrentSoa | IxfrEmptyResponse | IxfrMalformedMessage | IxfrMismatchedQid
  | IxfrNotResponse | IxfrMismatchedOpcode | IxfrErrorRcode u8
  | IxfrErrorRcodeWithEde u8 transfer_extended_dns_error | IxfrMismatchedQuestion | IxfrMissingInitialSoa
  | IncompleteResponse | BrokenSoaChain | SerialNotForward | DeleteAbsentRecord | AddExistingRecord
  | IxfrAxfr axfr_error

record ixfr_delta_sequence =
  old_soa :: resource_record
  deletes :: "resource_record list"
  new_soa :: resource_record
  adds :: "resource_record list"

text \<open>The sorted vector of affected RRsets is represented by the set it lists.\<close>

record ixfr_delta =
  old_serial :: u32
  new_serial :: u32
  sequences :: "ixfr_delta_sequence list"
  affected_rrsets :: "rrset_id set"

definition rrset_identity :: "resource_record \<Rightarrow> rrset_id" where
  "rrset_identity r = (canonical_key (owner r), rec_type r, rec_class r)"

definition validate_current_soa :: "resource_record \<Rightarrow> domain_name \<Rightarrow> u16 \<Rightarrow> ixfr_error + unit" where
  "validate_current_soa r zone_apex qclass' =
     (if to_ascii_lowercased (owner r) \<noteq> to_ascii_lowercased zone_apex \<or>
         rec_type r \<noteq> type_code RT_Soa \<or> rec_class r \<noteq> qclass' then Inl InvalidCurrentSoa
      else and_then (map_err (\<lambda>_. InvalidCurrentSoa) (soa_serial (rec_rdata r))) (\<lambda>_. Inr ()))"

definition build_ixfr_query :: "u16 \<Rightarrow> domain_name \<Rightarrow> u16 \<Rightarrow> resource_record \<Rightarrow> ixfr_error + bytes" where
  "build_ixfr_query qid zone_apex qclass' current_soa =
     and_then (validate_current_soa current_soa zone_apex qclass') (\<lambda>_.
       Inr (build_ixfr_query_message qid zone_apex qclass' (owner current_soa) (rec_ttl current_soa)
              (rec_rdata current_soa)))"

record soa_record_view =
  view_owner :: domain_name
  view_class :: u16
  view_ttl :: u32
  view_rdata :: bytes

definition validate_current_soa_view :: "soa_record_view \<Rightarrow> domain_name \<Rightarrow> u16 \<Rightarrow> ixfr_error + unit" where
  "validate_current_soa_view r zone_apex qclass' =
     (if to_ascii_lowercased (view_owner r) \<noteq> to_ascii_lowercased zone_apex \<or> view_class r \<noteq> qclass'
      then Inl InvalidCurrentSoa
      else and_then (map_err (\<lambda>_. InvalidCurrentSoa) (soa_serial (view_rdata r))) (\<lambda>_. Inr ()))"

definition build_ixfr_query_from_soa_view ::
  "u16 \<Rightarrow> domain_name \<Rightarrow> u16 \<Rightarrow> soa_record_view \<Rightarrow> ixfr_error + bytes" where
  "build_ixfr_query_from_soa_view qid zone_apex qclass' current_soa =
     and_then (validate_current_soa_view current_soa zone_apex qclass') (\<lambda>_.
       Inr (build_ixfr_query_message qid zone_apex qclass' (view_owner current_soa) (view_ttl current_soa)
              (view_rdata current_soa)))"

definition is_soa :: "resource_record \<Rightarrow> bool" where
  "is_soa r \<longleftrightarrow> rec_type r = type_code RT_Soa"

record delta_state =
  expected_old_soa :: resource_record
  found_sequences :: "ixfr_delta_sequence list"
  found_rrsets :: "rrset_id set"

text \<open>
  The loop over the answers after the outer SOA, on the answers not yet consumed.  The result
  tells whether the terminating SOA was seen.
\<close>

function delta_loop ::
  "domain_name \<Rightarrow> u16 \<Rightarrow> resource_record \<Rightarrow> resource_record list \<Rightarrow> delta_state
     \<Rightarrow> ixfr_error + (delta_state \<times> bool)" where
  "delta_loop zone_apex qclass' outer_soa answers st =
     (case answers of
        [] \<Rightarrow> Inr (st, False)
      | old # rest \<Rightarrow>
          if resource_records_semantically_equal old outer_soa \<and>
             resource_records_semantically_equal (expected_old_soa st) outer_soa
          then if rest \<noteq> [] then Inl BrokenSoaChain else Inr (st, True)
          else if \<not> is_soa old \<or> \<not> resource_records_semantically_equal old (expected_old_soa st)
          then Inl BrokenSoaChain
          else
            let deleted = takeWhile (\<lambda>r. \<not> is_soa r) rest in
            (case dropWhile (\<lambda>r. \<not> is_soa r) rest of
               [] \<Rightarrow> Inl IncompleteResponse
             | new # rest' \<Rightarrow>
                 if \<not> is_soa new \<or> canonical_key (owner new) \<noteq> canonical_key zone_apex \<or> rec_class new \<noteq> qclass'
                 then Inl BrokenSoaChain
                 else and_then (map_err (\<lambda>_. IxfrMalformedMessage) (soa_serial (rec_rdata new))) (\<lambda>_.
                   let added = takeWhile (\<lambda>r. \<not> is_soa r) rest' in
                   delta_loop zone_apex qclass' outer_soa (dropWhile (\<lambda>r. \<not> is_soa r) rest')
                     \<lparr> expected_old_soa = new,
                       found_sequences = found_sequences st @
                         [\<lparr> old_soa = old, deletes = deleted, new_soa = new, adds = added \<rparr>],
                       found_rrsets = found_rrsets st \<union> rrset_identity ` ({old, new} \<union> set deleted \<union> set added) \<rparr>)))"
  by pat_completeness auto
termination
proof (relation "measure (\<lambda>(zone_apex, qclass', outer_soa, answers, st). length answers)", goal_cases)
  case (2 _ _ _ answers _ old rest deleted new rest')
  have "length (dropWhile (\<lambda>r. \<not> is_soa r) rest') \<le> length rest'"
    by (simp add: length_dropWhile_le)
  moreover have "Suc (length rest') \<le> length rest"
    using 2 length_dropWhile_le [of "\<lambda>r. \<not> is_soa r" rest] by (metis length_Cons)
  ultimately show ?case using 2 by simp
qed simp

declare delta_loop.simps [simp del]

definition parse_ixfr_incremental_delta_parts ::
  "domain_name \<Rightarrow> u16 \<Rightarrow> resource_record \<Rightarrow> resource_record list \<Rightarrow> ixfr_error + (ixfr_delta \<times> bool)" where
  "parse_ixfr_incremental_delta_parts zone_apex qclass' current_soa answers =
     and_then (validate_current_soa current_soa zone_apex qclass') (\<lambda>_.
     case answers of
       [] \<Rightarrow> Inl IxfrMissingInitialSoa
     | outer_soa # rest \<Rightarrow>
         and_then (map_err (\<lambda>_. IxfrMissingInitialSoa) (validate_current_soa outer_soa zone_apex qclass')) (\<lambda>_.
         and_then (map_err (\<lambda>_. InvalidCurrentSoa) (soa_serial (rec_rdata current_soa))) (\<lambda>old.
         and_then (map_err (\<lambda>_. IxfrMalformedMessage) (soa_serial (rec_rdata outer_soa))) (\<lambda>new.
           let serial_distance = new - old in
           if serial_distance = 0 \<or> 0x80000000 \<le> serial_distance then Inl SerialNotForward
           else and_then (delta_loop zone_apex qclass' outer_soa rest
                    \<lparr> expected_old_soa = current_soa, found_sequences = [], found_rrsets = {} \<rparr>) (\<lambda>(st, terminal_soa_seen).
             and_then
               (if terminal_soa_seen then
                  and_then (map_err (\<lambda>_. IxfrMalformedMessage) (soa_serial (rec_rdata (expected_old_soa st)))) (\<lambda>final_applied_serial.
                    ensure (resource_records_semantically_equal (expected_old_soa st) outer_soa \<and>
                            final_applied_serial = new) BrokenSoaChain)
                else Inr ())
               (\<lambda>_. Inr (\<lparr> old_serial = old, new_serial = new, sequences = found_sequences st,
                          affected_rrsets = found_rrsets st \<rparr>, terminal_soa_seen)))))))"

section \<open>Working RRsets\<close>

record working_rrset =
  work_records :: "resource_record list"
  work_indexes :: "(record_key, nat) mapping"

definition working_from_records :: "resource_record list \<Rightarrow> working_rrset" where
  "working_from_records records =
     \<lparr> work_records = records,
       work_indexes = fold (\<lambda>(index, r). Mapping.update (record_key_of r) index) (enumerate 0 records) Mapping.empty \<rparr>"

text \<open>\<open>Vec::swap_remove\<close>: the last element takes the place of the removed one.\<close>

definition swap_remove :: "nat \<Rightarrow> 'a list \<Rightarrow> 'a list" where
  "swap_remove index xs = butlast (xs[index := last xs])"

definition working_remove :: "resource_record \<Rightarrow> working_rrset \<Rightarrow> working_rrset \<times> bool" where
  "working_remove r w =
     (case Mapping.lookup (work_indexes w) (record_key_of r) of
        None \<Rightarrow> (w, False)
      | Some index \<Rightarrow>
          let indexes = Mapping.delete (record_key_of r) (work_indexes w);
              records = swap_remove index (work_records w)
          in (\<lparr> work_records = records,
                work_indexes = (if index < length records
                                then Mapping.update (record_key_of (records ! index)) index indexes
                                else indexes) \<rparr>, True))"

definition working_add :: "resource_record \<Rightarrow> working_rrset \<Rightarrow> working_rrset \<times> bool" where
  "working_add r w =
     (if Mapping.lookup (work_indexes w) (record_key_of r) \<noteq> None then (w, False)
      else (\<lparr> work_records = work_records w @ [r],
              work_indexes = Mapping.update (record_key_of r) (length (work_records w)) (work_indexes w) \<rparr>, True))"

type_synonym working_rrsets = "(rrset_id, working_rrset) mapping"

definition working_entry :: "(rrset_id \<Rightarrow> resource_record list) \<Rightarrow> working_rrsets \<Rightarrow> rrset_id \<Rightarrow> working_rrset" where
  "working_entry current working key =
     (case Mapping.lookup working key of None \<Rightarrow> working_from_records (current key) | Some w \<Rightarrow> w)"

definition remove_delta_record ::
  "(rrset_id \<Rightarrow> resource_record list) \<Rightarrow> resource_record \<Rightarrow> working_rrsets \<Rightarrow> ixfr_error + working_rrsets" where
  "remove_delta_record current r working =
     (let key = rrset_identity r in
      case working_remove r (working_entry current working key) of
        (w, removed) \<Rightarrow>
          if \<not> removed then Inl DeleteAbsentRecord else Inr (Mapping.update key w working))"

definition add_delta_record ::
  "(rrset_id \<Rightarrow> resource_record list) \<Rightarrow> resource_record \<Rightarrow> working_rrsets \<Rightarrow> ixfr_error + working_rrsets" where
  "add_delta_record current r working =
     (let key = rrset_identity r in
      case working_add r (working_entry current working key) of
        (w, _) \<Rightarrow> Inr (Mapping.update key w working))"

fun delta_records ::
  "('r \<Rightarrow> 'w \<Rightarrow> ixfr_error + 'w) \<Rightarrow> 'r list \<Rightarrow> 'w \<Rightarrow> ixfr_error + 'w" where
  "delta_records step [] working = Inr working"
| "delta_records step (r # records) working = and_then (step r working) (delta_records step records)"

definition apply_delta_sequence ::
  "(rrset_id \<Rightarrow> resource_record list) \<Rightarrow> ixfr_delta_sequence \<Rightarrow> working_rrsets \<Rightarrow> ixfr_error + working_rrsets" where
  "apply_delta_sequence current s working =
     and_then (remove_delta_record current (old_soa s) working) (\<lambda>working.
     and_then (delta_records (remove_delta_record current) (deletes s) working) (\<lambda>working.
     and_then (add_delta_record current (new_soa s) working) (\<lambda>working.
       delta_records (add_delta_record current) (adds s) working)))"

definition apply_ixfr_working ::
  "(rrset_id \<Rightarrow> resource_record list) \<Rightarrow> ixfr_delta \<Rightarrow> bool \<Rightarrow> ixfr_error + working_rrsets" where
  "apply_ixfr_working current delta terminal_soa_seen =
     and_then (delta_records (apply_delta_sequence current) (sequences delta) Mapping.empty) (\<lambda>working.
       if \<not> terminal_soa_seen then Inl IncompleteResponse else Inr working)"

definition rrset_replacement :: "(bytes \<Rightarrow> u64) \<Rightarrow> working_rrset \<Rightarrow> rrset option" where
  "rrset_replacement hash w =
     (case rrsets_from_records hash (work_records w) of [] \<Rightarrow> None | rrsets \<Rightarrow> Some (last rrsets))"

definition apply_ixfr_incremental ::
  "domain_name \<Rightarrow> u16 \<Rightarrow> resource_record option \<Rightarrow> (rrset_id \<Rightarrow> resource_record list)
     \<Rightarrow> resource_record list \<Rightarrow> ixfr_error + (ixfr_delta \<times> working_rrsets)" where
  "apply_ixfr_incremental zone_apex qclass' current_soa current answers =
     (case current_soa of
        None \<Rightarrow> Inl InvalidCurrentSoa
      | Some soa \<Rightarrow>
          and_then (parse_ixfr_incremental_delta_parts zone_apex qclass' (normalize_record_owner soa) answers)
            (\<lambda>(delta, terminal_soa_seen).
          and_then (apply_ixfr_working current delta terminal_soa_seen) (\<lambda>working. Inr (delta, working))))"

section \<open>Responses\<close>

fun ixfr_scope_error :: "axfr_error \<Rightarrow> ixfr_error" where
  "ixfr_scope_error MalformedMessage = IxfrMalformedMessage"
| "ixfr_scope_error (ErrorRcode code) = IxfrErrorRcode code"
| "ixfr_scope_error (ErrorRcodeWithEde code ede) = IxfrErrorRcodeWithEde code ede"
| "ixfr_scope_error MissingInitialSoa = IxfrMissingInitialSoa"
| "ixfr_scope_error other = IxfrAxfr other"

definition validate_ixfr_response_question ::
  "bytes \<Rightarrow> u16 \<Rightarrow> domain_name \<Rightarrow> u16 \<Rightarrow> u16 \<Rightarrow> bool \<Rightarrow> ixfr_error + nat" where
  "validate_ixfr_response_question message qd zone_apex qtype' qclass' require_question =
     (if qd = 0 \<and> \<not> require_question then Inr DNS_HEADER_LEN
      else map_err (\<lambda>e. case e of QuestionMalformed \<Rightarrow> IxfrMalformedMessage | QuestionMismatched \<Rightarrow> IxfrMismatchedQuestion)
             (validate_response_question message qd zone_apex qtype' qclass'))"

definition ixfr_rcode_error :: "u8 \<Rightarrow> bytes \<Rightarrow> header \<Rightarrow> ixfr_error" where
  "ixfr_rcode_error code message h =
     (case transfer_extended_dns_error_of message h of
        None \<Rightarrow> IxfrErrorRcode code | Some ede \<Rightarrow> IxfrErrorRcodeWithEde code ede)"

definition check_ixfr_header :: "u16 \<Rightarrow> bytes \<Rightarrow> ixfr_error + header" where
  "check_ixfr_header qid message =
     and_then (map_err (\<lambda>_. IxfrMalformedMessage) (parse_header message)) (\<lambda>h.
       if header_id h \<noteq> qid then Inl IxfrMismatchedQid
       else if \<not> is_response h then Inl IxfrNotResponse
       else if opcode_value h \<noteq> 0 then Inl IxfrMismatchedOpcode
       else if header_rcode h \<noteq> 0 then Inl (ixfr_rcode_error (header_rcode h) message h)
       else Inr h)"

fun ixfr_answers ::
  "nat \<Rightarrow> bytes \<Rightarrow> domain_name \<Rightarrow> u16 \<Rightarrow> nat \<Rightarrow> ixfr_error + (resource_record list \<times> nat)" where
  "ixfr_answers 0 message zone_apex qclass' offset = Inr ([], offset)"
| "ixfr_answers (Suc n) message zone_apex qclass' offset =
     and_then (map_err (\<lambda>_. IxfrMalformedMessage) (parse_record message offset)) (\<lambda>(r, consumed).
     and_then (map_err ixfr_scope_error (validate_record_scope r zone_apex qclass')) (\<lambda>_.
     and_then (ixfr_answers n message zone_apex qclass' (offset + consumed)) (\<lambda>(answers, offset).
       Inr (normalize_record_owner r # answers, offset))))"

fun ixfr_messages ::
  "u16 \<Rightarrow> domain_name \<Rightarrow> u16 \<Rightarrow> bytes list \<Rightarrow> bool \<Rightarrow> ixfr_error + resource_record list" where
  "ixfr_messages qid zone_apex qclass' [] saw_question = Inr []"
| "ixfr_messages qid zone_apex qclass' (message # messages) saw_question =
     and_then (check_ixfr_header qid message) (\<lambda>h.
     and_then (validate_ixfr_response_question message (qdcount h) zone_apex (type_code RT_Ixfr) qclass'
                 (\<not> saw_question)) (\<lambda>offset.
     and_then (ixfr_answers (unat (ancount h)) message zone_apex qclass' offset) (\<lambda>(answers, offset).
     and_then (map_err (\<lambda>_. IxfrMalformedMessage)
                 (ensure_no_authority_and_only_opt_additional message offset (nscount h) (arcount h))) (\<lambda>_.
     and_then (ixfr_messages qid zone_apex qclass' messages (saw_question \<or> qdcount h = 1)) (\<lambda>later.
       Inr (answers @ later))))))"

text \<open>
  \<open>IxfrResponse\<close>.  An updated zone is either the zone of a full answer or the difference with the
  working RRsets that replace those of the zone that is held.
\<close>

datatype ixfr_response = IxfrCurrent | IxfrUpdatedByZone transferred_zone
  | IxfrUpdatedByDelta ixfr_delta working_rrsets

definition parse_ixfr_response ::
  "(bytes \<Rightarrow> u64) \<Rightarrow> u16 \<Rightarrow> domain_name \<Rightarrow> u16 \<Rightarrow> resource_record option \<Rightarrow> (rrset_id \<Rightarrow> resource_record list)
     \<Rightarrow> bytes list \<Rightarrow> ixfr_error + ixfr_response" where
  "parse_ixfr_response hash qid zone_apex qclass' current_soa current messages =
     (case current_soa of
        None \<Rightarrow> Inl InvalidCurrentSoa
      | Some soa \<Rightarrow>
          and_then (validate_current_soa (normalize_record_owner soa) zone_apex qclass') (\<lambda>_.
          if messages = [] then Inl IxfrEmptyResponse
          else and_then (ixfr_messages qid zone_apex qclass' messages False) (\<lambda>answers.
            case answers of
              [] \<Rightarrow> Inl IxfrMissingInitialSoa
            | first # rest \<Rightarrow>
                if canonical_key (owner first) \<noteq> canonical_key zone_apex \<or> \<not> is_soa first
                then Inl IxfrMissingInitialSoa
                else (case rest of
                   [] \<Rightarrow>
                     and_then (map_err (\<lambda>_. IxfrMalformedMessage) (soa_serial (rec_rdata first))) (\<lambda>response_serial.
                     and_then (map_err (\<lambda>_. InvalidCurrentSoa) (soa_serial (rec_rdata soa))) (\<lambda>current_serial.
                       if response_serial = current_serial then Inr IxfrCurrent else Inl IncompleteResponse))
                 | second # _ \<Rightarrow>
                     if is_soa second
                     then and_then (apply_ixfr_incremental zone_apex qclass' current_soa current answers)
                            (\<lambda>(delta, working). Inr (IxfrUpdatedByDelta delta working))
                     else map_err IxfrAxfr (and_then
                            (parse_axfr_response_with_question hash qid zone_apex qclass' (type_code RT_Ixfr) messages)
                            (\<lambda>zone. Inr (IxfrUpdatedByZone zone)))))))"

record ixfr_probe_answer =
  apex_soa_serial :: "u32 option"
  apex_soa_rdata :: "bytes option"

fun ixfr_probe_answers ::
  "nat \<Rightarrow> bytes \<Rightarrow> domain_name \<Rightarrow> u16 \<Rightarrow> nat \<Rightarrow> ixfr_error + ixfr_probe_answer list" where
  "ixfr_probe_answers 0 message zone_apex qclass' offset = Inr []"
| "ixfr_probe_answers (Suc n) message zone_apex qclass' offset =
     and_then (map_err (\<lambda>_. IxfrMalformedMessage) (parse_record message offset)) (\<lambda>(r, consumed).
     and_then (map_err ixfr_scope_error (validate_record_scope r zone_apex qclass')) (\<lambda>_.
     and_then
       (if is_soa r \<and> canonical_key (owner r) = canonical_key zone_apex
        then and_then (map_err (\<lambda>_. IxfrMalformedMessage) (soa_serial (rec_rdata r))) (\<lambda>serial.
          Inr \<lparr> apex_soa_serial = Some serial, apex_soa_rdata = Some (rec_rdata r) \<rparr>)
        else Inr \<lparr> apex_soa_serial = None, apex_soa_rdata = None \<rparr>) (\<lambda>answer.
     and_then (ixfr_probe_answers n message zone_apex qclass' (offset + consumed)) (\<lambda>answers.
       Inr (answer # answers)))))"

definition ixfr_response_message_probe ::
  "u16 \<Rightarrow> domain_name \<Rightarrow> u16 \<Rightarrow> bytes \<Rightarrow> ixfr_error + ixfr_probe_answer list" where
  "ixfr_response_message_probe qid zone_apex qclass' message =
     and_then (check_ixfr_header qid message) (\<lambda>h.
     and_then (validate_ixfr_response_question message (qdcount h) zone_apex (type_code RT_Ixfr) qclass' False) (\<lambda>offset.
       ixfr_probe_answers (unat (ancount h)) message zone_apex qclass' offset))"

section \<open>Applying differences is set arithmetic\<close>

lemma swap_remove_nth:
  assumes "index < length xs"
  shows "length (swap_remove index xs) = length xs - 1"
    and "j < length xs - 1 \<Longrightarrow> swap_remove index xs ! j = (if j = index then last xs else xs ! j)"
  using assms by (simp_all add: swap_remove_def nth_butlast nth_list_update)

lemma swap_remove_map: "index < length xs \<Longrightarrow> swap_remove index (map f xs) = map f (swap_remove index xs)"
  by (cases "xs = []") (simp_all add: swap_remove_def map_butlast map_update last_map del: map_is_Nil_conv)

text \<open>The index map is the inverse of the list of keys.\<close>

definition indexes_of :: "('k, nat) mapping \<Rightarrow> 'k list \<Rightarrow> bool" where
  "indexes_of ix ks \<longleftrightarrow> (\<forall>k i. Mapping.lookup ix k = Some i \<longleftrightarrow> i < length ks \<and> ks ! i = k)"

lemma indexes_of_set: "indexes_of ix ks \<Longrightarrow> k \<in> set ks \<longleftrightarrow> Mapping.lookup ix k \<noteq> None"
  unfolding indexes_of_def in_set_conv_nth by (metis not_None_eq)

lemma indexes_of_distinct: "indexes_of ix ks \<Longrightarrow> distinct ks"
  unfolding indexes_of_def distinct_conv_nth by (metis option.inject)

lemma indexes_of_append:
  assumes ix: "indexes_of ix ks" and new: "Mapping.lookup ix k = None"
  shows "indexes_of (Mapping.update k (length ks) ix) (ks @ [k])"
proof -
  have "k \<notin> set ks" using indexes_of_set [OF ix, of k] new by simp
  then have "ks ! i \<noteq> k" if "i < length ks" for i using that by (metis nth_mem)
  then have "Mapping.lookup (Mapping.update k (length ks) ix) k' = Some i \<longleftrightarrow>
        i < length (ks @ [k]) \<and> (ks @ [k]) ! i = k'" for k' i
    using ix by (cases "k' = k"; cases "i = length ks") (auto simp: indexes_of_def lookup_update' nth_append)
  then show ?thesis by (simp add: indexes_of_def)
qed

lemma indexes_of_swap_remove:
  assumes ix: "indexes_of ix ks" and k: "Mapping.lookup ix k = Some i"
  defines "ks' \<equiv> swap_remove i ks"
  shows "indexes_of (if i < length ks' then Mapping.update (ks' ! i) i (Mapping.delete k ix)
                     else Mapping.delete k ix) ks'"
proof -
  have look: "Mapping.lookup ix k' = Some j \<longleftrightarrow> j < length ks \<and> ks ! j = k'" for k' j
    using ix by (simp add: indexes_of_def)
  have i: "i < length ks" "ks ! i = k" using look k by auto
  have ks: "length ks' = length ks - 1" "j < length ks - 1 \<Longrightarrow> ks' ! j = (if j = i then ks ! (length ks - 1) else ks ! j)" for j
    using i swap_remove_nth [of i ks] last_conv_nth [of ks] by (cases "ks = []"; simp add: ks'_def)+
  have inj: "ks ! a = ks ! b \<longleftrightarrow> a = b" if "a < length ks" "b < length ks" for a b
    using indexes_of_distinct [OF ix] that by (simp add: nth_eq_iff_index_eq)
  show ?thesis
  proof (cases "i < length ks - 1")
    case True
    define l where "l = length ks - 1"
    have l: "l < length ks" "i < l" using True by (simp_all add: l_def)
    have "Mapping.lookup (Mapping.update (ks' ! i) i (Mapping.delete k ix)) k' = Some j \<longleftrightarrow>
          j < l \<and> ks' ! j = k'" for k' j
    proof -
      have at: "ks' ! i = ks ! l" "j < l \<Longrightarrow> j \<noteq> i \<Longrightarrow> ks' ! j = ks ! j"
        using ks(2) l(2) by (simp_all add: l_def)
      consider "k' = ks ! l" | "k' = k" "k' \<noteq> ks ! l" | "k' \<noteq> k" "k' \<noteq> ks ! l" by blast
      then show ?thesis
      proof cases
        case 1
        then show ?thesis using at l inj [of j l] by (cases "j = i") (simp_all add: lookup_update')
      next
        case 2
        then show ?thesis using at i l inj [of j i] by (cases "j = i") (simp_all add: lookup_update' lookup_delete_if)
      next
        case 3
        have "j < length ks \<and> ks ! j = k' \<longleftrightarrow> j < l \<and> ks' ! j = k'"
          using 3 at i l by (cases "j = i"; cases "j = l") (auto simp: l_def)
        then show ?thesis using 3 at(1) look by (simp add: lookup_update' lookup_delete_if)
      qed
    qed
    then show ?thesis using True by (simp add: indexes_of_def ks(1) l_def)
  next
    case False
    then have "i = length ks - 1" using i by simp
    then have "Mapping.lookup (Mapping.delete k ix) k' = Some j \<longleftrightarrow> j < length ks - 1 \<and> ks' ! j = k'" for k' j
      using i ks(2) [of j] look [of k' j] inj [of j i] by (auto simp: lookup_delete_if split: if_splits)
    then show ?thesis using False by (simp add: indexes_of_def ks(1))
  qed
qed

lemma set_swap_remove:
  assumes "distinct ks" "i < length ks"
  shows "set (swap_remove i ks) = set ks - {ks ! i}"
proof -
  have "ks \<noteq> []" using assms by auto
  then have "ks[i := last ks] \<noteq> []" "last (ks[i := last ks]) = last ks"
    using assms by (simp_all add: last_conv_nth nth_list_update)
  then have "mset (swap_remove i ks) + {#last ks#} = mset (ks[i := last ks])"
    unfolding swap_remove_def by (metis append_butlast_last_id mset.simps(1) mset.simps(2) mset_append)
  also have "\<dots> = mset ks - {#ks ! i#} + {#last ks#}"
    using assms by (simp add: mset_update)
  finally have "mset (swap_remove i ks) = mset ks - {#ks ! i#}" by simp
  then have "mset (swap_remove i ks) = mset (remove1 (ks ! i) ks)" by simp
  then have "set (swap_remove i ks) = set (remove1 (ks ! i) ks)" by (metis set_mset_mset)
  then show ?thesis using assms by simp
qed

definition work_keys :: "working_rrset \<Rightarrow> record_key list" where
  "work_keys w = map record_key_of (work_records w)"

definition work_ok :: "working_rrset \<Rightarrow> bool" where
  "work_ok w \<longleftrightarrow> indexes_of (work_indexes w) (work_keys w)"

lemma indexes_of_enumerate:
  assumes "distinct (ks @ map f xs)" "indexes_of ix ks"
  shows "indexes_of (fold (\<lambda>(index, x). Mapping.update (f x) index) (enumerate (length ks) xs) ix) (ks @ map f xs)"
  using assms
proof (induction xs arbitrary: ks ix)
  case (Cons x xs)
  have "indexes_of (Mapping.update (f x) (length ks) ix) (ks @ [f x])"
    using Cons.prems indexes_of_set [of ix ks "f x"] by (intro indexes_of_append) auto
  then show ?case using Cons.IH [of "ks @ [f x]"] Cons.prems(1) by simp
qed simp

lemma working_from_records_ok:
  assumes "distinct (map record_key_of records)"
  shows "work_ok (working_from_records records)" "work_keys (working_from_records records) = map record_key_of records"
  using indexes_of_enumerate [of "[]" record_key_of records Mapping.empty] assms
  by (simp_all add: work_ok_def work_keys_def working_from_records_def indexes_of_def)

lemma working_remove_ok:
  assumes "work_ok w" "working_remove r w = (w', removed)"
  shows "removed \<longleftrightarrow> record_key_of r \<in> set (work_keys w)"
    and "work_ok w'" and "set (work_keys w') = set (work_keys w) - {record_key_of r}"
proof -
  let ?k = "record_key_of r"
  have ix: "indexes_of (work_indexes w) (work_keys w)" using assms(1) by (simp add: work_ok_def)
  show removed: "removed \<longleftrightarrow> ?k \<in> set (work_keys w)"
    using assms(2) indexes_of_set [OF ix, of ?k] by (auto simp: working_remove_def Let_def split: option.splits)
  have "work_ok w' \<and> set (work_keys w') = set (work_keys w) - {?k}"
  proof (cases "Mapping.lookup (work_indexes w) ?k")
    case None
    then show ?thesis
      using assms indexes_of_set [OF ix, of ?k] by (auto simp: working_remove_def)
  next
    case (Some i)
    then have i: "i < length (work_keys w)" "work_keys w ! i = ?k" using ix by (auto simp: indexes_of_def)
    then have keys: "work_keys w' = swap_remove i (work_keys w)"
      using assms(2) Some by (auto simp: working_remove_def work_keys_def Let_def swap_remove_map)
    have "work_indexes w' = (if i < length (work_keys w') then Mapping.update (work_keys w' ! i) i (Mapping.delete ?k (work_indexes w))
                     else Mapping.delete ?k (work_indexes w))"
      using assms(2) Some by (auto simp: working_remove_def work_keys_def Let_def)
    then show ?thesis
      using indexes_of_swap_remove [OF ix Some] set_swap_remove [OF indexes_of_distinct [OF ix] i(1)] i(2)
      by (simp only: work_ok_def keys simp_thms)
  qed
  then show "work_ok w'" "set (work_keys w') = set (work_keys w) - {?k}" by simp_all
qed

lemma working_add_ok:
  assumes "work_ok w" "working_add r w = (w', added)"
  shows "work_ok w'" "set (work_keys w') = insert (record_key_of r) (set (work_keys w))"
proof -
  have ix: "indexes_of (work_indexes w) (work_keys w)" using assms(1) by (simp add: work_ok_def)
  have "length (work_keys w) = length (work_records w)" by (simp add: work_keys_def)
  then show "work_ok w'" "set (work_keys w') = insert (record_key_of r) (set (work_keys w))"
    using assms indexes_of_set [OF ix, of "record_key_of r"] indexes_of_append [OF ix, of "record_key_of r"]
    by (auto simp: working_add_def work_ok_def work_keys_def split: if_splits)
qed

text \<open>
  What a store of records promises to the application of differences: a deletion takes out a
  record that is there and fails otherwise, an addition is idempotent.
\<close>

locale difference_target =
  fixes ok :: "'w \<Rightarrow> bool" and contents :: "'w \<Rightarrow> record_key set"
    and del :: "resource_record \<Rightarrow> 'w \<Rightarrow> ixfr_error + 'w"
    and ins :: "resource_record \<Rightarrow> 'w \<Rightarrow> ixfr_error + 'w"
  assumes del_absent: "ok w \<Longrightarrow> record_key_of r \<notin> contents w \<Longrightarrow> del r w = Inl DeleteAbsentRecord"
    and del_present: "ok w \<Longrightarrow> record_key_of r \<in> contents w \<Longrightarrow>
      \<exists>w'. del r w = Inr w' \<and> ok w' \<and> contents w' = contents w - {record_key_of r}"
    and ins_ok: "ok w \<Longrightarrow> \<exists>w'. ins r w = Inr w' \<and> ok w' \<and> contents w' = insert (record_key_of r) (contents w)"
begin

lemma del_records:
  assumes "ok w"
  shows "if distinct (map record_key_of rs) \<and> record_key_of ` set rs \<subseteq> contents w
         then \<exists>w'. delta_records del rs w = Inr w' \<and> ok w' \<and> contents w' = contents w - record_key_of ` set rs
         else delta_records del rs w = Inl DeleteAbsentRecord"
  using assms
proof (induction rs arbitrary: w)
  case (Cons r rs)
  show ?case
  proof (cases "record_key_of r \<in> contents w")
    case True
    then obtain w' where w': "del r w = Inr w'" "ok w'" "contents w' = contents w - {record_key_of r}"
      using del_present [OF Cons.prems] by blast
    have "distinct (map record_key_of (r # rs)) \<and> record_key_of ` set (r # rs) \<subseteq> contents w \<longleftrightarrow>
          distinct (map record_key_of rs) \<and> record_key_of ` set rs \<subseteq> contents w'"
      using True w'(3) by (auto simp: image_iff)
    moreover have "contents w - record_key_of ` set (r # rs) = contents w' - record_key_of ` set rs"
      using w'(3) by auto
    ultimately show ?thesis using Cons.IH [OF w'(2)] w'(1) by simp
  qed (simp add: del_absent [OF Cons.prems])
qed simp

lemma ins_records:
  assumes "ok w"
  shows "\<exists>w'. delta_records ins rs w = Inr w' \<and> ok w' \<and> contents w' = contents w \<union> record_key_of ` set rs"
  using assms
proof (induction rs arbitrary: w)
  case (Cons r rs)
  obtain w' where w': "ins r w = Inr w'" "ok w'" "contents w' = insert (record_key_of r) (contents w)"
    using ins_ok [OF Cons.prems] by blast
  then show ?case using Cons.IH [OF w'(2)] by auto
qed simp

end

section \<open>Views of the zone\<close>

fun key_rrset :: "record_key \<Rightarrow> rrset_id" where
  "key_rrset (RecordKey name rt cls ttl' rd) = (canonical_key name, rt, cls)"

lemma rrset_identity_key: "rrset_identity r = key_rrset (record_key_of r)"
  by (simp add: rrset_identity_def record_key_of_def canonical_key_labels_text to_ascii_lowercased_def labels_text_lower)

text \<open>The RRset of a key holds records of that key, each once.\<close>

definition zone_view_ok :: "(rrset_id \<Rightarrow> resource_record list) \<Rightarrow> bool" where
  "zone_view_ok current \<longleftrightarrow>
     (\<forall>k. distinct (map record_key_of (current k)) \<and> (\<forall>r\<in>set (current k). rrset_identity r = k))"

definition working_view_ok :: "(rrset_id \<Rightarrow> resource_record list) \<Rightarrow> working_rrsets \<Rightarrow> bool" where
  "working_view_ok current working \<longleftrightarrow>
     (\<forall>k. work_ok (working_entry current working k) \<and>
          (\<forall>key\<in>set (work_keys (working_entry current working k)). key_rrset key = k))"

definition zone_contents :: "(rrset_id \<Rightarrow> resource_record list) \<Rightarrow> record_key set" where
  "zone_contents current = (\<Union>k. record_key_of ` set (current k))"

text \<open>The records of the zone once the working RRsets have replaced those of their keys.\<close>

definition working_contents :: "(rrset_id \<Rightarrow> resource_record list) \<Rightarrow> working_rrsets \<Rightarrow> record_key set" where
  "working_contents current working = zone_contents (\<lambda>k. work_records (working_entry current working k))"

lemma working_contents_iff:
  assumes "working_view_ok current working"
  shows "key \<in> working_contents current working \<longleftrightarrow> key \<in> set (work_keys (working_entry current working (key_rrset key)))"
proof -
  have "key_rrset (record_key_of r) = k" if "r \<in> set (work_records (working_entry current working k))" for k r
    using assms that by (simp add: working_view_ok_def work_keys_def del: split_paired_All)
  then show ?thesis
    unfolding working_contents_def zone_contents_def work_keys_def UN_iff set_map by (metis UNIV_I imageE)
qed

lemma working_entry_keys:
  assumes "working_view_ok current working"
  shows "key \<in> set (work_keys (working_entry current working k)) \<longleftrightarrow>
         key \<in> working_contents current working \<and> key_rrset key = k"
proof -
  have "\<forall>key\<in>set (work_keys (working_entry current working k)). key_rrset key = k"
    using assms unfolding working_view_ok_def by blast
  then show ?thesis using working_contents_iff [OF assms, of key] by auto
qed

lemma working_entry_update:
  "working_entry current (Mapping.update k w working) k' = (if k' = k then w else working_entry current working k')"
  by (simp add: working_entry_def lookup_update')

lemma working_update_ok:
  assumes ok: "working_view_ok current working" and w: "work_ok w"
    and keys: "\<And>key. key \<in> set (work_keys w) \<longleftrightarrow>
      (key \<in> working_contents current working \<and> key_rrset key = k \<and> P key) \<or> (key = new \<and> Q)"
    and new: "key_rrset new = k"
    and other: "\<And>key. key_rrset key \<noteq> k \<Longrightarrow> P key"
  shows "working_view_ok current (Mapping.update k w working)"
    and "working_contents current (Mapping.update k w working) =
           {key \<in> working_contents current working. P key} \<union> {key. key = new \<and> Q}"
proof -
  show ok': "working_view_ok current (Mapping.update k w working)"
    using ok w keys new by (simp add: working_view_ok_def working_entry_update) blast
  have "key \<in> working_contents current (Mapping.update k w working) \<longleftrightarrow>
        (key \<in> working_contents current working \<and> P key) \<or> (key = new \<and> Q)" for key
  proof (cases "key_rrset key = k")
    case True
    then show ?thesis using keys [of key] by (simp add: working_contents_iff [OF ok'] working_entry_update)
  next
    case False
    then show ?thesis using new other [of key]
      by (auto simp: working_contents_iff [OF ok'] working_contents_iff [OF ok] working_entry_update)
  qed
  then show "working_contents current (Mapping.update k w working) =
           {key \<in> working_contents current working. P key} \<union> {key. key = new \<and> Q}" by blast
qed

lemma remove_delta_record_spec:
  assumes ok: "working_view_ok current working"
  shows "if record_key_of r \<in> working_contents current working
         then \<exists>working'. remove_delta_record current r working = Inr working' \<and> working_view_ok current working' \<and>
                working_contents current working' = working_contents current working - {record_key_of r}
         else remove_delta_record current r working = Inl DeleteAbsentRecord"
proof -
  let ?k = "rrset_identity r"
  obtain w removed where w: "working_remove r (working_entry current working ?k) = (w, removed)" by fastforce
  have entry: "work_ok (working_entry current working ?k)" using ok unfolding working_view_ok_def by blast
  note removal = working_remove_ok [OF entry w]
  have removed: "removed \<longleftrightarrow> record_key_of r \<in> working_contents current working"
    using removal(1) working_contents_iff [OF ok] by (simp add: rrset_identity_key)
  have keys: "key \<in> set (work_keys w) \<longleftrightarrow>
      (key \<in> working_contents current working \<and> key_rrset key = ?k \<and> key \<noteq> record_key_of r) \<or> (key = record_key_of r \<and> False)" for key
    using removal(3) working_entry_keys [OF ok, of key ?k] by auto
  have "working_view_ok current (Mapping.update ?k w working)"
    "working_contents current (Mapping.update ?k w working) = working_contents current working - {record_key_of r}"
    using working_update_ok [OF ok removal(2) keys] by (auto simp: rrset_identity_key)
  then show ?thesis using w removed by (simp add: remove_delta_record_def Let_def)
qed

lemma add_delta_record_spec:
  assumes ok: "working_view_ok current working"
  shows "\<exists>working'. add_delta_record current r working = Inr working' \<and> working_view_ok current working' \<and>
           working_contents current working' = insert (record_key_of r) (working_contents current working)"
proof -
  let ?k = "rrset_identity r"
  obtain w added where w: "working_add r (working_entry current working ?k) = (w, added)" by fastforce
  have entry: "work_ok (working_entry current working ?k)" using ok unfolding working_view_ok_def by blast
  note addition = working_add_ok [OF entry w]
  have keys: "key \<in> set (work_keys w) \<longleftrightarrow>
      (key \<in> working_contents current working \<and> key_rrset key = ?k \<and> True) \<or> (key = record_key_of r \<and> True)" for key
    using addition(2) working_entry_keys [OF ok, of key ?k] by (auto simp: rrset_identity_key)
  have "working_view_ok current (Mapping.update ?k w working)"
    "working_contents current (Mapping.update ?k w working) = insert (record_key_of r) (working_contents current working)"
    using working_update_ok [OF ok addition(1) keys] by (auto simp: rrset_identity_key)
  then show ?thesis using w by (simp add: add_delta_record_def Let_def)
qed

interpretation dt: difference_target "working_view_ok current" "working_contents current"
  "remove_delta_record current" "add_delta_record current"
proof
  show "remove_delta_record current r w = Inl DeleteAbsentRecord"
    if "working_view_ok current w" "record_key_of r \<notin> working_contents current w" for w r
    using remove_delta_record_spec [OF that(1), of r] that(2) by simp
  show "\<exists>w'. remove_delta_record current r w = Inr w' \<and> working_view_ok current w' \<and>
          working_contents current w' = working_contents current w - {record_key_of r}"
    if "working_view_ok current w" "record_key_of r \<in> working_contents current w" for w r
    using remove_delta_record_spec [OF that(1), of r] that(2) by simp
qed (rule add_delta_record_spec)

text \<open>
  The specification of a difference sequence on the set of records: every deleted record is there
  and is deleted once, then the added records join.
\<close>

definition apply_difference :: "record_key set \<Rightarrow> ixfr_delta_sequence \<Rightarrow> record_key set option" where
  "apply_difference S s =
     (let gone = map record_key_of (old_soa s # deletes s) in
      if distinct gone \<and> set gone \<subseteq> S
      then Some (S - set gone \<union> record_key_of ` set (new_soa s # adds s)) else None)"

fun apply_differences :: "record_key set \<Rightarrow> ixfr_delta_sequence list \<Rightarrow> record_key set option" where
  "apply_differences S [] = Some S"
| "apply_differences S (s # ss) = (case apply_difference S s of None \<Rightarrow> None | Some S \<Rightarrow> apply_differences S ss)"

lemma apply_delta_sequence_alt:
  "apply_delta_sequence current s working =
     and_then (delta_records (remove_delta_record current) (old_soa s # deletes s) working)
       (delta_records (add_delta_record current) (new_soa s # adds s))"
proof -
  have "delta_records (add_delta_record current) (new_soa s # adds s) =
    (\<lambda>working. and_then (add_delta_record current (new_soa s) working) (delta_records (add_delta_record current) (adds s)))"
    by (rule ext) simp
  then show ?thesis
    by (cases "remove_delta_record current (old_soa s) working") (simp_all add: apply_delta_sequence_def)
qed

lemma apply_delta_sequence_spec:
  assumes "working_view_ok current working"
  shows "case apply_difference (working_contents current working) s of
           None \<Rightarrow> apply_delta_sequence current s working = Inl DeleteAbsentRecord
         | Some S \<Rightarrow> \<exists>working'. apply_delta_sequence current s working = Inr working' \<and>
                        working_view_ok current working' \<and> working_contents current working' = S"
proof -
  let ?gone = "old_soa s # deletes s" and ?new = "new_soa s # adds s"
  show ?thesis
  proof (cases "distinct (map record_key_of ?gone) \<and> record_key_of ` set ?gone \<subseteq> working_contents current working")
    case True
    then obtain w where w: "delta_records (remove_delta_record current) ?gone working = Inr w" "working_view_ok current w"
      "working_contents current w = working_contents current working - record_key_of ` set ?gone"
      using dt.del_records [OF assms, of ?gone] by (auto simp del: delta_records.simps)
    have "apply_difference (working_contents current working) s = Some (working_contents current w \<union> record_key_of ` set ?new)"
      using True w(3) by (simp add: apply_difference_def)
    then show ?thesis
      using dt.ins_records [OF w(2), of ?new] w(1) by (simp add: apply_delta_sequence_alt del: delta_records.simps)
  next
    case False
    then have "apply_difference (working_contents current working) s = None"
      by (simp add: apply_difference_def)
    moreover have "delta_records (remove_delta_record current) ?gone working = Inl DeleteAbsentRecord"
      using dt.del_records [OF assms, of ?gone] False by (simp del: delta_records.simps)
    ultimately show ?thesis by (simp add: apply_delta_sequence_alt del: delta_records.simps)
  qed
qed

lemma apply_delta_sequences_spec:
  assumes "working_view_ok current working"
  shows "map_sum id (working_contents current) (delta_records (apply_delta_sequence current) ss working) =
    (case apply_differences (working_contents current working) ss of None \<Rightarrow> Inl DeleteAbsentRecord | Some S \<Rightarrow> Inr S)"
  using assms
proof (induction ss arbitrary: working)
  case (Cons s ss)
  show ?case
  proof (cases "apply_difference (working_contents current working) s")
    case None
    then show ?thesis using apply_delta_sequence_spec [OF Cons.prems, of s] by simp
  next
    case (Some S)
    then obtain w where "apply_delta_sequence current s working = Inr w" "working_view_ok current w"
      "working_contents current w = S"
      using apply_delta_sequence_spec [OF Cons.prems, of s] by auto
    then show ?thesis using Cons.IH [of w] Some by simp
  qed
qed simp

lemma working_empty:
  assumes "zone_view_ok current"
  shows "working_view_ok current Mapping.empty" "working_contents current Mapping.empty = zone_contents current"
proof -
  have entry: "working_entry current Mapping.empty k = working_from_records (current k)" for k
    by (simp add: working_entry_def)
  show "working_view_ok current Mapping.empty"
    unfolding working_view_ok_def entry
  proof
    fix k
    have "distinct (map record_key_of (current k))" "\<forall>r\<in>set (current k). rrset_identity r = k"
      using assms unfolding zone_view_ok_def by blast+
    then show "work_ok (working_from_records (current k)) \<and>
        (\<forall>key\<in>set (work_keys (working_from_records (current k))). key_rrset key = k)"
      by (simp add: working_from_records_ok rrset_identity_key)
  qed
  show "working_contents current Mapping.empty = zone_contents current"
    by (simp add: working_contents_def zone_contents_def entry working_from_records_def)
qed

text \<open>
  C38: Applying the difference sequences of an incremental transfer computes the set arithmetic of
  its records.  When each RRset of the held zone lists records of its own key once, the application
  with its index maps and swap-removals fails on a deletion of a record that is absent at that
  moment, fails on a stream without the terminating SOA, and otherwise leaves exactly the records
  of the zone without the deleted and with the added ones, sequence by sequence.  The addition of
  a record that is present succeeds and changes nothing: RRsets are sets to this code, as the comment in
  \<open>add_delta_record\<close> and the change log say.  The requirement BDS-FR-IXFR-009 of the specification
  under \<open>docs\<close> wants such a stream to be aborted instead; the code diverges from it.
\<close>

theorem differences_refine_sets:
  assumes "zone_view_ok current"
  shows "map_sum id (working_contents current) (apply_ixfr_working current delta terminal_soa_seen) =
    (case apply_differences (zone_contents current) (sequences delta) of
       None \<Rightarrow> Inl DeleteAbsentRecord
     | Some S \<Rightarrow> if terminal_soa_seen then Inr S else Inl IncompleteResponse)"
  using apply_delta_sequences_spec [OF working_empty(1) [OF assms], of "sequences delta"] working_empty(2) [OF assms]
  by (cases "delta_records (apply_delta_sequence current) (sequences delta) Mapping.empty")
    (auto simp: apply_ixfr_working_def split: option.splits)

theorem differences_refine_sets_witness:
  "let soa = \<lambda>n. \<lparr> owner = root, rec_type = type_code RT_Soa, rec_class = 1, rec_ttl = n, rec_rdata = [] \<rparr>;
       held = (\<lambda>k. if k = rrset_identity (soa 1) then [soa 1] else []);
       delta = \<lparr> old_serial = 1, new_serial = 2,
         sequences = [\<lparr> old_soa = soa 1, deletes = [], new_soa = soa 2, adds = [] \<rparr>],
         affected_rrsets = {rrset_identity (soa 1)} \<rparr>
   in zone_view_ok held \<and>
      map_sum id (working_contents held) (apply_ixfr_working held delta True) = Inr {record_key_of (soa 2)}"
proof -
  define soa where "soa n = \<lparr> owner = root, rec_type = type_code RT_Soa, rec_class = 1, rec_ttl = n, rec_rdata = [] \<rparr>" for n
  define held where "held k = (if k = rrset_identity (soa 1) then [soa 1] else [])" for k
  have held: "zone_view_ok held" by (simp add: zone_view_ok_def held_def)
  have "zone_contents held = {record_key_of (soa 1)}"
    by (rule set_eqI) (auto simp: zone_contents_def held_def simp del: split_paired_Ex
        intro!: exI [of _ "rrset_identity (soa 1)"] split: if_splits)
  then have "zone_view_ok held \<and> map_sum id (working_contents held) (apply_ixfr_working held
      \<lparr> old_serial = 1, new_serial = 2, sequences = [\<lparr> old_soa = soa 1, deletes = [], new_soa = soa 2, adds = [] \<rparr>],
        affected_rrsets = {rrset_identity (soa 1)} \<rparr> True) = Inr {record_key_of (soa 2)}"
    using held by (simp add: differences_refine_sets apply_difference_def)
  then show ?thesis unfolding Let_def held_def [abs_def] soa_def .
qed

section \<open>The chain of differences\<close>

definition sequence_answers :: "ixfr_delta_sequence \<Rightarrow> resource_record list" where
  "sequence_answers s = old_soa s # deletes s @ new_soa s # adds s"

definition apex_soa :: "domain_name \<Rightarrow> u16 \<Rightarrow> resource_record \<Rightarrow> bool" where
  "apex_soa zone_apex qclass' r \<longleftrightarrow> is_soa r \<and> canonical_key (owner r) = canonical_key zone_apex \<and>
     rec_class r = qclass' \<and> (\<exists>serial. soa_serial (rec_rdata r) = Inr serial)"

text \<open>
  A sequence starts at the SOA that the zone has at that moment, as long as that is not yet the
  SOA of the response, and leads to the next SOA.
\<close>

definition difference_from :: "domain_name \<Rightarrow> u16 \<Rightarrow> resource_record \<Rightarrow> resource_record \<Rightarrow> ixfr_delta_sequence \<Rightarrow> bool" where
  "difference_from zone_apex qclass' outer at s \<longleftrightarrow>
     \<not> resource_records_semantically_equal at outer \<and>
     is_soa (old_soa s) \<and> resource_records_semantically_equal (old_soa s) at \<and>
     list_all (\<lambda>r. \<not> is_soa r) (deletes s) \<and> apex_soa zone_apex qclass' (new_soa s) \<and>
     list_all (\<lambda>r. \<not> is_soa r) (adds s)"

fun difference_chain ::
  "domain_name \<Rightarrow> u16 \<Rightarrow> resource_record \<Rightarrow> resource_record \<Rightarrow> ixfr_delta_sequence list \<Rightarrow> resource_record \<Rightarrow> bool" where
  "difference_chain zone_apex qclass' outer at [] final = (final = at)"
| "difference_chain zone_apex qclass' outer at (s # ss) final =
     (difference_from zone_apex qclass' outer at s \<and> difference_chain zone_apex qclass' outer (new_soa s) ss final)"

definition advance :: "ixfr_delta_sequence \<Rightarrow> delta_state \<Rightarrow> delta_state" where
  "advance s st = \<lparr> expected_old_soa = new_soa s, found_sequences = found_sequences st @ [s],
     found_rrsets = found_rrsets st \<union> rrset_identity ` set (sequence_answers s) \<rparr>"

definition starts_with_soa :: "resource_record list \<Rightarrow> bool" where
  "starts_with_soa rs \<longleftrightarrow> (case rs of [] \<Rightarrow> True | r # _ \<Rightarrow> is_soa r)"

lemma while_not_soa:
  assumes "list_all (\<lambda>r. \<not> is_soa r) xs" "starts_with_soa ys"
  shows "takeWhile (\<lambda>r. \<not> is_soa r) (xs @ ys) = xs" "dropWhile (\<lambda>r. \<not> is_soa r) (xs @ ys) = ys"
proof -
  have "\<And>r. r \<in> set xs \<Longrightarrow> \<not> is_soa r" using assms(1) by (simp add: list_all_iff)
  then show "takeWhile (\<lambda>r. \<not> is_soa r) (xs @ ys) = xs" "dropWhile (\<lambda>r. \<not> is_soa r) (xs @ ys) = ys"
    using assms(2) by (simp_all add: takeWhile_append2 dropWhile_append2 starts_with_soa_def split: list.splits)
qed

lemma semantically_equal_trans:
  "resource_records_semantically_equal a b \<Longrightarrow> resource_records_semantically_equal b c \<Longrightarrow> resource_records_semantically_equal a c"
  "resource_records_semantically_equal a b \<Longrightarrow> resource_records_semantically_equal b a"
  by (simp_all add: resource_records_semantically_equal_def)

lemma delta_loop_sequence:
  assumes s: "difference_from zone_apex qclass' outer (expected_old_soa st) s" and rest: "starts_with_soa rest"
  shows "delta_loop zone_apex qclass' outer (sequence_answers s @ rest) st =
         delta_loop zone_apex qclass' outer rest (advance s st)"
proof -
  obtain serial where new: "is_soa (new_soa s)" "canonical_key (owner (new_soa s)) = canonical_key zone_apex"
    "rec_class (new_soa s) = qclass'" "soa_serial (rec_rdata (new_soa s)) = Inr serial"
    using s by (auto simp: difference_from_def apex_soa_def)
  have "starts_with_soa (new_soa s # adds s @ rest)" using new(1) by (simp add: starts_with_soa_def)
  moreover have "list_all (\<lambda>r. \<not> is_soa r) (deletes s)" "list_all (\<lambda>r. \<not> is_soa r) (adds s)"
    using s by (simp_all add: difference_from_def)
  ultimately have split:
    "takeWhile (\<lambda>r. \<not> is_soa r) (deletes s @ new_soa s # adds s @ rest) = deletes s"
    "dropWhile (\<lambda>r. \<not> is_soa r) (deletes s @ new_soa s # adds s @ rest) = new_soa s # adds s @ rest"
    "takeWhile (\<lambda>r. \<not> is_soa r) (adds s @ rest) = adds s" "dropWhile (\<lambda>r. \<not> is_soa r) (adds s @ rest) = rest"
    using rest by (simp_all only: while_not_soa)
  have old: "\<not> resource_records_semantically_equal (expected_old_soa st) outer" "is_soa (old_soa s)"
    "resource_records_semantically_equal (old_soa s) (expected_old_soa st)"
    using s by (simp_all add: difference_from_def)
  have ids: "{old_soa s, new_soa s} \<union> set (deletes s) \<union> set (adds s) = set (sequence_answers s)"
    by (auto simp: sequence_answers_def)
  have eta: "\<lparr> old_soa = old_soa s, deletes = deletes s, new_soa = new_soa s, adds = adds s \<rparr> = s" by simp
  show ?thesis
    unfolding delta_loop.simps [of _ _ _ "sequence_answers s @ rest"]
    by (simp add: sequence_answers_def old split new Let_def advance_def eta ids [unfolded sequence_answers_def, simplified])
qed

lemma delta_loop_chain:
  assumes "difference_chain zone_apex qclass' outer (expected_old_soa st) ss final" "starts_with_soa rest"
  shows "delta_loop zone_apex qclass' outer (concat (map sequence_answers ss) @ rest) st =
         delta_loop zone_apex qclass' outer rest (fold advance ss st)"
  using assms(1)
proof (induction ss arbitrary: st)
  case (Cons s ss)
  have "starts_with_soa (concat (map sequence_answers ss) @ rest)"
    using Cons.prems assms(2) by (cases ss) (auto simp: starts_with_soa_def sequence_answers_def difference_from_def)
  then show ?case
    using Cons delta_loop_sequence [of zone_apex qclass' outer st s] by (simp add: advance_def)
qed simp


lemma delta_loop_next:
  assumes step: "delta_loop zone_apex qclass' outer (old # rest) st = Inr (st', terminal)"
    and more: "\<not> (resource_records_semantically_equal old outer \<and>
                 resource_records_semantically_equal (expected_old_soa st) outer)"
  shows "\<exists>s later. old # rest = sequence_answers s @ later \<and> starts_with_soa later \<and>
    difference_from zone_apex qclass' outer (expected_old_soa st) s"
proof -
  let ?P = "\<lambda>r. \<not> is_soa r"
  note step = step [unfolded delta_loop.simps [of _ _ _ "old # rest"] list.case if_not_P [OF more]]
  have old: "is_soa old" "resource_records_semantically_equal old (expected_old_soa st)"
    using step by (auto split: if_splits)
  obtain new rest' where new: "dropWhile ?P rest = new # rest'"
    using step old by (auto simp: Let_def split: list.splits)
  define s where "s = \<lparr> old_soa = old, deletes = takeWhile ?P rest, new_soa = new, adds = takeWhile ?P rest' \<rparr>"
  have "rest = takeWhile ?P rest @ new # rest'" using new by (metis takeWhile_dropWhile_id)
  then have "old # rest = sequence_answers s @ dropWhile ?P rest'"
    by (simp add: s_def sequence_answers_def)
  moreover have "apex_soa zone_apex qclass' new"
    using step old new by (auto simp: Let_def apex_soa_def and_then_eq_Inr map_err_eq_Inr split: if_splits)
  then have "difference_from zone_apex qclass' outer (expected_old_soa st) s"
    using old more semantically_equal_trans [of old "expected_old_soa st"]
    by (auto simp: difference_from_def s_def list_all_iff dest: set_takeWhileD)
  moreover have "starts_with_soa (dropWhile ?P rest')"
    by (auto simp: starts_with_soa_def dropWhile_eq_Cons_conv split: list.splits)
  ultimately show ?thesis by blast
qed

definition chain_result ::
  "domain_name \<Rightarrow> u16 \<Rightarrow> resource_record \<Rightarrow> resource_record list \<Rightarrow> delta_state \<Rightarrow> delta_state \<Rightarrow> bool
     \<Rightarrow> ixfr_delta_sequence list \<Rightarrow> resource_record list \<Rightarrow> bool" where
  "chain_result zone_apex qclass' outer answers st st' terminal ss tail \<longleftrightarrow>
     answers = concat (map sequence_answers ss) @ tail \<and>
     difference_chain zone_apex qclass' outer (expected_old_soa st) ss (expected_old_soa st') \<and> st' = fold advance ss st \<and>
     (if terminal then \<exists>r. tail = [r] \<and> resource_records_semantically_equal r outer \<and>
        resource_records_semantically_equal (expected_old_soa st') outer else tail = [])"

lemma delta_loop_sound:
  assumes "delta_loop zone_apex qclass' outer answers st = Inr (st', terminal)"
  shows "\<exists>ss tail. chain_result zone_apex qclass' outer answers st st' terminal ss tail"
  using assms
proof (induction answers arbitrary: st rule: length_induct)
  case (1 answers)
  show ?case
  proof (cases answers)
    case Nil
    then have "chain_result zone_apex qclass' outer answers st st' terminal [] []"
      using "1.prems" by (auto simp: chain_result_def delta_loop.simps [of _ _ _ "[]"])
    then show ?thesis by blast
  next
    case (Cons old rest)
    show ?thesis
    proof (cases "resource_records_semantically_equal old outer \<and>
        resource_records_semantically_equal (expected_old_soa st) outer")
      case True
      then have "chain_result zone_apex qclass' outer answers st st' terminal [] answers"
        using "1.prems" Cons
        by (auto simp: chain_result_def delta_loop.simps [of _ _ _ "old # rest"] split: if_splits)
      then show ?thesis by blast
    next
      case False
      then obtain s later where s: "answers = sequence_answers s @ later" "starts_with_soa later"
        "difference_from zone_apex qclass' outer (expected_old_soa st) s"
        using delta_loop_next "1.prems" Cons by blast
      have "delta_loop zone_apex qclass' outer later (advance s st) = Inr (st', terminal)"
        using "1.prems" delta_loop_sequence [OF s(3) s(2)] by (simp add: s(1))
      moreover have "length later < length answers" by (simp add: s(1) sequence_answers_def)
      ultimately obtain ss tail where "chain_result zone_apex qclass' outer later (advance s st) st' terminal ss tail"
        using "1.IH" by blast
      then have "chain_result zone_apex qclass' outer answers st st' terminal (s # ss) tail"
        using s by (auto simp: chain_result_def advance_def)
      then show ?thesis by blast
    qed
  qed
qed

lemma difference_chain_end:
  "difference_chain zone_apex qclass' outer (expected_old_soa st) ss final \<Longrightarrow> expected_old_soa (fold advance ss st) = final"
  by (induction ss arbitrary: st) (auto simp: advance_def)

lemma delta_loop_complete:
  assumes "is_soa outer" "chain_result zone_apex qclass' outer answers st st' terminal ss tail"
  shows "delta_loop zone_apex qclass' outer answers st = Inr (st', terminal)"
proof -
  have chain: "difference_chain zone_apex qclass' outer (expected_old_soa st) ss (expected_old_soa st')"
    and st': "st' = fold advance ss st" and answers: "answers = concat (map sequence_answers ss) @ tail"
    using assms(2) unfolding chain_result_def by blast+
  have tail: "starts_with_soa tail"
    using assms semantically_equal_type [of _ outer]
    by (auto simp: chain_result_def starts_with_soa_def is_soa_def split: if_splits)
  have "delta_loop zone_apex qclass' outer tail st' = Inr (st', terminal)"
    using assms(2) by (cases terminal) (auto simp: chain_result_def delta_loop.simps [of _ _ _ "[]"] delta_loop.simps [of _ _ _ "[_]"])
  then show ?thesis using delta_loop_chain [OF chain tail] by (simp add: answers st')
qed

lemma delta_loop_iff:
  "is_soa outer \<Longrightarrow> delta_loop zone_apex qclass' outer answers st = Inr (st', terminal) \<longleftrightarrow>
     (\<exists>ss tail. chain_result zone_apex qclass' outer answers st st' terminal ss tail)"
  using delta_loop_sound delta_loop_complete by blast

lemma fold_advance:
  "found_sequences (fold advance ss st) = found_sequences st @ ss"
  "found_rrsets (fold advance ss st) = found_rrsets st \<union> rrset_identity ` set (concat (map sequence_answers ss))"
  by (induction ss arbitrary: st) (auto simp: advance_def)

abbreviation delta_start :: "resource_record \<Rightarrow> delta_state" where
  "delta_start current_soa \<equiv> \<lparr> expected_old_soa = current_soa, found_sequences = [], found_rrsets = {} \<rparr>"

lemma validated_soa: "validate_current_soa r zone_apex qclass' = Inr () \<Longrightarrow> is_soa r"
  by (auto simp: validate_current_soa_def is_soa_def split: if_splits)

lemma delta_parts_iff:
  "parse_ixfr_incremental_delta_parts zone_apex qclass' current_soa (outer # rest) = Inr (delta, True) \<longleftrightarrow>
     validate_current_soa current_soa zone_apex qclass' = Inr () \<and> validate_current_soa outer zone_apex qclass' = Inr () \<and>
     soa_serial (rec_rdata current_soa) = Inr (old_serial delta) \<and> soa_serial (rec_rdata outer) = Inr (new_serial delta) \<and>
     \<not> (new_serial delta - old_serial delta = 0 \<or> 0x80000000 \<le> new_serial delta - old_serial delta) \<and>
     (\<exists>st. delta_loop zone_apex qclass' outer rest (delta_start current_soa) = Inr (st, True) \<and>
        soa_serial (rec_rdata (expected_old_soa st)) = Inr (new_serial delta) \<and>
        resource_records_semantically_equal (expected_old_soa st) outer \<and>
        sequences delta = found_sequences st \<and> affected_rrsets delta = found_rrsets st)"
  (is "?parse \<longleftrightarrow> ?spec")
proof
  assume ?parse
  then show ?spec
    by (auto simp: parse_ixfr_incremental_delta_parts_def and_then_eq_Inr map_err_eq_Inr ensure_eq_Inr Let_def
        split: if_splits)
next
  assume ?spec
  then show ?parse
    by (auto simp: parse_ixfr_incremental_delta_parts_def ensure_def)
qed

lemma forward_distance: "\<not> (d = 0 \<or> 0x80000000 \<le> d) \<longleftrightarrow> 0 < d \<and> d < 2 ^ 31" for d :: u32
  by (simp add: word_gt_0 not_le)

lemma delta_loop_start:
  assumes "is_soa outer"
  shows "delta_loop zone_apex qclass' outer rest (delta_start current_soa) = Inr (st, True) \<longleftrightarrow>
     (\<exists>terminal. rest = concat (map sequence_answers (found_sequences st)) @ [terminal] \<and>
        resource_records_semantically_equal terminal outer \<and>
        resource_records_semantically_equal (expected_old_soa st) outer \<and>
        difference_chain zone_apex qclass' outer current_soa (found_sequences st) (expected_old_soa st) \<and>
        found_rrsets st = rrset_identity ` set (concat (map sequence_answers (found_sequences st))))"
  (is "_ \<longleftrightarrow> ?spec")
proof -
  have "(\<exists>ss tail. chain_result zone_apex qclass' outer rest (delta_start current_soa) st True ss tail) \<longleftrightarrow> ?spec"
  proof
    assume "\<exists>ss tail. chain_result zone_apex qclass' outer rest (delta_start current_soa) st True ss tail"
    then obtain ss tail where c: "chain_result zone_apex qclass' outer rest (delta_start current_soa) st True ss tail"
      by blast
    then have "found_sequences st = ss" "found_rrsets st = rrset_identity ` set (concat (map sequence_answers ss))"
      by (simp_all add: chain_result_def fold_advance)
    then show ?spec using c by (auto simp: chain_result_def)
  next
    assume spec: ?spec
    then have chain: "difference_chain zone_apex qclass' outer (expected_old_soa (delta_start current_soa))
      (found_sequences st) (expected_old_soa st)" by auto
    have "st = fold advance (found_sequences st) (delta_start current_soa)"
      using spec difference_chain_end [OF chain] fold_advance [of "found_sequences st" "delta_start current_soa"]
      by (intro delta_state.equality) auto
    then have "chain_result zone_apex qclass' outer rest (delta_start current_soa) st True (found_sequences st)
        (drop (length (concat (map sequence_answers (found_sequences st)))) rest)"
      using spec by (auto simp: chain_result_def)
    then show "\<exists>ss tail. chain_result zone_apex qclass' outer rest (delta_start current_soa) st True ss tail" by blast
  qed
  then show ?thesis using delta_loop_iff [OF assms] by simp
qed

text \<open>
  C39: The split of an incremental answer is exact.  A complete difference is read off an answer
  section precisely when the section is the response's SOA, the sequences of the difference one
  after another and a copy of the response's SOA, the held SOA and the response's SOA are valid
  apex SOAs with the two serials of the difference, the serial moves forward by less than half
  of the number space, and the sequences form a chain of apex SOAs from the held one to the response's one that
  does not pass the latter before.  The affected RRsets are those of the sequences' records.
\<close>

theorem delta_accepted_exactly:
  "parse_ixfr_incremental_delta_parts zone_apex qclass' current_soa answers = Inr (delta, True) \<longleftrightarrow>
     (\<exists>outer final terminal.
        answers = outer # concat (map sequence_answers (sequences delta)) @ [terminal] \<and>
        validate_current_soa current_soa zone_apex qclass' = Inr () \<and>
        validate_current_soa outer zone_apex qclass' = Inr () \<and>
        soa_serial (rec_rdata current_soa) = Inr (old_serial delta) \<and>
        soa_serial (rec_rdata outer) = Inr (new_serial delta) \<and>
        soa_serial (rec_rdata final) = Inr (new_serial delta) \<and>
        0 < new_serial delta - old_serial delta \<and> new_serial delta - old_serial delta < 2 ^ 31 \<and>
        difference_chain zone_apex qclass' outer current_soa (sequences delta) final \<and>
        resource_records_semantically_equal final outer \<and>
        resource_records_semantically_equal terminal outer \<and>
        affected_rrsets delta = rrset_identity ` set (concat (map sequence_answers (sequences delta))))"
proof (cases answers)
  case Nil
  then show ?thesis by (auto simp: parse_ixfr_incremental_delta_parts_def and_then_eq_Inr)
next
  case (Cons outer rest)
  have ex: "(\<exists>st. P (expected_old_soa st) (found_sequences st) (found_rrsets st)) \<longleftrightarrow> (\<exists>e s a. P e s a)" for P
    by (metis delta_state.select_convs)
  show ?thesis
  proof (cases "validate_current_soa outer zone_apex qclass' = Inr ()")
    case True
    then show ?thesis
      unfolding Cons delta_parts_iff delta_loop_start [OF validated_soa [OF True]] forward_distance
      by (subst ex) (simp, blast)
  next
    case False
    then show ?thesis unfolding Cons delta_parts_iff by blast
  qed
qed

end
