(* ===== verification/Spec2Isabelle.thy ===== *)
theory Spec2Isabelle
  imports Dns_Name Dns_Message Dns_Cookie Dns_Compress Dns_Response Response_Scan Rate_Limit
    Cookie_Store Transfer_Rdata Zone_Transfer Ixfr
begin

text \<open>
  BoronDNS is an authoritative secondary DNS server.  It fetches zones from its primaries, keeps
  them in memory, and answers queries over UDP, TCP and TLS.  This development models the code on
  the path of a request, from its bytes to the bytes of the response and the rate limiter's
  decision about it, and the code that checks the records of a zone transfer, all under
  \<open>src/crates\<close>.

  \<^bold>\<open>Parts and theories.\<close>
  The theories follow the order in which the code calls them.

  \<^item> \<open>Boron_Prelude\<close>: machine integers, big-endian accessors, checked slices, ASCII case, results.

  \<^item> \<open>Dns_Name\<close> (\<open>borondns-core/src/dns.rs\<close>, \<open>DomainName\<close>): names, their wire and text forms, the
  decoder of compressed names (\<open>parse_name\<close>), the scanner that skips them, the canonical key used
  by every index, suffix replacement for DNAME.  The decoder is proved equal to a declarative
  reading of compressed names, the scanner and the buffer-reusing variant agree with it, and
  encoding then decoding gives the name back.

  \<^item> \<open>Dns_Message\<close> (\<open>Header\<close>, \<open>Question\<close>, \<open>RequestMetadata\<close>, EDNS options): the request parser.
  The metadata parser accepts exactly the packets with one well-formed OPT record, and the
  option parser exactly the well-formed option lists.

  \<^item> \<open>Dns_Cookie\<close> (the DNS Cookie functions of \<open>dns.rs\<close>): computation and acceptance of server
  cookies.  SipHash is a parameter \<open>sip\<close> of the definitions, since the hash comes from a crate
  that is not part of the repository.

  \<^item> \<open>Cookie_Store\<close> (\<open>borondns-server/src/dns_cookie.rs\<close>): the secret store that many readers share;
  a call is split at its accesses of the shared state (\<open>store_step\<close>), and reachability gives at
  most one rotation per interval, cookies that survive a rotation, and that any group of readers
  returns.

  \<^item> \<open>Dns_Compress\<close>: the name compressor and the two record encoders, the one that works on records
  and the one that works on the stored wire form of a zone image.  What they write decodes to the
  record, and both write the same octets.

  \<^item> \<open>Dns_Response\<close>: EDNS response options, padding, response assembly and truncation.  A response
  reads back as the question and the records it was built from; a UDP response fits its ceiling
  or announces the loss.

  \<^item> \<open>Response_Scan\<close> (\<open>borondns-server/src/rate_limit.rs\<close>, \<open>udp.rs\<close>): the scanners that classify a
  finished response for rate limiting and build the truncated reply of a slip.  They are proved
  against the encoder: the category of a built response is the one of the data it was built from.

  \<^item> \<open>Float64\<close>: the \<open>f64\<close> operations the token buckets use, as rounding to nearest even on the
  non-negative reals, with the error bounds the limiter needs.

  \<^item> \<open>Rate_Limit\<close>: address prefixes, token buckets, the bucket table with its recency order, the
  decision of response rate limiting and the limiter of NOTIFY log lines.  The tables are
  proved to implement a bounded queue in order of last use, a decision to follow the tokens a bucket
  has gained, and the responses between any two instants to respect the configured rate; both limiters
  interpret the locale \<open>limiter\<close>.

  \<^item> \<open>Transfer_Rdata\<close> (\<open>borondns-core/src/axfr.rs\<close>): the records of a zone transfer, their rdata
  normalised, validated per type, and the identity under which they are compared.

  \<^item> \<open>Zone_Transfer\<close> (\<open>axfr.rs\<close>): the transfer queries and their frame, the AXFR and SOA response
  parsers, the checks of a whole record set and the grouping into RRsets.  The parser accepts exactly the
  streams that its specification describes, each error of the record-set check names a rule that is
  broken, and the grouping does not depend on the hasher that speeds it up.

  \<^item> \<open>Ixfr\<close> (\<open>axfr.rs\<close>): incremental transfers: the query, the responses, the split of the answers into
  difference sequences and their application to working copies of the RRsets.  The split accepts exactly the
  forward chains of SOA records, and the application, with its index maps and swap-removals, is
  proved to compute set differences and unions of the zone's records through the locale
  \<open>difference_target\<close>.  The held zone enters as its records per RRset key.

  \<^bold>\<open>Conventions.\<close>
  A \<open>struct\<close> is a \<open>record\<close>, an \<open>enum\<close> a \<open>datatype\<close>, a \<open>Result\<close> a sum with the error on the left,
  fixed-width integers are words, \<open>usize\<close> is \<open>nat\<close> (offsets and lengths stay far below the word
  size), a \<open>HashMap\<close> or \<open>BTreeMap\<close> is a \<open>mapping\<close> or a map.  A loop is a \<open>fun\<close> or a \<open>function\<close> with
  its measure; no definition uses fuel, except where the code itself counts (the limit on
  compression pointers, the limit on alias chains).  Every read of the clock is an argument.

  \<^bold>\<open>Not modelled.\<close>
  The asynchronous listeners and sessions, sockets, AF\_XDP, TLS and the file system (\<open>udp.rs\<close>
  apart from its packet functions, \<open>tcp.rs\<close>, \<open>transfer.rs\<close>, \<open>zone_persistence.rs\<close>,
  \<open>secret_store.rs\<close>, \<open>af_xdp.rs\<close> and the modules around them) are input and output around the
  functions modelled here.  Metrics rendering and the management interfaces
  (\<open>health_metrics.rs\<close>, \<open>observability.rs\<close>, \<open>operator.rs\<close>) have no effect on an answer.  TOML
  parsing and the configuration checks (\<open>config.rs\<close>, \<open>config_validation.rs\<close>), catalog zones
  (\<open>catalog.rs\<close>), TSIG (\<open>tsig.rs\<close>), the packed zone image (\<open>zone_image.rs\<close>) beyond its record
  encoder, and the test tools (\<open>boron-gen\<close>, \<open>boron-gun\<close>) are left to later work.
\<close>

end
